(* ===== verification/Can_Prelude.thy ===== *)
theory Can_Prelude
  imports Main "HOL-Library.Word"
begin

text \<open>
  The prelude of the development. It holds the machine integers and the result type the other
  theories share, the parts of the Rust standard library that the source uses on numbers and
  strings (\<^verbatim>\<open>to_string\<close>, \<^verbatim>\<open>{:X}\<close>, \<^verbatim>\<open>{:02X}\<close>, \<^verbatim>\<open>{:X?}\<close>, \<^verbatim>\<open>str::parse\<close>,
  \<^verbatim>\<open>from_str_radix\<close>, \<^verbatim>\<open>to_le_bytes\<close>, \<^verbatim>\<open>from_le_bytes\<close>), and the generic lemmas on lists and
  words that several components need.

  Conventions: \<^verbatim>\<open>u8\<close>, \<^verbatim>\<open>u16\<close>, \<^verbatim>\<open>u32\<close>, \<^verbatim>\<open>u64\<close> are words of their width, so \<open>+\<close> wraps as
  \<^verbatim>\<open>wrapping_add\<close> and \<^verbatim>\<open>fetch_add\<close> do. A \<^verbatim>\<open>usize\<close> that counts bytes of a buffer in memory is
  a \<open>nat\<close>. A \<^verbatim>\<open>Result<T, E>\<close> is the sum \<open>'e + 'a\<close>, with \<^verbatim>\<open>Err\<close> on the left. Strings are lists
  of (ASCII) characters.
\<close>

unbundle bit_operations_syntax

section \<open>Machine integers and results\<close>

type_synonym u8 = "8 word"
type_synonym u16 = "16 word"
type_synonym u32 = "32 word"
type_synonym u64 = "64 word"
type_synonym bytes = "u8 list"

type_synonym ('e, 'a) result = "'e + 'a"

abbreviation Ok :: "'a \<Rightarrow> ('e, 'a) result" where
  "Ok \<equiv> Inr"

abbreviation Err :: "'e \<Rightarrow> ('e, 'a) result" where
  "Err \<equiv> Inl"

definition is_ok :: "('e, 'a) result \<Rightarrow> bool" where
  "is_ok r = (case r of Inl _ \<Rightarrow> False | Inr _ \<Rightarrow> True)"

lemma is_ok_simps [simp]: "is_ok (Ok a)" "\<not> is_ok (Err e)"
  by (simp_all add: is_ok_def)

lemma is_ok_iff: "is_ok r \<longleftrightarrow> (\<exists>a. r = Ok a)"
  by (cases r) simp_all

named_theorems branch_simps \<open>definitions unfolded when a proof walks through every branch of an operation\<close>

lemma word_xor_eq_0: "(x :: 'a :: len word) XOR y = 0 \<longleftrightarrow> x = y"
  by (metis xor.assoc xor.left_neutral xor.right_neutral xor_self_eq)

section \<open>Numbers and strings\<close>

definition digit_char :: "nat \<Rightarrow> char" where
  "digit_char d = char_of (if d < 10 then 48 + d else 55 + d)"

text \<open>The digits of a number, most significant first, capital letters above nine.\<close>

fun show_radix :: "nat \<Rightarrow> nat \<Rightarrow> string" where
  "show_radix b n =
     (if b < 2 \<or> n < b then [digit_char n]
      else show_radix b (n div b) @ [digit_char (n mod b)])"

declare show_radix.simps [simp del]

abbreviation show_dec :: "nat \<Rightarrow> string" where
  "show_dec \<equiv> show_radix 10"

abbreviation show_hex :: "nat \<Rightarrow> string" where
  "show_hex \<equiv> show_radix 16"

definition pad_left :: "nat \<Rightarrow> string \<Rightarrow> string" where
  "pad_left w s = replicate (w - length s) (CHR ''0'') @ s"

definition show_int :: "int \<Rightarrow> string" where
  "show_int i = (if i < 0 then CHR ''-'' # show_dec (nat (- i)) else show_dec (nat i))"

fun join_strings :: "string \<Rightarrow> string list \<Rightarrow> string" where
  "join_strings sep [] = []"
| "join_strings sep [s] = s"
| "join_strings sep (s # t # ss) = s @ sep @ join_strings sep (t # ss)"

text \<open>\<^verbatim>\<open>{:X?}\<close> of a byte vector.\<close>

definition debug_hex_bytes :: "bytes \<Rightarrow> string" where
  "debug_hex_bytes bs = ''['' @ join_strings '', '' (map (\<lambda>b. show_hex (unat b)) bs) @ '']''"

text \<open>\<^verbatim>\<open>char::to_digit(radix)\<close>.\<close>

definition char_digit :: "nat \<Rightarrow> char \<Rightarrow> nat option" where
  "char_digit b c =
     (let n = of_char c;
          d = (if 48 \<le> n \<and> n \<le> 57 then n - 48
               else if 65 \<le> n \<and> n \<le> 90 then n - 55
               else if 97 \<le> n \<and> n \<le> 122 then n - 87
               else 99)
      in if d < b then Some d else None)"

fun parse_digits :: "nat \<Rightarrow> nat \<Rightarrow> string \<Rightarrow> nat option" where
  "parse_digits b acc [] = Some acc"
| "parse_digits b acc (c # cs) =
     (case char_digit b c of None \<Rightarrow> None | Some d \<Rightarrow> parse_digits b (acc * b + d) cs)"

text \<open>
  \<^verbatim>\<open>uN::from_str_radix(s, b)\<close> (and \<^verbatim>\<open>s.parse::<uN>()\<close> with \<open>b = 10\<close>): an empty string fails, one
  leading \<^verbatim>\<open>+\<close> is accepted when digits follow, any other character that is no digit fails, and so
  does a value that needs more than \<open>w\<close> bits.
\<close>

definition parse_uint :: "nat \<Rightarrow> nat \<Rightarrow> string \<Rightarrow> nat option" where
  "parse_uint b w s =
     (let ds = (case s of [] \<Rightarrow> [] | c # cs \<Rightarrow> if c = CHR ''+'' then cs else s)
      in if ds = [] then None
         else case parse_digits b 0 ds of
                None \<Rightarrow> None
              | Some n \<Rightarrow> if n < 2 ^ w then Some n else None)"

definition parse_u8 :: "string \<Rightarrow> u8 option" where
  "parse_u8 s = map_option of_nat (parse_uint 10 8 s)"

definition parse_u32 :: "string \<Rightarrow> u32 option" where
  "parse_u32 s = map_option of_nat (parse_uint 10 32 s)"

definition show_bool :: "bool \<Rightarrow> string" where
  "show_bool b = (if b then ''true'' else ''false'')"

lemma char_digit_digit_char:
  assumes "d < b" "b \<le> 16"
  shows "char_digit b (digit_char d) = Some d"
  using assms by (auto simp: char_digit_def digit_char_def Let_def)

lemma digit_char_not_plus: "d < 16 \<Longrightarrow> digit_char d \<noteq> CHR ''+''"
proof
  assume "d < 16" "digit_char d = CHR ''+''"
  then have "of_char (digit_char d) = (43 :: nat)" by simp
  with \<open>d < 16\<close> show False by (simp add: digit_char_def split: if_splits)
qed

lemma parse_digits_append:
  "parse_digits b acc (xs @ ys) =
     (case parse_digits b acc xs of None \<Rightarrow> None | Some n \<Rightarrow> parse_digits b n ys)"
  by (induction xs arbitrary: acc) (auto split: option.splits)

lemma parse_digits_show_radix:
  assumes "2 \<le> b" "b \<le> 16"
  shows "parse_digits b 0 (show_radix b n) = Some n"
  using assms
proof (induction b n rule: show_radix.induct)
  case (1 b n)
  show ?case
  proof (cases "n < b")
    case True
    with "1.prems" show ?thesis
      by (simp add: show_radix.simps [of b n] char_digit_digit_char)
  next
    case False
    with 1 have "parse_digits b 0 (show_radix b (n div b)) = Some (n div b)"
      by simp
    with False "1.prems" show ?thesis
      by (simp add: show_radix.simps [of b n] parse_digits_append char_digit_digit_char)
  qed
qed

lemma show_radix_hd:
  assumes "2 \<le> b" "b \<le> 16"
  shows "\<exists>c cs. show_radix b n = c # cs \<and> c \<noteq> CHR ''+''"
  using assms
proof (induction b n rule: show_radix.induct)
  case (1 b n)
  then show ?case
    by (cases "n < b") (auto simp: show_radix.simps [of b n] digit_char_not_plus)
qed

text \<open>Printing a number and parsing it back gives the number, when it fits the type.\<close>

lemma parse_uint_show_radix:
  assumes "2 \<le> b" "b \<le> 16" "n < 2 ^ w"
  shows "parse_uint b w (show_radix b n) = Some n"
proof -
  obtain c cs where "show_radix b n = c # cs" "c \<noteq> CHR ''+''"
    using show_radix_hd [OF assms(1,2)] by blast
  then show ?thesis
    using parse_digits_show_radix [OF assms(1,2), of n] assms(3)
    by (simp add: parse_uint_def)
qed

lemma unat_less: "unat (w :: 'a :: len word) < 2 ^ LENGTH('a)"
  by (rule unsigned_less)

lemma parse_u32_show [simp]: "parse_u32 (show_dec (unat (w :: u32))) = Some w"
  using parse_uint_show_radix [of 10 "unat w" 32] unat_less [of w]
  by (simp add: parse_u32_def)

lemma parse_u8_show [simp]: "parse_u8 (show_dec (unat (w :: u8))) = Some w"
  using parse_uint_show_radix [of 10 "unat w" 8] unat_less [of w]
  by (simp add: parse_u8_def)

section \<open>Lists\<close>

lemma take_drop_nth4: "k + 4 \<le> length xs \<Longrightarrow> take 4 (drop k xs) = [xs ! k, xs ! (k + 1), xs ! (k + 2), xs ! (k + 3)]"
  by (rule nth_equalityI) (auto simp: less_Suc_eq numeral_eq_Suc)

section \<open>Byte order\<close>

definition u16_to_le_bytes :: "u16 \<Rightarrow> bytes" where
  "u16_to_le_bytes w = [ucast w, ucast (drop_bit 8 w)]"

definition u32_to_le_bytes :: "u32 \<Rightarrow> bytes" where
  "u32_to_le_bytes w = [ucast w, ucast (drop_bit 8 w), ucast (drop_bit 16 w), ucast (drop_bit 24 w)]"

definition u16_from_le_bytes :: "u8 \<Rightarrow> u8 \<Rightarrow> u16" where
  "u16_from_le_bytes a b = ucast a OR push_bit 8 (ucast b)"

definition u32_from_le_bytes :: "u8 \<Rightarrow> u8 \<Rightarrow> u8 \<Rightarrow> u8 \<Rightarrow> u32" where
  "u32_from_le_bytes a b c d =
     ucast a OR push_bit 8 (ucast b) OR push_bit 16 (ucast c) OR push_bit 24 (ucast d)"

lemma length_le_bytes [simp]: "length (u16_to_le_bytes v) = 2" "length (u32_to_le_bytes w) = 4"
  by (simp_all add: u16_to_le_bytes_def u32_to_le_bytes_def)

lemma u16_le_roundtrip [simp]: "u16_from_le_bytes (ucast w) (ucast (drop_bit 8 w)) = w"
  by (rule bit_word_eqI) (auto simp: u16_from_le_bytes_def bit_simps dest: bit_imp_le_length)

lemma u32_le_roundtrip [simp]:
  "u32_from_le_bytes (ucast w) (ucast (drop_bit 8 w)) (ucast (drop_bit 16 w)) (ucast (drop_bit 24 w)) = w"
proof (rule bit_word_eqI)
  fix n assume "n < LENGTH(32)"
  then consider "n < 8" | "8 \<le> n" "n < 16" | "16 \<le> n" "n < 24" | "24 \<le> n" "n < 32" by fastforce
  then show "bit (u32_from_le_bytes (ucast w) (ucast (drop_bit 8 w)) (ucast (drop_bit 16 w))
      (ucast (drop_bit 24 w))) n \<longleftrightarrow> bit w n"
    by cases (auto simp: u32_from_le_bytes_def bit_simps)
qed

lemma u32_to_from_le_bytes [simp]: "u32_to_le_bytes (u32_from_le_bytes a b c d) = [a, b, c, d]"
proof -
  have "ucast (u32_from_le_bytes a b c d) = a" "ucast (drop_bit 8 (u32_from_le_bytes a b c d)) = b"
    "ucast (drop_bit 16 (u32_from_le_bytes a b c d)) = c" "ucast (drop_bit 24 (u32_from_le_bytes a b c d)) = d"
    by (rule bit_word_eqI; auto simp: u32_from_le_bytes_def bit_simps dest: bit_imp_le_length)+
  then show ?thesis by (simp add: u32_to_le_bytes_def)
qed

lemma u16_from_le_bytes_inj:
  "u16_from_le_bytes a b = u16_from_le_bytes a' b' \<longleftrightarrow> a = a' \<and> b = b'"
proof
  assume eq: "u16_from_le_bytes a b = u16_from_le_bytes a' b'"
  have "bit a n = bit a' n" "bit b n = bit b' n" if "n < 8" for n
    using that arg_cong [OF eq, of "\<lambda>w. bit w n"] arg_cong [OF eq, of "\<lambda>w. bit w (n + 8)"]
    by (auto simp: u16_from_le_bytes_def bit_simps dest: bit_imp_le_length)
  then show "a = a' \<and> b = b'" by (auto intro: bit_word_eqI)
qed simp

lemma unat_ucast_byte [simp]: "unat (ucast (b :: u8) :: u32) = unat b" "unat (ucast (b :: u8) :: u16) = unat b"
  using unat_less [of b] by (simp_all add: unsigned_ucast_eq take_bit_nat_eq_self_iff)

lemma take_bit_self_iff: "take_bit k (w :: 'a :: len word) = w \<longleftrightarrow> unat w < 2 ^ k"
proof
  assume "take_bit k w = w"
  then have "unat w = take_bit k (unat w)" by (metis unsigned_take_bit_eq)
  then show "unat w < 2 ^ k" by (metis take_bit_nat_less_exp)
next
  assume "unat w < 2 ^ k"
  then have "unat (take_bit k w) = unat w" by (simp add: unsigned_take_bit_eq take_bit_nat_eq_self)
  then show "take_bit k w = w" by (simp add: word_unat_eq_iff)
qed

section \<open>Nibbles\<close>

text \<open>Bytes that pack a high nibble \<open>h\<close> and a low nibble \<open>k\<close>, by their numbers.\<close>

lemma u8_low_nibble: "(of_nat n :: u8) AND 0x0F = of_nat (n mod 16)"
proof -
  have "(of_nat n :: u8) AND 0x0F = take_bit 4 (of_nat n)"
    by (simp add: take_bit_eq_mask mask_eq_exp_minus_1)
  moreover have "take_bit 4 n = n mod 16" by (simp add: take_bit_eq_mod)
  ultimately show ?thesis by (simp only: take_bit_of_nat)
qed

lemma nibble_cases: "k < 16 \<Longrightarrow> k \<in> {0, 1, 2, 3, 4, 5, 6, 7, 8, 9, 10, 11, 12, 13, 14, 15 :: nat}"
  by (simp, arith)

lemma u8_nibbles:
  assumes "h < 16" "k < 16"
  shows "(of_nat (16 * h) OR of_nat k :: u8) = of_nat (16 * h + k)"
    and "(of_nat (16 * h + k) :: u8) AND 0xF0 = of_nat (16 * h)"
    and "(of_nat (16 * h + k) :: u8) AND 0x0F = of_nat k"
  using nibble_cases [OF assms(1)] nibble_cases [OF assms(2)] by auto

lemma push_bit_or_byte: "b < 256 \<Longrightarrow> push_bit 8 a OR b = 256 * a + (b :: nat)"
proof -
  assume "b < 256"
  then have "take_bit 8 b = b" by (simp add: take_bit_eq_mod)
  then have "bit b n \<Longrightarrow> n < 8" for n by (metis bit_take_bit_iff)
  then have "push_bit 8 a OR b = push_bit 8 a + b"
    by (intro disjunctive_add [symmetric]) (metis bit_push_bit_iff not_less)
  then show ?thesis by (simp add: push_bit_eq_mult)
qed

lemma nat_and_mask: "(n :: nat) AND 0x0F = n mod 16" "(n :: nat) AND 0xFF = n mod 256"
proof -
  have "mask 4 = (15 :: nat)" "mask 8 = (255 :: nat)" by (simp_all add: mask_eq_exp_minus_1)
  then have "n AND 15 = take_bit 4 n" "n AND 255 = take_bit 8 n" by (simp_all only: take_bit_eq_mask)
  then show "n AND 0x0F = n mod 16" "n AND 0xFF = n mod 256" by (simp_all add: take_bit_eq_mod)
qed

lemma drop_bit_and_nibble: "drop_bit 8 n AND 0x0F = n div 256 mod (16 :: nat)"
  by (simp only: nat_and_mask) (simp add: drop_bit_eq_div)

end
