(* ===== verification/Can_Error.thy ===== *)
theory Can_Error
  imports Can_Prelude
begin

text \<open>
  The error types: the four RELAY sentinels (\<^verbatim>\<open>src/relay.rs\<close>) and the unified \<^verbatim>\<open>Error\<close> of the
  crate (\<^verbatim>\<open>src/error.rs\<close>) with its conversions. An \<^verbatim>\<open>std::io::Error\<close> is the OS error number it
  carries (every \<^verbatim>\<open>Io\<close> of the source is built from \<^verbatim>\<open>last_os_error\<close> or from the runtime's
  registration of a descriptor); its text is the operating system's and a parameter of \<open>error_display\<close>.
\<close>

datatype relay_error =
    RelayClosed
  | RelayNotConnected
  | RelayTimeout
  | RelayPayloadTooLarge

datatype can_error =
    Closed
  | NotConnected
  | Timeout
  | PayloadTooLarge
  | InvalidFrame string
  | BusOff
  | Other string
  | Io int

fun error_from_relay :: "relay_error \<Rightarrow> can_error" where
  "error_from_relay RelayClosed = Closed"
| "error_from_relay RelayNotConnected = NotConnected"
| "error_from_relay RelayTimeout = Timeout"
| "error_from_relay RelayPayloadTooLarge = PayloadTooLarge"

fun error_kind :: "can_error \<Rightarrow> relay_error option" where
  "error_kind Closed = Some RelayClosed"
| "error_kind NotConnected = Some RelayNotConnected"
| "error_kind Timeout = Some RelayTimeout"
| "error_kind PayloadTooLarge = Some RelayPayloadTooLarge"
| "error_kind _ = None"

definition invalid_frame :: "string \<Rightarrow> can_error" where
  "invalid_frame reason = InvalidFrame reason"

fun relay_error_display :: "relay_error \<Rightarrow> string" where
  "relay_error_display RelayClosed = ''relay: closed''"
| "relay_error_display RelayNotConnected = ''relay: not connected''"
| "relay_error_display RelayTimeout = ''relay: timeout''"
| "relay_error_display RelayPayloadTooLarge = ''relay: payload too large''"

fun error_display :: "(int \<Rightarrow> string) \<Rightarrow> can_error \<Rightarrow> string" where
  "error_display strerror Closed = ''relay: closed''"
| "error_display strerror NotConnected = ''relay: not connected''"
| "error_display strerror Timeout = ''relay: timeout''"
| "error_display strerror PayloadTooLarge = ''relay: payload too large''"
| "error_display strerror (InvalidFrame reason) = ''can: invalid frame: '' @ reason"
| "error_display strerror BusOff = ''can: bus-off''"
| "error_display strerror (Other msg) = ''can: '' @ msg"
| "error_display strerror (Io n) = strerror n"

lemma error_kind_from_relay [simp]: "error_kind (error_from_relay e) = Some e"
  by (cases e) simp_all

lemma error_kind_Some_iff: "error_kind e = Some r \<longleftrightarrow> e = error_from_relay r"
  by (cases e; cases r) simp_all

lemma error_kind_invalid_frame [simp]: "error_kind (invalid_frame r) = None"
  by (simp add: invalid_frame_def)

text \<open>The sentinels print alike in both types, so wrapping one does not change its text.\<close>

lemma error_display_from_relay: "error_display s (error_from_relay e) = relay_error_display e"
  by (cases e) simp_all

end
