(* ===== verification/Can_Relay.thy ===== *)
theory Can_Relay
  imports Can_Error
begin

text \<open>
  The RELAY protocol types of \<^verbatim>\<open>src/relay.rs\<close>: protocol identifiers, the message envelope, the
  subscriber options with their back-pressure policy, deadlines, health and metrics. Instants and
  durations are numbers of nanoseconds; reading the clock is an argument.
\<close>

section \<open>Protocol and version\<close>

datatype protocol = Can | Dds | Lin | Mqtt | Rcp | Someip

fun protocol_to_i32 :: "protocol \<Rightarrow> int" where
  "protocol_to_i32 Can = 1"
| "protocol_to_i32 Dds = 2"
| "protocol_to_i32 Lin = 3"
| "protocol_to_i32 Mqtt = 4"
| "protocol_to_i32 Rcp = 5"
| "protocol_to_i32 Someip = 6"

definition protocol_try_from :: "int \<Rightarrow> (string, protocol) result" where
  "protocol_try_from v =
     (if v = 1 then Ok Can
      else if v = 2 then Ok Dds
      else if v = 3 then Ok Lin
      else if v = 4 then Ok Mqtt
      else if v = 5 then Ok Rcp
      else if v = 6 then Ok Someip
      else Err (''unknown protocol: '' @ show_int v))"

fun protocol_display :: "protocol \<Rightarrow> string" where
  "protocol_display Can = ''CAN''"
| "protocol_display Dds = ''DDS''"
| "protocol_display Lin = ''LIN''"
| "protocol_display Mqtt = ''MQTT''"
| "protocol_display Rcp = ''RCP''"
| "protocol_display Someip = ''SOMEIP''"

record version =
  v_major :: int
  v_minor :: int
  v_patch :: int

definition default_version :: version where
  "default_version = \<lparr>v_major = 0, v_minor = 0, v_patch = 0\<rparr>"

definition version_display :: "version \<Rightarrow> string" where
  "version_display v = show_int (v_major v) @ ''.'' @ show_int (v_minor v) @ ''.'' @ show_int (v_patch v)"

section \<open>Messages\<close>

record message =
  m_protocol :: protocol
  m_version :: version
  m_id :: string
  m_payload :: bytes
  m_timestamp :: int
  m_seq :: u64
  m_meta :: "string \<rightharpoonup> string"

definition new_message :: "int \<Rightarrow> protocol \<Rightarrow> string \<Rightarrow> bytes \<Rightarrow> message" where
  "new_message now p i pl =
     \<lparr>m_protocol = p, m_version = default_version, m_id = i, m_payload = pl,
      m_timestamp = now, m_seq = 0, m_meta = Map.empty\<rparr>"

section \<open>Back-pressure and subscriber options\<close>

datatype back_pressure = DropNewest | DropOldest | Block

record subscriber_options =
  channel_depth :: nat
  back_pressure :: back_pressure
  rate_limit_per_sec :: u32

definition default_options :: subscriber_options where
  "default_options = \<lparr>channel_depth = 0, back_pressure = DropNewest, rate_limit_per_sec = 0\<rparr>"

definition chan_depth :: "subscriber_options \<Rightarrow> nat \<Rightarrow> nat" where
  "chan_depth opts default_depth =
     (if channel_depth opts > 0 then channel_depth opts else default_depth)"

lemma chan_depth_pos: "0 < d \<Longrightarrow> 0 < chan_depth opts d"
  by (simp add: chan_depth_def)

section \<open>Contexts\<close>

record context_t =
  deadline :: "nat option"

definition ctx_background :: context_t where
  "ctx_background = \<lparr>deadline = None\<rparr>"

definition ctx_with_timeout :: "nat \<Rightarrow> nat \<Rightarrow> context_t" where
  "ctx_with_timeout now d = \<lparr>deadline = Some (now + d)\<rparr>"

definition ctx_done :: "context_t \<Rightarrow> nat \<Rightarrow> bool" where
  "ctx_done ctx now = (case deadline ctx of None \<Rightarrow> False | Some d \<Rightarrow> now \<ge> d)"

lemma ctx_done_background [simp]: "\<not> ctx_done ctx_background now"
  by (simp add: ctx_done_def ctx_background_def)

lemma ctx_done_mono: "ctx_done ctx t \<Longrightarrow> t \<le> t' \<Longrightarrow> ctx_done ctx t'"
  by (auto simp: ctx_done_def split: option.splits)

section \<open>Health and metrics\<close>

datatype health_status = HealthOk | Degraded | Down

fun health_status_display :: "health_status \<Rightarrow> string" where
  "health_status_display HealthOk = ''OK''"
| "health_status_display Degraded = ''degraded''"
| "health_status_display Down = ''down''"

record health =
  h_status :: health_status
  h_details :: string

definition health_ok :: health where
  "health_ok = \<lparr>h_status = HealthOk, h_details = ''''\<rparr>"

definition health_degraded :: "string \<Rightarrow> health" where
  "health_degraded d = \<lparr>h_status = Degraded, h_details = d\<rparr>"

definition health_down :: "string \<Rightarrow> health" where
  "health_down d = \<lparr>h_status = Down, h_details = d\<rparr>"

record metrics =
  write_count :: u64
  deliver_count :: u64
  drop_count :: u64
  bytes_written :: u64
  bytes_delivered :: u64
  error_count :: u64

section \<open>Lemmas\<close>

text \<open>The integer form of a protocol decodes to it, and only those six integers decode.\<close>

lemma protocol_try_from_to_i32 [simp]: "protocol_try_from (protocol_to_i32 p) = Ok p"
  by (cases p) (simp_all add: protocol_try_from_def)

lemma protocol_try_from_Ok: "protocol_try_from v = Ok p \<Longrightarrow> v = protocol_to_i32 p"
  by (auto simp: protocol_try_from_def split: if_splits)

lemma protocol_to_i32_inj: "protocol_to_i32 p = protocol_to_i32 q \<Longrightarrow> p = q"
  using protocol_try_from_to_i32 by (metis sum.inject(2))

end
