(* ===== verification/Can_Frame.thy ===== *)
theory Can_Frame
  imports Can_Error
begin

text \<open>
  CAN frames, filters and frame validation (\<^verbatim>\<open>src/frame.rs\<close>). \<open>validate_frame\<close> walks the checks
  in the order of the source; \<open>wf_frame\<close> is the specification it implements, one line per frame
  format, and \<open>validate_frame_iff\<close> shows that they agree.
\<close>

section \<open>Constants\<close>

definition CAN_MAX_DATA_LEN :: nat where
  "CAN_MAX_DATA_LEN = 8"

definition CAN_FD_MAX_DATA_LEN :: nat where
  "CAN_FD_MAX_DATA_LEN = 64"

definition CAN_FD_CANONICAL_DATA_LENS :: "nat list" where
  "CAN_FD_CANONICAL_DATA_LENS = [0, 1, 2, 3, 4, 5, 6, 7, 8, 12, 16, 20, 24, 32, 48, 64]"

definition is_canonical_fd_data_len :: "nat \<Rightarrow> bool" where
  "is_canonical_fd_data_len len = List.member CAN_FD_CANONICAL_DATA_LENS len"

definition CAN_XL_MIN_DATA_LEN :: nat where
  "CAN_XL_MIN_DATA_LEN = 1"

definition CAN_XL_MAX_DATA_LEN :: nat where
  "CAN_XL_MAX_DATA_LEN = 2048"

definition CAN_MAX_STD_ID :: u32 where
  "CAN_MAX_STD_ID = 0x7FF"

definition CAN_MAX_EXT_ID :: u32 where
  "CAN_MAX_EXT_ID = 0x1FFFFFFF"

definition CAN_XL_MAX_PRIO_ID :: u32 where
  "CAN_XL_MAX_PRIO_ID = 0x7FF"

lemmas frame_consts = CAN_MAX_DATA_LEN_def CAN_FD_MAX_DATA_LEN_def CAN_XL_MAX_DATA_LEN_def
  CAN_MAX_STD_ID_def CAN_MAX_EXT_ID_def CAN_XL_MAX_PRIO_ID_def

section \<open>Frames\<close>

record frame =
  f_id :: u32
  f_ext :: bool
  f_rtr :: bool
  f_fd :: bool
  f_brs :: bool
  f_esi :: bool
  f_xl :: bool
  f_sdt :: u8
  f_vcid :: u8
  f_af :: u32
  f_sec :: bool
  f_data :: bytes

definition default_frame :: frame where
  "default_frame =
     \<lparr>f_id = 0, f_ext = False, f_rtr = False, f_fd = False, f_brs = False, f_esi = False,
      f_xl = False, f_sdt = 0, f_vcid = 0, f_af = 0, f_sec = False, f_data = []\<rparr>"

definition frame_max_data_len :: "frame \<Rightarrow> nat" where
  "frame_max_data_len f =
     (if f_xl f then CAN_XL_MAX_DATA_LEN
      else if f_fd f then CAN_FD_MAX_DATA_LEN
      else CAN_MAX_DATA_LEN)"

definition remote_request :: "u32 \<Rightarrow> bool \<Rightarrow> nat \<Rightarrow> frame" where
  "remote_request i ext requested_len =
     default_frame\<lparr>f_id := i, f_ext := ext, f_rtr := True,
       f_data := replicate (min requested_len CAN_MAX_DATA_LEN) 0\<rparr>"

definition max_data_len :: "bool \<Rightarrow> nat" where
  "max_data_len fd = (if fd then CAN_FD_MAX_DATA_LEN else CAN_MAX_DATA_LEN)"

section \<open>Filters\<close>

record can_filter =
  flt_id :: u32
  flt_mask :: u32

definition filter_matches :: "can_filter \<Rightarrow> frame \<Rightarrow> bool" where
  "filter_matches flt fr \<longleftrightarrow> (f_id fr AND flt_mask flt) = (flt_id flt AND flt_mask flt)"

section \<open>Loaned frames\<close>

text \<open>
  The release callback of a \<^verbatim>\<open>LoanedFrame\<close> is an \<^verbatim>\<open>FnOnce\<close> closure: a change of the state it
  captures, run at most once because \<open>return_loan\<close> consumes the loan.
\<close>

record 's loaned_frame =
  lf_frame :: frame
  lf_release :: "('s \<Rightarrow> 's) option"

definition loaned_new :: "frame \<Rightarrow> ('s \<Rightarrow> 's) \<Rightarrow> 's loaned_frame" where
  "loaned_new f release = \<lparr>lf_frame = f, lf_release = Some release\<rparr>"

definition loaned_simple :: "frame \<Rightarrow> 's loaned_frame" where
  "loaned_simple f = \<lparr>lf_frame = f, lf_release = None\<rparr>"

definition return_loan :: "'s loaned_frame \<Rightarrow> 's \<Rightarrow> 's" where
  "return_loan lf s = (case lf_release lf of Some f \<Rightarrow> f s | None \<Rightarrow> s)"

section \<open>Validation\<close>

definition validate_frame :: "frame \<Rightarrow> (can_error, unit) result" where
  "validate_frame f =
     (if f_xl f \<and> f_fd f then Err (invalid_frame ''XL and FD are mutually exclusive'')
      else if f_xl f then
        (if f_ext f then Err (invalid_frame ''CAN XL frame must not set Ext'')
         else if f_rtr f then Err (invalid_frame ''CAN XL frame must not set RTR'')
         else if f_brs f then Err (invalid_frame ''CAN XL frame must not set BRS'')
         else if f_id f > CAN_XL_MAX_PRIO_ID then
           Err (invalid_frame (''CAN XL Priority ID 0x'' @ show_hex (unat (f_id f)) @ '' exceeds 0x7FF''))
         else if f_data f = [] then
           Err (invalid_frame ''CAN XL frame must carry at least 1 byte'')
         else if length (f_data f) > CAN_XL_MAX_DATA_LEN then
           Err (invalid_frame (''CAN XL data length '' @ show_dec (length (f_data f)) @ '' exceeds 2048''))
         else Ok ())
      else if f_ext f \<and> f_id f > CAN_MAX_EXT_ID then
        Err (invalid_frame (''extended ID 0x'' @ show_hex (unat (f_id f)) @ '' exceeds 0x1FFFFFFF''))
      else if \<not> f_ext f \<and> f_id f > CAN_MAX_STD_ID then
        Err (invalid_frame (''standard ID 0x'' @ show_hex (unat (f_id f)) @ '' exceeds 0x7FF''))
      else if f_brs f \<and> \<not> f_fd f then Err (invalid_frame ''BRS requires FD=true'')
      else if f_rtr f \<and> f_fd f then Err (invalid_frame ''RTR must be false when FD=true'')
      else if f_esi f \<and> \<not> f_fd f \<and> \<not> f_xl f then Err (invalid_frame ''ESI requires FD or XL'')
      else if f_fd f then
        (if length (f_data f) > CAN_FD_MAX_DATA_LEN then
           Err (invalid_frame (''CAN FD data length '' @ show_dec (length (f_data f)) @ '' exceeds 64''))
         else if \<not> is_canonical_fd_data_len (length (f_data f)) then
           Err (invalid_frame (''CAN FD data length '' @ show_dec (length (f_data f)) @
             '' is not a canonical DLC length (must be one of 0-8, 12, 16, 20, 24, 32, 48, 64)''))
         else Ok ())
      else if length (f_data f) > CAN_MAX_DATA_LEN then
        Err (invalid_frame (''classic CAN data length '' @ show_dec (length (f_data f)) @ '' exceeds 8''))
      else Ok ())"

section \<open>What a valid frame is\<close>

text \<open>The specification, by frame format.\<close>

definition wf_xl :: "frame \<Rightarrow> bool" where
  "wf_xl f \<longleftrightarrow> f_xl f \<and> \<not> f_fd f \<and> \<not> f_ext f \<and> \<not> f_rtr f \<and> \<not> f_brs f \<and>
     unat (f_id f) < 2 ^ 11 \<and> length (f_data f) \<in> {1..2048}"

definition wf_id :: "frame \<Rightarrow> bool" where
  "wf_id f \<longleftrightarrow> unat (f_id f) < (if f_ext f then 2 ^ 29 else 2 ^ 11)"

definition wf_fd :: "frame \<Rightarrow> bool" where
  "wf_fd f \<longleftrightarrow> f_fd f \<and> \<not> f_xl f \<and> \<not> f_rtr f \<and> wf_id f \<and>
     (length (f_data f) \<le> 8 \<or> length (f_data f) \<in> {12, 16, 20, 24, 32, 48, 64})"

definition wf_classic :: "frame \<Rightarrow> bool" where
  "wf_classic f \<longleftrightarrow> \<not> f_fd f \<and> \<not> f_xl f \<and> \<not> f_brs f \<and> \<not> f_esi f \<and> wf_id f \<and> length (f_data f) \<le> 8"

definition wf_frame :: "frame \<Rightarrow> bool" where
  "wf_frame f \<longleftrightarrow> wf_xl f \<or> wf_fd f \<or> wf_classic f"

lemma std_id_gt: "(0x7FF :: u32) < w \<longleftrightarrow> 2048 \<le> unat w"
  by (simp add: word_less_nat_alt Suc_le_eq [symmetric])

lemma ext_id_gt: "(0x1FFFFFFF :: u32) < w \<longleftrightarrow> 536870912 \<le> unat w"
  by (simp add: word_less_nat_alt Suc_le_eq [symmetric])

lemma canonical_iff:
  "is_canonical_fd_data_len n \<longleftrightarrow> n \<le> 8 \<or> n \<in> {12, 16, 20, 24, 32, 48, 64}"
  unfolding is_canonical_fd_data_len_def CAN_FD_CANONICAL_DATA_LENS_def by auto

lemma canonical_le: "is_canonical_fd_data_len n \<Longrightarrow> n \<le> 64"
  by (auto simp: canonical_iff)

lemma validate_xl:
  assumes "f_xl f"
  shows "validate_frame f = Ok () \<longleftrightarrow> wf_xl f"
proof -
  have "length (f_data f) \<in> {1..2048} \<longleftrightarrow> f_data f \<noteq> [] \<and> length (f_data f) \<le> 2048"
    by (cases "f_data f") auto
  with assms show ?thesis
    by (simp add: validate_frame_def wf_xl_def frame_consts std_id_gt not_less)
qed

lemma validate_fd:
  assumes "f_fd f" "\<not> f_xl f"
  shows "validate_frame f = Ok () \<longleftrightarrow> wf_fd f"
  using assms canonical_le [of "length (f_data f)"]
  by (cases "f_ext f"; cases "is_canonical_fd_data_len (length (f_data f))")
    (simp_all add: validate_frame_def wf_fd_def wf_id_def frame_consts std_id_gt ext_id_gt
      not_less not_le canonical_iff)

lemma validate_classic:
  assumes "\<not> f_fd f" "\<not> f_xl f"
  shows "validate_frame f = Ok () \<longleftrightarrow> wf_classic f"
  using assms
  by (cases "f_ext f")
    (simp_all add: validate_frame_def wf_classic_def wf_id_def frame_consts std_id_gt ext_id_gt
      not_less not_le)

lemma validate_frame_iff: "validate_frame f = Ok () \<longleftrightarrow> wf_frame f"
proof -
  consider "f_xl f" | "f_fd f" "\<not> f_xl f" | "\<not> f_fd f" "\<not> f_xl f" by blast
  then show ?thesis
    by cases (simp_all add: validate_xl validate_fd validate_classic, auto simp: wf_frame_def wf_xl_def wf_fd_def wf_classic_def)
qed

lemma validate_frame_cases: "validate_frame f = Ok () \<or> (\<exists>r. validate_frame f = Err (InvalidFrame r))"
  by (simp add: validate_frame_def invalid_frame_def)

lemma validate_frame_Err: "validate_frame f = Err e \<Longrightarrow> \<exists>r. e = InvalidFrame r"
  using validate_frame_cases [of f] by auto

lemma wf_frame_data_len: "wf_frame f \<Longrightarrow> length (f_data f) \<le> frame_max_data_len f"
  by (auto simp: wf_frame_def wf_xl_def wf_fd_def wf_classic_def frame_max_data_len_def frame_consts)

lemma filter_matches_zero [simp]: "filter_matches \<lparr>flt_id = i, flt_mask = 0\<rparr> f"
  by (simp add: filter_matches_def)

end
