(* ===== verification/Can_Text.thy ===== *)
theory Can_Text
  imports Can_Error
begin

text \<open>
  What the text formats (\<^verbatim>\<open>src/dbc/mod.rs\<close>, \<^verbatim>\<open>src/recorder/mod.rs\<close>) use of \<^verbatim>\<open>str\<close>: trimming, splitting,
  searching and slicing. Texts are ASCII, so byte offsets are positions in the list. A slice whose
  bounds do not fit panics, which is a value of its own.
\<close>

section \<open>Panics\<close>

datatype 'a outcome = Returns 'a | Panics

fun and_then :: "'a outcome \<Rightarrow> ('a \<Rightarrow> 'b outcome) \<Rightarrow> 'b outcome" where
  "and_then (Returns a) f = f a"
| "and_then Panics f = Panics"

lemma and_then_Returns: "and_then x f = Returns b \<longleftrightarrow> (\<exists>a. x = Returns a \<and> f a = Returns b)"
  by (cases x) simp_all

lemma and_then_assoc: "and_then (and_then x f) g = and_then x (\<lambda>a. and_then (f a) g)"
  by (cases x) simp_all

text \<open>The \<^verbatim>\<open>?\<close> operator: an error returns early.\<close>

definition try_then :: "('e, 'a) result \<Rightarrow> ('a \<Rightarrow> ('e, 'b) result outcome) \<Rightarrow> ('e, 'b) result outcome" where
  "try_then r f = (case r of Err e \<Rightarrow> Returns (Err e) | Ok a \<Rightarrow> f a)"

lemma try_then_simps [simp]: "try_then (Ok a) f = f a" "try_then (Err e) f = Returns (Err e)"
  by (simp_all add: try_then_def)

definition ok_or :: "'e \<Rightarrow> 'a option \<Rightarrow> ('e, 'a) result" where
  "ok_or e x = (case x of None \<Rightarrow> Err e | Some a \<Rightarrow> Ok a)"

lemma ok_or_simps [simp]: "ok_or e None = Err e" "ok_or e (Some a) = Ok a"
  by (simp_all add: ok_or_def)

section \<open>Strings\<close>

text \<open>\<^verbatim>\<open>&s[a..b]\<close>, \<^verbatim>\<open>&s[a..]\<close> and \<^verbatim>\<open>&s[..b]\<close>.\<close>

definition slice :: "string \<Rightarrow> nat \<Rightarrow> nat \<Rightarrow> string outcome" where
  "slice s a b = (if a \<le> b \<and> b \<le> length s then Returns (take (b - a) (drop a s)) else Panics)"

definition slice_from :: "string \<Rightarrow> nat \<Rightarrow> string outcome" where
  "slice_from s a = slice s a (length s)"

definition slice_to :: "string \<Rightarrow> nat \<Rightarrow> string outcome" where
  "slice_to s b = slice s 0 b"

lemma slice_fits [simp]: "a \<le> b \<Longrightarrow> b \<le> length s \<Longrightarrow> slice s a b = Returns (take (b - a) (drop a s))"
  by (simp add: slice_def)

lemma slice_from_fits [simp]: "a \<le> length s \<Longrightarrow> slice_from s a = Returns (drop a s)"
  by (simp add: slice_from_def)

lemma slice_to_fits [simp]: "b \<le> length s \<Longrightarrow> slice_to s b = Returns (take b s)"
  by (simp add: slice_to_def)

definition is_whitespace :: "char \<Rightarrow> bool" where
  "is_whitespace c = (let n = of_char c :: nat in 9 \<le> n \<and> n \<le> 13 \<or> n = 32)"

definition trim_start :: "string \<Rightarrow> string" where
  "trim_start s = dropWhile is_whitespace s"

definition trim_end :: "string \<Rightarrow> string" where
  "trim_end s = rev (dropWhile is_whitespace (rev s))"

definition trim :: "string \<Rightarrow> string" where
  "trim s = trim_end (trim_start s)"

definition trim_end_matches :: "char \<Rightarrow> string \<Rightarrow> string" where
  "trim_end_matches c s = rev (dropWhile (\<lambda>x. x = c) (rev s))"

definition starts_with :: "string \<Rightarrow> string \<Rightarrow> bool" where
  "starts_with s p \<longleftrightarrow> take (length p) s = p"

definition ends_with :: "string \<Rightarrow> string \<Rightarrow> bool" where
  "ends_with s p \<longleftrightarrow> starts_with (rev s) (rev p)"

text \<open>\<^verbatim>\<open>find\<close> of a character and of a string.\<close>

fun find_char :: "char \<Rightarrow> string \<Rightarrow> nat option" where
  "find_char c [] = None"
| "find_char c (x # xs) = (if x = c then Some 0 else map_option Suc (find_char c xs))"

fun find_str :: "string \<Rightarrow> string \<Rightarrow> nat option" where
  "find_str p s =
     (if starts_with s p then Some 0
      else case s of [] \<Rightarrow> None | x # xs \<Rightarrow> map_option Suc (find_str p xs))"

declare find_str.simps [simp del]

lemma find_char_less: "find_char c s = Some i \<Longrightarrow> i < length s \<and> s ! i = c \<and> c \<notin> set (take i s)"
  by (induction s arbitrary: i) (auto split: if_splits)

lemma find_char_append [simp]: "c \<notin> set s \<Longrightarrow> find_char c (s @ c # t) = Some (length s)"
  by (induction s) auto

lemma find_char_none [simp]: "c \<notin> set s \<Longrightarrow> find_char c s = None"
  by (induction s) auto

text \<open>\<^verbatim>\<open>split_whitespace\<close>: the maximal pieces without white space.\<close>

fun split_whitespace_from :: "string \<Rightarrow> string \<Rightarrow> string list" where
  "split_whitespace_from acc [] = (if acc = [] then [] else [rev acc])"
| "split_whitespace_from acc (c # cs) =
     (if is_whitespace c then (if acc = [] then [] else [rev acc]) @ split_whitespace_from [] cs
      else split_whitespace_from (c # acc) cs)"

definition split_whitespace :: "string \<Rightarrow> string list" where
  "split_whitespace s = split_whitespace_from [] s"

text \<open>\<^verbatim>\<open>splitn(n, c)\<close>: at most \<open>n\<close> pieces, the last one holding the rest.\<close>

fun splitn :: "nat \<Rightarrow> char \<Rightarrow> string \<Rightarrow> string list" where
  "splitn 0 c s = []"
| "splitn (Suc 0) c s = [s]"
| "splitn (Suc (Suc n)) c s =
     (case find_char c s of None \<Rightarrow> [s] | Some i \<Rightarrow> take i s # splitn (Suc n) c (drop (Suc i) s))"

text \<open>\<^verbatim>\<open>lines\<close>: split at line feeds, without a carriage return before them; no empty last line.\<close>

definition strip_cr :: "string \<Rightarrow> string" where
  "strip_cr s = (if s \<noteq> [] \<and> last s = CHR 0x0D then butlast s else s)"

fun lines_from :: "string \<Rightarrow> string \<Rightarrow> string list" where
  "lines_from acc [] = (if acc = [] then [] else [rev acc])"
| "lines_from acc (c # cs) =
     (if c = CHR 0x0A then strip_cr (rev acc) # lines_from [] cs else lines_from (c # acc) cs)"

definition lines :: "string \<Rightarrow> string list" where
  "lines s = lines_from [] s"

section \<open>Debug output\<close>

text \<open>\<^verbatim>\<open>'{}'\<close> of a text, and \<^verbatim>\<open>{:?}\<close> of a character, of an \<^verbatim>\<open>Option<char>\<close> and of a text.\<close>

definition quoted :: "string \<Rightarrow> string" where
  "quoted s = [CHR 0x27] @ s @ [CHR 0x27]"

definition lower_hex :: "nat \<Rightarrow> string" where
  "lower_hex n = map (\<lambda>c. if 65 \<le> (of_char c :: nat) \<and> (of_char c :: nat) \<le> 70 then char_of (of_char c + 32 :: nat) else c) (show_hex n)"

definition escape_debug :: "char \<Rightarrow> string" where
  "escape_debug c =
     (let n = of_char c :: nat
      in if n = 0 then [CHR 0x5C, CHR ''0'']
         else if n = 9 then [CHR 0x5C, CHR ''t'']
         else if n = 10 then [CHR 0x5C, CHR ''n'']
         else if n = 13 then [CHR 0x5C, CHR ''r'']
         else if n = 39 \<or> n = 92 then [CHR 0x5C, c]
         else if n < 32 \<or> n = 127 then [CHR 0x5C, CHR ''u'', CHR ''{''] @ lower_hex n @ ''}''
         else [c])"

definition debug_char_option :: "char option \<Rightarrow> string" where
  "debug_char_option x = (case x of None \<Rightarrow> ''None'' | Some c \<Rightarrow> ''Some('' @ quoted (escape_debug c) @ '')'')"

definition debug_string :: "string \<Rightarrow> string" where
  "debug_string s =
     [CHR 0x22] @ concat (map (\<lambda>c. if c = CHR 0x22 then [CHR 0x5C, c] else if c = CHR 0x27 then [c] else escape_debug c) s) @
     [CHR 0x22]"

section \<open>Words and digits\<close>

text \<open>Strings without white space at either end, and names.\<close>

definition tight :: "string \<Rightarrow> bool" where
  "tight s \<longleftrightarrow> (s = [] \<or> \<not> is_whitespace (hd s) \<and> \<not> is_whitespace (last s))"

definition is_word :: "string \<Rightarrow> bool" where
  "is_word s \<longleftrightarrow> s \<noteq> [] \<and> list_all (\<lambda>c. \<not> is_whitespace c) s"

lemma is_whitespace_space [simp]: "is_whitespace (CHR '' '')"
  by (simp add: is_whitespace_def)

lemma trim_tight [simp]: "tight s \<Longrightarrow> trim s = s"
  by (cases s) (auto simp: tight_def trim_def trim_start_def trim_end_def hd_rev [symmetric] dropWhile_eq_self_iff hd_append)

lemma trim_space [simp]: "trim (CHR '' '' # s) = trim s"
  by (simp add: trim_def trim_start_def)

lemma trim_word_space [simp]: "is_word s \<Longrightarrow> trim (s @ '' '') = s"
proof -
  assume s: "is_word s"
  then have "s \<noteq> []" "\<not> is_whitespace (hd s)" "\<not> is_whitespace (last s)" by (auto simp: is_word_def list_all_iff)
  then have "dropWhile is_whitespace (s @ '' '') = s @ '' ''" by (cases s) simp_all
  moreover have "dropWhile is_whitespace (rev s) = rev s"
    using \<open>\<not> is_whitespace (last s)\<close> by (cases s rule: rev_cases) simp_all
  ultimately show ?thesis by (simp add: trim_def trim_start_def trim_end_def)
qed

lemma tight_word [simp]: "is_word s \<Longrightarrow> tight s"
  by (simp add: is_word_def tight_def list_all_iff)

lemma split_whitespace_word: "list_all (\<lambda>c. \<not> is_whitespace c) s \<Longrightarrow> split_whitespace_from acc s =
    (if acc = [] \<and> s = [] then [] else [rev acc @ s])"
  by (induction s arbitrary: acc) auto

lemma split_whitespace_is_word [simp]: "is_word s \<Longrightarrow> split_whitespace s = [s]"
  by (simp add: split_whitespace_def split_whitespace_word is_word_def)

text \<open>Every digit of a number in a radix up to ten is a decimal digit, up to sixteen a digit or a letter A to F.\<close>

lemma show_radix_chars:
  assumes "2 \<le> b" "b \<le> 16" "c \<in> set (show_radix b n)"
  shows "\<exists>d < b. c = digit_char d"
  using assms
proof (induction b n rule: show_radix.induct)
  case (1 b n)
  show ?case
  proof (cases "n < b \<or> c = digit_char (n mod b)")
    case True
    with 1 show ?thesis by (auto simp: show_radix.simps [of b n] split: if_splits intro!: exI [of _ "n mod b"])
  qed (use 1 in \<open>auto simp: show_radix.simps [of b n] split: if_splits\<close>)
qed

lemma show_dec_digits: "c \<in> set (show_dec n) \<Longrightarrow> 48 \<le> (of_char c :: nat) \<and> (of_char c :: nat) \<le> 57"
  using show_radix_chars [of 10 c n] by (auto simp: digit_char_def)

lemma show_hex_digits: "c \<in> set (show_hex n) \<Longrightarrow> 48 \<le> (of_char c :: nat) \<and> (of_char c :: nat) \<le> 70"
  using show_radix_chars [of 16 c n] by (auto simp: digit_char_def)

lemma show_hex_not_Nil [simp]: "show_hex n \<noteq> []"
  by (simp add: show_radix.simps [of 16 n])

lemma show_hex_no [simp]: "(of_char c :: nat) < 48 \<or> 70 < (of_char c :: nat) \<Longrightarrow> c \<notin> set (show_hex n)"
  using show_hex_digits [of c n] by auto

lemma is_word_show_hex [simp]: "is_word (show_hex n)"
  using show_hex_digits [of _ n] by (fastforce simp: is_word_def list_all_iff is_whitespace_def Let_def)

lemma show_dec_not_Nil [simp]: "show_dec n \<noteq> []"
  by (simp add: show_radix.simps [of 10 n])

lemma show_dec_no [simp]: "(of_char c :: nat) < 48 \<or> 57 < (of_char c :: nat) \<Longrightarrow> c \<notin> set (show_dec n)"
  using show_dec_digits [of c n] by auto

lemma is_word_show_dec [simp]: "is_word (show_dec n)"
  using show_dec_digits [of _ n] by (fastforce simp: is_word_def list_all_iff is_whitespace_def Let_def)

lemma slice_parts:
  "slice_to (a @ b) (length a) = Returns a" "slice_from (a @ b) (length a) = Returns b"
  "slice (a @ b @ c) (length a) (length a + length b) = Returns b"
  by (simp_all add: slice_to_def slice_from_def slice_def)

lemma find_char_at: "c \<notin> set s \<Longrightarrow> find_char c (s @ [c] @ t) = Some (length s)"
  by simp

lemma is_word_append [simp]: "is_word a \<Longrightarrow> is_word b \<Longrightarrow> is_word (a @ b)"
  by (simp add: is_word_def)

lemma split_whitespace_words:
  assumes "is_word a" "is_word b"
  shows "split_whitespace (a @ '' '' @ b) = [a, b]" "is_word c \<Longrightarrow> split_whitespace (a @ '' '' @ b @ '' '' @ c) = [a, b, c]"
proof -
  have word: "split_whitespace_from acc (w @ CHR '' '' # r) = (rev acc @ w) # split_whitespace_from [] r"
    if "list_all (\<lambda>c. \<not> is_whitespace c) w" "acc \<noteq> [] \<or> w \<noteq> []" for acc w r
    using that by (induction w arbitrary: acc) auto
  show "split_whitespace (a @ '' '' @ b) = [a, b]"
    using assms by (simp add: split_whitespace_def word split_whitespace_word is_word_def)
  show "split_whitespace (a @ '' '' @ b @ '' '' @ c) = [a, b, c]" if "is_word c"
    using assms that by (simp add: split_whitespace_def word split_whitespace_word is_word_def)
qed

lemma find_str_here [simp]: "find_str p (p @ s) = Some 0"
  by (simp add: find_str.simps starts_with_def)

lemma find_str_skip:
  assumes "hd p \<notin> set s" "p \<noteq> []"
  shows "find_str p (s @ p @ t) = Some (length s)" "hd p \<notin> set t \<Longrightarrow> find_str p t = None"
proof -
  show "find_str p (s @ p @ t) = Some (length s)"
    using assms
  proof (induction s)
    case (Cons c s)
    then have "\<not> starts_with ((c # s) @ p @ t) p" by (cases p) (auto simp: starts_with_def)
    with Cons show ?case by (simp add: find_str.simps [of p "c # s @ p @ t"])
  qed simp
  show "find_str p t = None" if "hd p \<notin> set t"
    using that
  proof (induction t)
    case Nil
    with assms(2) show ?case by (simp add: find_str.simps starts_with_def)
  next
    case (Cons c s)
    with assms(2) have "\<not> starts_with (c # s) p" by (cases p) (auto simp: starts_with_def)
    with Cons show ?case by (simp add: find_str.simps [of p "c # s"])
  qed
qed

lemma pad_left_length: "length s \<le> w \<Longrightarrow> length (pad_left w s) = w"
  by (simp add: pad_left_def)

lemma show_radix_length: "2 \<le> b \<Longrightarrow> n < b ^ Suc k \<Longrightarrow> length (show_radix b n) \<le> Suc k"
proof (induction k arbitrary: n)
  case 0
  then show ?case by (simp add: show_radix.simps [of b n])
next
  case (Suc k)
  then have "n div b < b ^ Suc k" by (simp add: less_mult_imp_div_less mult.commute)
  from Suc.IH [OF Suc.prems(1) this] show ?case by (subst show_radix.simps) simp
qed

lemma find_str_single:
  assumes "x \<notin> set s" "x \<notin> set t"
  shows "find_str [x, x] (s @ [x] @ t) = None"
  using assms(1)
proof (induction s)
  case Nil
  have "\<not> starts_with (x # t) [x, x]" using assms(2) by (cases t) (auto simp: starts_with_def)
  with assms(2) find_str_skip(2) [of "[x, x]" t] show ?case by (simp add: find_str.simps [of _ "x # t"])
next
  case (Cons c s)
  then have "\<not> starts_with ((c # s) @ [x] @ t) [x, x]" by (auto simp: starts_with_def)
  with Cons show ?case by (simp add: find_str.simps [of _ "c # s @ x # t"])
qed

lemma parse_digits_zeros: "parse_digits b 0 (replicate k (CHR ''0'') @ s) = parse_digits b 0 s" if "0 < b"
  using that by (induction k) (simp_all add: char_digit_def Let_def)

lemma parse_uint_padded:
  assumes "2 \<le> b" "b \<le> 16" "n < 2 ^ w"
  shows "parse_uint b w (pad_left k (show_radix b n)) = Some n"
proof (cases "k - length (show_radix b n)")
  case 0
  with assms show ?thesis by (simp add: pad_left_def parse_uint_show_radix)
next
  case (Suc j)
  then have "pad_left k (show_radix b n) = CHR ''0'' # replicate j (CHR ''0'') @ show_radix b n" by (simp add: pad_left_def)
  moreover have "parse_digits b 0 (replicate (Suc j) (CHR ''0'') @ show_radix b n) = Some n"
    using assms by (simp only: parse_digits_zeros parse_digits_show_radix)
  ultimately show ?thesis using assms by (simp add: parse_uint_def)
qed

lemma lines_from_line:
  "CHR 0x0A \<notin> set l \<Longrightarrow> lines_from acc (l @ CHR 0x0A # s) = strip_cr (rev acc @ l) # lines_from [] s"
  by (induction l arbitrary: acc) auto

lemma word_no_newline: "is_word s \<Longrightarrow> CHR 0x0A \<notin> set s"
  by (auto simp: is_word_def list_all_iff is_whitespace_def)

end
