(* ===== verification/Can_Json.thy ===== *)
theory Can_Json
  imports Can_Frame Can_Relay Can_Text "HOL-Library.List_Lexorder" "HOL-Library.Char_ord" "HOL-Library.Monad_Syntax"
begin

text \<open>
  The JSON form of the data types: what \<^verbatim>\<open>#[derive(Serialize, Deserialize)]\<close> and the field attributes of
  \<^verbatim>\<open>src/frame.rs\<close> and \<^verbatim>\<open>src/relay.rs\<close> make of a value, with \<^verbatim>\<open>src/base64_serde.rs\<close> for byte fields. A JSON text is
  turned into a value, and back, by the crate serde_json; base64 and chrono write bytes and times. These
  are the parameter \<open>json_libs\<close>, their documented laws are \<open>json_laws\<close>. Last comes a text form for which
  the laws hold, to apply theorems to.
\<close>

section \<open>The code\<close>

text \<open>A JSON value; a number is an integer of 64 bits or something else that no field takes.\<close>

datatype json =
    Json_null
  | Json_bool bool
  | Json_number int
  | Json_float
  | Json_string string
  | Json_array "json list"
  | Json_object "(string \<times> json) list"

record json_libs =
  json_parse :: "string \<Rightarrow> (string, json) result"
  json_compact :: "json \<Rightarrow> (string, string) result"
  json_pretty :: "json \<Rightarrow> (string, string) result"
  json_display :: "json \<Rightarrow> string"
  json_error :: "json \<Rightarrow> string"
  b64_encode :: "bytes \<Rightarrow> string"
  b64_decode :: "string \<Rightarrow> (string, bytes) result"
  time_text :: "int \<Rightarrow> string"
  time_of_text :: "string \<Rightarrow> (string, int) result"

subsection \<open>Fields\<close>

definition serialize_bytes :: "json_libs \<Rightarrow> bytes \<Rightarrow> json" where
  "serialize_bytes L bs = Json_string (b64_encode L bs)"

definition json_str :: "json \<Rightarrow> string option" where
  "json_str j = (case j of Json_string s \<Rightarrow> Some s | _ \<Rightarrow> None)"

definition deserialize_bytes :: "json_libs \<Rightarrow> json \<Rightarrow> bytes option" where
  "deserialize_bytes L j =
     (case json_str j of
        None \<Rightarrow> None
      | Some s \<Rightarrow> (case b64_decode L s of Err _ \<Rightarrow> None | Ok bs \<Rightarrow> Some bs))"

definition json_truth :: "json \<Rightarrow> bool option" where
  "json_truth j = (case j of Json_bool b \<Rightarrow> Some b | _ \<Rightarrow> None)"

definition json_word :: "json \<Rightarrow> 'w :: len word option" where
  "json_word j = (case j of Json_number n \<Rightarrow> if 0 \<le> n \<and> n < 2 ^ LENGTH('w) then Some (word_of_int n) else None | _ \<Rightarrow> None)"

definition json_i32 :: "json \<Rightarrow> int option" where
  "json_i32 j = (case j of Json_number n \<Rightarrow> if - (2 ^ 31) \<le> n \<and> n < 2 ^ 31 then Some n else None | _ \<Rightarrow> None)"

definition word_json :: "'w :: len word \<Rightarrow> json" where
  "word_json w = Json_number (uint w)"

text \<open>A field that is left out when it has its default value.\<close>

definition skip_if :: "bool \<Rightarrow> string \<Rightarrow> json \<Rightarrow> (string \<times> json) list" where
  "skip_if b k j = (if b then [] else [(k, j)])"

text \<open>
  The fields of a struct: an object gives them by name, an array in the order of the declaration. A field that
  is there twice is an error, an unknown one is ignored, a missing one takes its default if it has one.
\<close>

definition struct_fields :: "string list \<Rightarrow> json \<Rightarrow> (string \<times> json) list option" where
  "struct_fields names j =
     (case j of
        Json_object kvs \<Rightarrow> Some kvs
      | Json_array js \<Rightarrow> if length js \<le> length names then Some (zip names js) else None
      | _ \<Rightarrow> None)"

definition field :: "(json \<Rightarrow> 'a option) \<Rightarrow> 'a option \<Rightarrow> string \<Rightarrow> (string \<times> json) list \<Rightarrow> 'a option" where
  "field rd dflt k kvs =
     (case filter (\<lambda>kv. fst kv = k) kvs of
        [] \<Rightarrow> dflt
      | [kv] \<Rightarrow> rd (snd kv)
      | _ \<Rightarrow> None)"

subsection \<open>Frames\<close>

definition frame_to_json :: "json_libs \<Rightarrow> frame \<Rightarrow> json" where
  "frame_to_json L f = Json_object
     ([(''id'', word_json (f_id f))] @
      skip_if (\<not> f_ext f) ''ext'' (Json_bool (f_ext f)) @
      skip_if (\<not> f_rtr f) ''rtr'' (Json_bool (f_rtr f)) @
      skip_if (\<not> f_fd f) ''fd'' (Json_bool (f_fd f)) @
      skip_if (\<not> f_brs f) ''brs'' (Json_bool (f_brs f)) @
      skip_if (\<not> f_esi f) ''esi'' (Json_bool (f_esi f)) @
      skip_if (\<not> f_xl f) ''xl'' (Json_bool (f_xl f)) @
      skip_if (f_sdt f = 0) ''sdt'' (word_json (f_sdt f)) @
      skip_if (f_vcid f = 0) ''vcid'' (word_json (f_vcid f)) @
      skip_if (f_af f = 0) ''af'' (word_json (f_af f)) @
      skip_if (\<not> f_sec f) ''sec'' (Json_bool (f_sec f)) @
      [(''data'', serialize_bytes L (f_data f))])"

definition frame_of_json :: "json_libs \<Rightarrow> json \<Rightarrow> frame option" where
  "frame_of_json L j = do {
     kvs \<leftarrow> struct_fields [''id'', ''ext'', ''rtr'', ''fd'', ''brs'', ''esi'', ''xl'', ''sdt'', ''vcid'', ''af'', ''sec'', ''data''] j;
     i \<leftarrow> field json_word None ''id'' kvs;
     ext \<leftarrow> field json_truth (Some False) ''ext'' kvs;
     rtr \<leftarrow> field json_truth (Some False) ''rtr'' kvs;
     fd \<leftarrow> field json_truth (Some False) ''fd'' kvs;
     brs \<leftarrow> field json_truth (Some False) ''brs'' kvs;
     esi \<leftarrow> field json_truth (Some False) ''esi'' kvs;
     xl \<leftarrow> field json_truth (Some False) ''xl'' kvs;
     sdt \<leftarrow> field json_word (Some 0) ''sdt'' kvs;
     vcid \<leftarrow> field json_word (Some 0) ''vcid'' kvs;
     af \<leftarrow> field json_word (Some 0) ''af'' kvs;
     sec \<leftarrow> field json_truth (Some False) ''sec'' kvs;
     data \<leftarrow> field (deserialize_bytes L) None ''data'' kvs;
     Some \<lparr>f_id = i, f_ext = ext, f_rtr = rtr, f_fd = fd, f_brs = brs, f_esi = esi, f_xl = xl, f_sdt = sdt,
           f_vcid = vcid, f_af = af, f_sec = sec, f_data = data\<rparr>
   }"

subsection \<open>Messages\<close>

definition protocol_to_json :: "protocol \<Rightarrow> json" where
  "protocol_to_json p = Json_number (protocol_to_i32 p)"

definition protocol_of_json :: "json \<Rightarrow> protocol option" where
  "protocol_of_json j = do {
     v \<leftarrow> json_i32 j;
     case protocol_try_from v of Err _ \<Rightarrow> None | Ok p \<Rightarrow> Some p
   }"

definition version_to_json :: "version \<Rightarrow> json" where
  "version_to_json v = Json_object
     [(''major'', Json_number (v_major v)), (''minor'', Json_number (v_minor v)), (''patch'', Json_number (v_patch v))]"

definition version_of_json :: "json \<Rightarrow> version option" where
  "version_of_json j = do {
     kvs \<leftarrow> struct_fields [''major'', ''minor'', ''patch''] j;
     major \<leftarrow> field json_i32 None ''major'' kvs;
     minor \<leftarrow> field json_i32 None ''minor'' kvs;
     patch \<leftarrow> field json_i32 None ''patch'' kvs;
     Some \<lparr>v_major = major, v_minor = minor, v_patch = patch\<rparr>
   }"

text \<open>A \<^verbatim>\<open>BTreeMap\<close> is written in the order of its keys; when it is read, a later entry replaces an earlier one.\<close>

definition meta_to_json :: "(string \<rightharpoonup> string) \<Rightarrow> json" where
  "meta_to_json meta = Json_object (map (\<lambda>k. (k, Json_string (the (meta k)))) (sorted_list_of_set (dom meta)))"

fun meta_of_fields :: "(string \<times> json) list \<Rightarrow> (string \<rightharpoonup> string) \<Rightarrow> (string \<rightharpoonup> string) option" where
  "meta_of_fields [] meta = Some meta"
| "meta_of_fields ((k, j) # kvs) meta =
     (case json_str j of None \<Rightarrow> None | Some v \<Rightarrow> meta_of_fields kvs (meta(k \<mapsto> v)))"

definition meta_of_json :: "json \<Rightarrow> (string \<rightharpoonup> string) option" where
  "meta_of_json j = (case j of Json_object kvs \<Rightarrow> meta_of_fields kvs Map.empty | _ \<Rightarrow> None)"

definition time_of_json :: "json_libs \<Rightarrow> json \<Rightarrow> int option" where
  "time_of_json L j = do {
     s \<leftarrow> json_str j;
     case time_of_text L s of Err _ \<Rightarrow> None | Ok t \<Rightarrow> Some t
   }"

definition message_to_json :: "json_libs \<Rightarrow> message \<Rightarrow> json" where
  "message_to_json L m = Json_object
     ([(''protocol'', protocol_to_json (m_protocol m)),
       (''version'', version_to_json (m_version m)),
       (''id'', Json_string (m_id m)),
       (''payload'', serialize_bytes L (m_payload m)),
       (''timestamp'', Json_string (time_text L (m_timestamp m)))] @
      skip_if (m_seq m = 0) ''seq'' (word_json (m_seq m)) @
      skip_if (m_meta m = Map.empty) ''meta'' (meta_to_json (m_meta m)))"

definition message_of_json :: "json_libs \<Rightarrow> json \<Rightarrow> message option" where
  "message_of_json L j = do {
     kvs \<leftarrow> struct_fields [''protocol'', ''version'', ''id'', ''payload'', ''timestamp'', ''seq'', ''meta''] j;
     protocol \<leftarrow> field protocol_of_json None ''protocol'' kvs;
     version \<leftarrow> field version_of_json None ''version'' kvs;
     i \<leftarrow> field json_str None ''id'' kvs;
     payload \<leftarrow> field (deserialize_bytes L) None ''payload'' kvs;
     timestamp \<leftarrow> field (time_of_json L) None ''timestamp'' kvs;
     seq \<leftarrow> field json_word (Some 0) ''seq'' kvs;
     meta \<leftarrow> field meta_of_json (Some Map.empty) ''meta'' kvs;
     Some \<lparr>m_protocol = protocol, m_version = version, m_id = i, m_payload = payload, m_timestamp = timestamp,
           m_seq = seq, m_meta = meta\<rparr>
   }"

subsection \<open>Health and metrics\<close>

fun health_status_name :: "health_status \<Rightarrow> string" where
  "health_status_name HealthOk = ''Ok''"
| "health_status_name Degraded = ''Degraded''"
| "health_status_name Down = ''Down''"

text \<open>A variant without data is its name, or an object with the name as only key and no value.\<close>

definition health_status_of_json :: "json \<Rightarrow> health_status option" where
  "health_status_of_json j =
     (let of_name = (\<lambda>s. find (\<lambda>v. health_status_name v = s) [HealthOk, Degraded, Down])
      in case j of
           Json_string s \<Rightarrow> of_name s
         | Json_object [(s, Json_null)] \<Rightarrow> of_name s
         | _ \<Rightarrow> None)"

definition health_to_json :: "health \<Rightarrow> json" where
  "health_to_json h = Json_object
     ([(''status'', Json_string (health_status_name (h_status h)))] @
      skip_if (h_details h = []) ''details'' (Json_string (h_details h)))"

definition health_of_json :: "json \<Rightarrow> health option" where
  "health_of_json j = do {
     kvs \<leftarrow> struct_fields [''status'', ''details''] j;
     status \<leftarrow> field health_status_of_json None ''status'' kvs;
     details \<leftarrow> field json_str (Some []) ''details'' kvs;
     Some \<lparr>h_status = status, h_details = details\<rparr>
   }"

definition metrics_to_json :: "metrics \<Rightarrow> json" where
  "metrics_to_json m = Json_object
     [(''write_count'', word_json (write_count m)), (''deliver_count'', word_json (deliver_count m)),
      (''drop_count'', word_json (drop_count m)), (''bytes_written'', word_json (bytes_written m)),
      (''bytes_delivered'', word_json (bytes_delivered m)), (''error_count'', word_json (error_count m))]"

definition metrics_of_json :: "json \<Rightarrow> metrics option" where
  "metrics_of_json j = do {
     kvs \<leftarrow> struct_fields
       [''write_count'', ''deliver_count'', ''drop_count'', ''bytes_written'', ''bytes_delivered'', ''error_count''] j;
     w \<leftarrow> field json_word None ''write_count'' kvs;
     d \<leftarrow> field json_word None ''deliver_count'' kvs;
     r \<leftarrow> field json_word None ''drop_count'' kvs;
     bw \<leftarrow> field json_word None ''bytes_written'' kvs;
     bd \<leftarrow> field json_word None ''bytes_delivered'' kvs;
     e \<leftarrow> field json_word None ''error_count'' kvs;
     Some \<lparr>write_count = w, deliver_count = d, drop_count = r, bytes_written = bw, bytes_delivered = bd, error_count = e\<rparr>
   }"

section \<open>Round trips of values\<close>

lemma json_word_word [simp]: "json_word (word_json w) = Some w"
  using unsigned_less [of w] by (simp add: json_word_def word_json_def)

lemma json_reads_simps [simp]:
  "json_str (Json_string s) = Some s"
  "json_truth (Json_bool b) = Some b"
  "- (2 ^ 31) \<le> n \<Longrightarrow> n < 2 ^ 31 \<Longrightarrow> json_i32 (Json_number n) = Some n"
  by (simp_all add: json_str_def json_truth_def json_i32_def)

lemma protocol_json [simp]: "protocol_of_json (protocol_to_json p) = Some p"
  by (cases p) (simp_all add: protocol_of_json_def protocol_to_json_def json_i32_def protocol_try_from_def)

text \<open>A field in the list of fields that a serializer writes.\<close>

lemma field_simps:
  "field rd dflt k [] = dflt"
  "field rd dflt k ((k', j) # kvs) =
     (if k' = k then (case filter (\<lambda>kv. fst kv = k) kvs of [] \<Rightarrow> rd j | _ \<Rightarrow> None) else field rd dflt k kvs)"
  by (simp_all add: field_def split: list.splits)

lemma filter_skip_if [simp]:
  "filter (\<lambda>kv. fst kv = k) (skip_if b k' j @ kvs) = (if k' = k then skip_if b k' j else []) @ filter (\<lambda>kv. fst kv = k) kvs"
  "filter (\<lambda>kv. fst kv = k) (skip_if b k' j) = (if k' = k then skip_if b k' j else [])"
  by (simp_all add: skip_if_def)

lemma field_skip_if [simp]:
  "k' \<noteq> k \<Longrightarrow> field rd dflt k (skip_if b k' j @ kvs) = field rd dflt k kvs"
  "k' \<noteq> k \<Longrightarrow> field rd dflt k (skip_if b k' j) = dflt"
  "field rd dflt k (skip_if b k j @ kvs) =
     (if b then field rd dflt k kvs else case filter (\<lambda>kv. fst kv = k) kvs of [] \<Rightarrow> rd j | _ \<Rightarrow> None)"
  "field rd dflt k (skip_if b k j) = (if b then dflt else rd j)"
  by (simp_all add: skip_if_def field_simps)

lemma meta_of_fields_entries:
  "meta_of_fields (map (\<lambda>k. (k, Json_string (the (meta k)))) ks) m = Some (\<lambda>k. if k \<in> set ks then Some (the (meta k)) else m k)"
  by (induction ks arbitrary: m) (auto simp: fun_eq_iff)

lemma meta_json: "finite (dom meta) \<Longrightarrow> meta_of_json (meta_to_json meta) = Some meta"
  by (auto simp: meta_of_json_def meta_to_json_def meta_of_fields_entries fun_eq_iff domIff)

text \<open>Messages whose version numbers have 32 bits and whose metadata are finite, as those of the program.\<close>

definition wf_message :: "message \<Rightarrow> bool" where
  "wf_message m \<longleftrightarrow>
     (\<forall>n \<in> {v_major (m_version m), v_minor (m_version m), v_patch (m_version m)}. - (2 ^ 31) \<le> n \<and> n < 2 ^ 31) \<and>
     finite (dom (m_meta m))"

lemma version_json:
  "\<forall>n \<in> {v_major v, v_minor v, v_patch v}. - (2 ^ 31) \<le> n \<and> n < 2 ^ 31 \<Longrightarrow> version_of_json (version_to_json v) = Some v"
  by (simp add: version_of_json_def version_to_json_def struct_fields_def field_simps)

lemma health_json: "health_of_json (health_to_json h) = Some h"
proof -
  have "health_status_of_json (Json_string (health_status_name st)) = Some st" for st
    by (cases st) (simp_all add: health_status_of_json_def Let_def)
  then show ?thesis by (simp add: health_of_json_def health_to_json_def struct_fields_def field_simps)
qed

lemma metrics_json: "metrics_of_json (metrics_to_json m) = Some m"
  by (simp add: metrics_of_json_def metrics_to_json_def struct_fields_def field_simps)
lemma frame_json:
  assumes "b64_decode L (b64_encode L (f_data f)) = Ok (f_data f)"
  shows "frame_of_json L (frame_to_json L f) = Some f"
proof -
  have data: "deserialize_bytes L (serialize_bytes L (f_data f)) = Some (f_data f)"
    using assms by (simp add: deserialize_bytes_def serialize_bytes_def)
  show ?thesis
    by (simp add: frame_of_json_def frame_to_json_def struct_fields_def field_simps data)
qed

lemma message_json:
  assumes "wf_message m" "b64_decode L (b64_encode L (m_payload m)) = Ok (m_payload m)"
    "time_of_text L (time_text L (m_timestamp m)) = Ok (m_timestamp m)"
  shows "message_of_json L (message_to_json L m) = Some m"
proof -
  have fields: "deserialize_bytes L (serialize_bytes L (m_payload m)) = Some (m_payload m)"
    "time_of_json L (Json_string (time_text L (m_timestamp m))) = Some (m_timestamp m)"
    "version_of_json (version_to_json (m_version m)) = Some (m_version m)"
    "meta_of_json (meta_to_json (m_meta m)) = Some (m_meta m)"
    using assms
    by (simp_all add: deserialize_bytes_def serialize_bytes_def time_of_json_def version_json meta_json wf_message_def)
  show ?thesis
    by (simp add: message_of_json_def message_to_json_def struct_fields_def field_simps fields)
qed

section \<open>Round trips of texts\<close>

text \<open>A value that serde_json reads back: integers of 64 bits, at most \<open>d\<close> values inside one another.\<close>

fun json_within :: "nat \<Rightarrow> json \<Rightarrow> bool" where
  "json_within d (Json_number n) = (- (2 ^ 63) \<le> n \<and> n < 2 ^ 64)"
| "json_within d Json_float = False"
| "json_within 0 (Json_array js) = False"
| "json_within (Suc d) (Json_array js) = list_all (json_within d) js"
| "json_within 0 (Json_object kvs) = False"
| "json_within (Suc d) (Json_object kvs) = list_all (\<lambda>kv. json_within d (snd kv)) kvs"
| "json_within d Json_null = True"
| "json_within d (Json_bool b) = True"
| "json_within d (Json_string s) = True"

text \<open>
  What the crates document: a value written compactly or with indentation reads back, the compact text is one
  line without white space at its ends (serde_json reads at most 127 values inside one another); bytes and times
  survive their text.
\<close>

definition json_laws :: "json_libs \<Rightarrow> bool" where
  "json_laws L \<longleftrightarrow>
     (\<forall>j. json_within 127 j \<longrightarrow>
        (\<exists>s. json_compact L j = Ok s \<and> json_parse L s = Ok j \<and> s \<noteq> [] \<and> tight s \<and> CHR 0x0A \<notin> set s) \<and>
        (\<exists>s. json_pretty L j = Ok s \<and> json_parse L s = Ok j)) \<and>
     (\<forall>bs. b64_decode L (b64_encode L bs) = Ok bs) \<and>
     (\<forall>t. time_of_text L (time_text L t) = Ok t)"

text \<open>\<^verbatim>\<open>serde_json::from_str\<close> at the two types.\<close>

definition frame_of_text :: "json_libs \<Rightarrow> string \<Rightarrow> (string, frame) result" where
  "frame_of_text L s = (case json_parse L s of Err e \<Rightarrow> Err e | Ok j \<Rightarrow> ok_or (json_error L j) (frame_of_json L j))"

definition message_of_text :: "json_libs \<Rightarrow> string \<Rightarrow> (string, message) result" where
  "message_of_text L s = (case json_parse L s of Err e \<Rightarrow> Err e | Ok j \<Rightarrow> ok_or (json_error L j) (message_of_json L j))"

lemma json_within_word: "LENGTH('w) \<le> 64 \<Longrightarrow> json_within d (word_json (w :: 'w :: len word))"
proof -
  assume "LENGTH('w) \<le> 64"
  then have "(2 :: int) ^ LENGTH('w) \<le> 2 ^ 64" by (rule power_increasing) simp
  with unsigned_less [of w] have "uint w < 2 ^ 64" by (rule less_le_trans)
  moreover have "- (2 ^ 63) \<le> uint w" by (rule order_trans [of _ 0]) simp_all
  ultimately show ?thesis by (simp add: word_json_def)
qed

lemma json_within_skip [simp]:
  "list_all P (skip_if b k j) \<longleftrightarrow> b \<or> P (k, j)"
  by (simp add: skip_if_def)

lemma json_within_frame: "json_within 127 (frame_to_json L f)"
  by (simp add: frame_to_json_def serialize_bytes_def json_within_word numeral_eq_Suc)

lemma json_within_message:
  assumes "wf_message m"
  shows "json_within 127 (message_to_json L m)"
proof -
  have "json_within (Suc d) (meta_to_json (m_meta m))" for d
    by (simp add: meta_to_json_def list_all_iff)
  moreover have "json_within (Suc d) (version_to_json (m_version m))" for d
    using assms by (simp add: wf_message_def version_to_json_def)
  moreover have "json_within d (protocol_to_json p)" for d p
    by (cases p) (simp_all add: protocol_to_json_def)
  ultimately show ?thesis
    by (simp add: message_to_json_def serialize_bytes_def json_within_word numeral_eq_Suc)
qed

lemma frame_text:
  assumes "json_laws L"
  shows "\<exists>s. json_compact L (frame_to_json L f) = Ok s \<and> frame_of_text L s = Ok f"
  using assms json_within_frame [of L f] frame_json [of L f]
  unfolding json_laws_def frame_of_text_def by force

lemma message_text:
  assumes "json_laws L" "wf_message m"
  shows "\<exists>s. json_compact L (message_to_json L m) = Ok s \<and> message_of_text L s = Ok m \<and> s \<noteq> [] \<and> tight s \<and> CHR 0x0A \<notin> set s"
    "\<exists>s. json_pretty L (message_to_json L m) = Ok s \<and> message_of_text L s = Ok m"
  using assms json_within_message [OF assms(2), of L] message_json [OF assms(2), of L]
  unfolding json_laws_def message_of_text_def by force+
section \<open>Properties\<close>

text \<open>
  C19: Every frame survives its JSON form, and so does every message: what the derived serializer writes is read
  back as the same value, with all twelve fields of a frame (those that hold their default are left out
  of the text) and the metadata of a message. The text of a message is one line, which the tools rely on.
\<close>

theorem json_text_roundtrip:
  assumes "json_laws L" "wf_message m"
  shows "(\<exists>s. json_compact L (frame_to_json L f) = Ok s \<and> frame_of_text L s = Ok f) \<and>
    (\<exists>s. json_compact L (message_to_json L m) = Ok s \<and> message_of_text L s = Ok m \<and> CHR 0x0A \<notin> set s)"
  using frame_text [OF assms(1)] message_text(1) [OF assms] by blast

section \<open>A text form\<close>

text \<open>
  A prefix code of JSON values without white space, for which \<open>json_laws\<close> can be shown: a text is two letters for each
  character up to a semicolon, a byte and a time are texts of numbers.
\<close>

definition half_char :: "nat \<Rightarrow> char" where
  "half_char n = char_of (65 + n)"

fun esc :: "string \<Rightarrow> string" where
  "esc [] = '';''"
| "esc (c # s) = half_char (of_char c div 16) # half_char (of_char c mod 16) # esc s"

fun unesc :: "string \<Rightarrow> (string \<times> string) option" where
  "unesc [] = None"
| "unesc [c] = (if c = CHR '';'' then Some ([], []) else None)"
| "unesc (c # d # s) =
     (if c = CHR '';'' then Some ([], d # s)
      else map_option (\<lambda>(t, s). (char_of ((of_char c - 65) * 16 + (of_char d - 65) :: nat) # t, s)) (unesc s))"

definition esc_int :: "int \<Rightarrow> string" where
  "esc_int n = (if n < 0 then CHR ''-'' else CHR ''+'') # esc (show_dec (nat \<bar>n\<bar>))"

primrec enc :: "json \<Rightarrow> string"
  and enc_list :: "json list \<Rightarrow> string"
  and enc_fields :: "(string \<times> json) list \<Rightarrow> string"
  and enc_field :: "string \<times> json \<Rightarrow> string" where
  "enc Json_null = ''n''"
| "enc (Json_bool b) = (if b then ''t'' else ''f'')"
| "enc (Json_number n) = esc_int n"
| "enc Json_float = ''x''"
| "enc (Json_string s) = ''q'' @ esc s"
| "enc (Json_array js) = ''['' @ enc_list js"
| "enc (Json_object kvs) = ''{'' @ enc_fields kvs"
| "enc_list [] = '']''"
| "enc_list (j # js) = enc j @ enc_list js"
| "enc_fields [] = ''}''"
| "enc_fields (kv # kvs) = enc_field kv @ enc_fields kvs"
| "enc_field (k, j) = ''q'' @ esc k @ enc j"

fun dec :: "nat \<Rightarrow> string \<Rightarrow> (json \<times> string) option"
  and dec_list :: "nat \<Rightarrow> string \<Rightarrow> (json list \<times> string) option"
  and dec_fields :: "nat \<Rightarrow> string \<Rightarrow> ((string \<times> json) list \<times> string) option" where
  "dec 0 s = None"
| "dec (Suc n) [] = None"
| "dec (Suc n) (c # s) =
     (if c = CHR ''n'' then Some (Json_null, s)
      else if c = CHR ''t'' then Some (Json_bool True, s)
      else if c = CHR ''f'' then Some (Json_bool False, s)
      else if c = CHR ''q'' then map_option (\<lambda>(t, s). (Json_string t, s)) (unesc s)
      else if c = CHR ''['' then map_option (\<lambda>(js, s). (Json_array js, s)) (dec_list n s)
      else if c = CHR ''{'' then map_option (\<lambda>(kvs, s). (Json_object kvs, s)) (dec_fields n s)
      else do {
        (t, s) \<leftarrow> unesc s;
        k \<leftarrow> parse_uint 10 64 t;
        Some (Json_number (if c = CHR ''-'' then - int k else int k), s)
      })"
| "dec_list 0 s = None"
| "dec_list (Suc n) s =
     (if s \<noteq> [] \<and> hd s = CHR '']'' then Some ([], tl s)
      else do { (j, s) \<leftarrow> dec n s; (js, s) \<leftarrow> dec_list n s; Some (j # js, s) })"
| "dec_fields 0 s = None"
| "dec_fields (Suc n) s =
     (if s \<noteq> [] \<and> hd s = CHR ''}'' then Some ([], tl s)
      else do { (k, s) \<leftarrow> unesc (tl s); (j, s) \<leftarrow> dec n s; (kvs, s) \<leftarrow> dec_fields n s; Some ((k, j) # kvs, s) })"

lemma half_char:
  assumes "n < 16"
  shows "of_char (half_char n) = 65 + n" "half_char n \<noteq> CHR '';''" "\<not> is_whitespace (half_char n)"
proof -
  show v: "of_char (half_char n) = 65 + n" using assms by (simp add: half_char_def of_char_of)
  then show "half_char n \<noteq> CHR '';''" by auto
  show "\<not> is_whitespace (half_char n)" by (simp add: is_whitespace_def v)
qed

lemma half_char_of:
  "(of_char c :: nat) div 16 < 16" "(of_char c :: nat) mod 16 < 16"
  by (rule less_mult_imp_div_less) simp_all

lemma esc_unesc [simp]: "unesc (esc s @ r) = Some (s, r)"
proof (induction s)
  case Nil
  then show ?case by (cases r) simp_all
next
  case (Cons c s)
  with half_char [OF half_char_of(1) [of c]] half_char [OF half_char_of(2) [of c]] show ?case by simp
qed

lemma is_word_esc: "list_all (\<lambda>c. \<not> is_whitespace c) (esc s)"
  by (induction s) (simp_all add: half_char [OF half_char_of(1)] half_char [OF half_char_of(2)] is_whitespace_def [of "CHR '';''"])

lemma esc_not_Nil [simp]: "esc s \<noteq> []"
  by (cases s) simp_all

text \<open>The texts have no white space, and none begins with a closing bracket.\<close>

definition no_space :: "string \<Rightarrow> bool" where
  "no_space s \<longleftrightarrow> list_all (\<lambda>c. \<not> is_whitespace c) s"

lemma no_space_simps [simp]:
  "no_space []" "no_space (c # s) \<longleftrightarrow> \<not> is_whitespace c \<and> no_space s" "no_space (s @ t) \<longleftrightarrow> no_space s \<and> no_space t"
  "no_space (esc s)"
  by (simp_all add: no_space_def is_word_esc)

lemma no_space_enc: "no_space (enc j)"
proof (induction j)
  case (Json_array js)
  then have "no_space (enc_list js)" by (induction js) (simp_all add: is_whitespace_def)
  then show ?case by (simp add: is_whitespace_def)
next
  case (Json_object kvs)
  then have "no_space (enc_fields kvs)" by (induction kvs) (force simp: is_whitespace_def)+
  then show ?case by (simp add: is_whitespace_def)
qed (simp_all add: is_whitespace_def esc_int_def)

lemma enc_starts: "\<exists>c s. enc j = c # s \<and> c \<noteq> CHR '']''"
  by (cases j) (simp_all add: esc_int_def)

lemma parse_dec [simp]: "n < 18446744073709551616 \<Longrightarrow> parse_uint 10 64 (show_dec n) = Some n"
  by (rule parse_uint_show_radix) simp_all

lemma dec_enc_list:
  assumes "\<And>j n r. j \<in> set js \<Longrightarrow> length (enc j) \<le> n \<Longrightarrow> dec n (enc j @ r) = Some (j, r)"
    and "length (enc_list js) \<le> n"
  shows "dec_list n (enc_list js @ r) = Some (js, r)"
  using assms
proof (induction js arbitrary: n)
  case Nil
  then show ?case by (cases n) simp_all
next
  case (Cons j js)
  obtain c s where e: "enc j = c # s" "c \<noteq> CHR '']''" using enc_starts by blast
  obtain m where n: "n = Suc m" using Cons.prems(2) e by (cases n) simp_all
  have "enc_list js \<noteq> []" using enc_starts [of "hd js"] by (cases js) auto
  then have m: "length (enc j) \<le> m" "length (enc_list js) \<le> m"
    using Cons.prems(2) e(1) n by (cases "enc_list js"; simp)+
  have "dec_list m (enc_list js @ r) = Some (js, r)" using Cons.IH [OF Cons.prems(1)] m(2) by simp
  moreover have "dec m (enc j @ enc_list js @ r) = Some (j, enc_list js @ r)" using Cons.prems(1) m(1) by simp
  ultimately show ?case using n e by simp
qed

lemma dec_enc_fields:
  assumes "\<And>kv n r. kv \<in> set kvs \<Longrightarrow> length (enc (snd kv)) \<le> n \<Longrightarrow> dec n (enc (snd kv) @ r) = Some (snd kv, r)"
    and "length (enc_fields kvs) \<le> n"
  shows "dec_fields n (enc_fields kvs @ r) = Some (kvs, r)"
  using assms
proof (induction kvs arbitrary: n)
  case Nil
  then show ?case by (cases n) simp_all
next
  case (Cons kv kvs)
  obtain k j where kv: "kv = (k, j)" by fastforce
  obtain m where n: "n = Suc m" using Cons.prems(2) kv by (cases n) simp_all
  have m: "length (enc j) \<le> m" "length (enc_fields kvs) \<le> m" using Cons.prems(2) kv n by simp_all
  have "dec_fields m (enc_fields kvs @ r) = Some (kvs, r)" using Cons.IH [OF Cons.prems(1)] m(2) by simp
  moreover have "dec m (enc j @ enc_fields kvs @ r) = Some (j, enc_fields kvs @ r)"
    using Cons.prems(1) [of kv] m(1) kv by simp
  ultimately show ?case using n kv by simp
qed

lemma dec_enc: "json_within d j \<Longrightarrow> length (enc j) \<le> n \<Longrightarrow> dec n (enc j @ r) = Some (j, r)"
proof (induction d j arbitrary: n r rule: json_within.induct)
  case (1 d k)
  then have "nat \<bar>k\<bar> < 18446744073709551616" by auto
  with 1 show ?case by (cases n) (auto simp: esc_int_def)
next
  case (4 d js)
  then obtain m where n: "n = Suc m" by (cases n) simp_all
  have "dec_list m (enc_list js @ r) = Some (js, r)"
    using 4 n by (intro dec_enc_list) (auto simp: list_all_iff)
  then show ?case by (simp add: n)
next
  case (6 d kvs)
  then obtain m where n: "n = Suc m" by (cases n) simp_all
  have "dec_fields m (enc_fields kvs @ r) = Some (kvs, r)"
    using 6 n by (intro dec_enc_fields) (auto simp: list_all_iff)
  then show ?case by (simp add: n)
next
  case (7 d)
  then show ?case by (cases n) simp_all
next
  case (8 d b)
  then show ?case by (cases n; cases b) simp_all
next
  case (9 d s)
  then show ?case by (cases n) simp_all
qed simp_all

definition dec_all :: "string \<Rightarrow> (string, json) result" where
  "dec_all s = (case dec (length s) s of Some (j, []) \<Rightarrow> Ok j | _ \<Rightarrow> Err ''not a value'')"

definition byte_text :: "bytes \<Rightarrow> string" where
  "byte_text bs = map (\<lambda>b. char_of (unat b)) bs"

definition int_of_text :: "string \<Rightarrow> (string, int) result" where
  "int_of_text s = (case s of [] \<Rightarrow> Err ''empty'' | c # s \<Rightarrow>
     Ok ((if c = CHR ''-'' then - 1 else 1) * foldr (\<lambda>d n. int (of_char d) + 256 * n) s 0))"

fun nat_text :: "nat \<Rightarrow> string" where
  "nat_text n = (if n = 0 then [] else char_of (n mod 256) # nat_text (n div 256))"

declare nat_text.simps [simp del]

definition example_json :: json_libs where
  "example_json =
     \<lparr>json_parse = dec_all, json_compact = (\<lambda>j. Ok (enc j)), json_pretty = (\<lambda>j. Ok (enc j)), json_display = enc, json_error = (\<lambda>_. ''unexpected value''),
      b64_encode = byte_text, b64_decode = (\<lambda>s. Ok (map (\<lambda>c. of_nat (of_char c)) s)),
      time_text = (\<lambda>t. (if t < 0 then CHR ''-'' else CHR ''+'') # nat_text (nat \<bar>t\<bar>)), time_of_text = int_of_text\<rparr>"

lemma nat_text_value: "foldr (\<lambda>d n. int (of_char d) + 256 * n) (nat_text n) 0 = int n"
proof (induction n rule: nat_text.induct)
  case (1 n)
  have "int n = int (n mod 256 + 256 * (n div 256))" by simp
  then have "int n = int (n mod 256) + 256 * int (n div 256)" by (simp only: of_nat_add of_nat_mult of_nat_numeral)
  then show ?case using 1 by (subst nat_text.simps) (simp add: of_char_of)
qed

lemma example_json_laws: "json_laws example_json"
proof -
  have "is_word (enc j)" for j
    using no_space_enc [of j] enc_starts [of j] by (auto simp: is_word_def no_space_def)
  moreover have "dec_all (enc j) = Ok j" if "json_within 127 j" for j
    using dec_enc [OF that order_refl, of "[]"] by (simp add: dec_all_def)
  moreover have "map (\<lambda>c. of_nat (of_char c)) (byte_text bs) = bs" for bs
    using unat_less [where ?'a = 8] by (simp add: byte_text_def o_def of_char_of map_idI)
  ultimately show ?thesis
    using word_no_newline tight_word
    by (simp add: json_laws_def example_json_def int_of_text_def nat_text_value is_word_def)
qed

theorem json_text_roundtrip_witness:
  "let f = default_frame\<lparr>f_id := 0x123, f_ext := True, f_data := [0xDE, 0xAD]\<rparr>;
       m = new_message 5 Can ''291'' [0xDE, 0xAD]
   in frame_of_text example_json (enc (frame_to_json example_json f)) = Ok f \<and>
      message_of_text example_json (enc (message_to_json example_json m)) = Ok m"
proof -
  have "wf_message (new_message 5 Can ''291'' [0xDE, 0xAD])"
    by (simp add: wf_message_def new_message_def default_version_def)
  from json_text_roundtrip [OF example_json_laws this] show ?thesis
    by (simp add: Let_def) (simp add: example_json_def)
qed

end
