(* ===== verification/Can_Crc.thy ===== *)
theory Can_Crc
  imports Can_Prelude
begin

text \<open>
  CRC-16/CCITT-FALSE (\<^verbatim>\<open>src/crc.rs\<close>): the bit loop, the byte loop and the checksum. The lemmas show
  that the register update is linear over exclusive or and never maps a nonzero register to zero,
  and, from that, that two inputs of one length which differ only inside a window of two bytes
  have different checksums.
\<close>

section \<open>The code\<close>

definition CRC_POLY :: u16 where
  "CRC_POLY = 0x1021"

text \<open>One round of the inner loop, \<^verbatim>\<open>for _ in 0..8\<close>.\<close>

definition crc_bit :: "u16 \<Rightarrow> u16" where
  "crc_bit crc = (if crc AND 0x8000 \<noteq> 0 then push_bit 1 crc XOR CRC_POLY else push_bit 1 crc)"

fun crc_bits :: "nat \<Rightarrow> u16 \<Rightarrow> u16" where
  "crc_bits 0 crc = crc"
| "crc_bits (Suc n) crc = crc_bits n (crc_bit crc)"

fun crc_loop :: "u16 \<Rightarrow> bytes \<Rightarrow> u16" where
  "crc_loop crc [] = crc"
| "crc_loop crc (b # bs) = crc_loop (crc_bits 8 (crc XOR push_bit 8 (ucast b))) bs"

definition crc16_ccitt_false :: "bytes \<Rightarrow> u16" where
  "crc16_ccitt_false data = crc_loop 0xFFFF data"

section \<open>Linearity\<close>

lemma top_bit: "(w :: u16) AND 0x8000 \<noteq> 0 \<longleftrightarrow> bit w 15"
  using and_exp_eq_0_iff_not_bit [of w 15] by simp

lemma crc_bit_alt: "crc_bit w = push_bit 1 w XOR (if bit w 15 then CRC_POLY else 0)"
  by (simp add: crc_bit_def top_bit)

lemma crc_bit_xor: "crc_bit (a XOR b) = crc_bit a XOR crc_bit b"
  unfolding crc_bit_alt by (simp add: bit_xor_iff push_bit_xor ac_simps)

lemma crc_bits_xor: "crc_bits n (a XOR b) = crc_bits n a XOR crc_bits n b"
  by (induction n arbitrary: a b) (simp_all add: crc_bit_xor)

lemma crc_bits_add: "crc_bits (m + n) w = crc_bits n (crc_bits m w)"
  by (induction m arbitrary: w) simp_all

lemma crc_bit_zero [simp]: "crc_bit 0 = 0"
  by (simp add: crc_bit_def)

lemma crc_bits_zero [simp]: "crc_bits n 0 = 0"
  by (induction n) simp_all

lemma crc_loop_append: "crc_loop c (xs @ ys) = crc_loop (crc_loop c xs) ys"
  by (induction xs arbitrary: c) simp_all

lemma crc_loop_xor:
  "length xs = length ys \<Longrightarrow>
     crc_loop c xs XOR crc_loop d ys = crc_loop (c XOR d) (map2 (XOR) xs ys)"
proof (induction xs ys arbitrary: c d rule: list_induct2)
  case Nil
  then show ?case by simp
next
  case (Cons x xs y ys)
  have "ucast (x XOR y) = (ucast x XOR ucast y :: u16)"
    by (rule bit_eqI) (auto simp: bit_simps)
  then show ?case
    by (simp add: Cons.IH crc_bits_xor [symmetric] push_bit_xor ac_simps)
qed

section \<open>No nonzero register becomes zero\<close>

lemma crc_bit_eq_0: "crc_bit w = 0 \<Longrightarrow> w = 0"
proof (cases "bit w 15")
  case True
  assume "crc_bit w = 0"
  with True have "push_bit 1 w = (0x1021 :: u16)"
    by (simp only: crc_bit_alt if_True CRC_POLY_def word_xor_eq_0)
  then have "bit (push_bit 1 w) 0 \<longleftrightarrow> bit (0x1021 :: u16) 0" by (simp only:)
  then show ?thesis by (simp add: bit_0)
next
  case False
  assume *: "crc_bit w = 0"
  show ?thesis
  proof (rule bit_word_eqI)
    fix n assume n: "n < LENGTH(16)"
    show "bit w n \<longleftrightarrow> bit (0 :: u16) n"
    proof (cases "n = 15")
      case True
      with False show ?thesis by simp
    next
      case neq: False
      have "bit (push_bit 1 w) (Suc n) = False" using * False by (simp add: crc_bit_alt)
      with n neq show ?thesis by (simp only: bit_push_bit_iff possible_bit_word) simp
    qed
  qed
qed

lemma crc_bits_eq_0: "crc_bits n w = 0 \<Longrightarrow> w = 0"
  by (induction n arbitrary: w) (auto dest: crc_bit_eq_0)

lemma crc_loop_zeros: "crc_loop d (replicate n 0) = 0 \<Longrightarrow> d = 0"
  by (induction n arbitrary: d) (auto dest: crc_bits_eq_0)

text \<open>A register with an empty upper byte is only shifted during eight rounds.\<close>

lemma crc_bits_low:
  fixes b :: u8
  shows "n \<le> 8 \<Longrightarrow> crc_bits n (ucast b) = push_bit n (ucast b :: u16)"
proof (induction n)
  case 0
  then show ?case by simp
next
  case (Suc n)
  have "\<not> bit (push_bit n (ucast b :: u16)) 15"
    using Suc.prems by (auto simp: bit_simps dest: bit_imp_le_length)
  then have "crc_bit (push_bit n (ucast b)) = push_bit (Suc n) (ucast b)"
    by (simp add: crc_bit_alt)
  moreover have "crc_bits (Suc n) (ucast b) = crc_bit (crc_bits n (ucast b))"
    using crc_bits_add [of n 1 "ucast b"] by simp
  ultimately show ?case using Suc by simp
qed

lemma crc_loop_window:
  fixes a b :: u8
  assumes "crc_loop 0 [a, b] = 0"
  shows "a = 0 \<and> b = 0"
proof -
  let ?w = "push_bit 8 (ucast a) XOR ucast b :: u16"
  have "crc_loop 0 [a, b] = crc_bits (8 + 8) ?w"
    by (simp only: crc_bits_add crc_bits_xor crc_bits_low crc_loop.simps xor_self_eq) (simp add: crc_bits_low)
  with assms have w: "?w = 0" using crc_bits_eq_0 by metis
  have "bit a n = False" "bit b n = False" if "n < 8" for n
    using that arg_cong [OF w, of "\<lambda>w. bit w (n + 8)"] arg_cong [OF w, of "\<lambda>w. bit w n"]
    by (auto simp: bit_simps dest: bit_imp_le_length)
  then show ?thesis by (auto intro: bit_word_eqI)
qed

section \<open>Detection of errors inside two neighbouring bytes\<close>

lemma crc_loop_two_bytes:
  assumes "crc_loop c (pre @ [a, b] @ post) = crc_loop c (pre @ [a', b'] @ post)"
  shows "a = a' \<and> b = b'"
proof -
  let ?d = "crc_loop c pre"
  have zs: "map2 (XOR) xs xs = replicate (length xs) (0 :: u8)" for xs
    by (induction xs) simp_all
  have "crc_loop (crc_loop 0 [a XOR a', b XOR b']) (replicate (length post) 0)
      = crc_loop ?d ([a, b] @ post) XOR crc_loop ?d ([a', b'] @ post)"
    by (subst crc_loop_xor) (simp_all add: zs)
  also have "\<dots> = 0" using assms by (simp add: crc_loop_append)
  finally have "crc_loop 0 [a XOR a', b XOR b'] = 0" by (rule crc_loop_zeros)
  then show ?thesis using crc_loop_window [of "a XOR a'" "b XOR b'"] by (simp only: word_xor_eq_0)
qed

text \<open>The check value of the algorithm, the checksum of the nine ASCII digits \<^verbatim>\<open>123456789\<close>.\<close>

lemma crc16_check_value:
  "crc16_ccitt_false [0x31, 0x32, 0x33, 0x34, 0x35, 0x36, 0x37, 0x38, 0x39] = 0x29B1"
  by code_simp

end
