(* ===== verification/Can_Crc_Poly.thy ===== *)
theory Can_Crc_Poly
  imports Can_Crc
begin

text \<open>
  What the checksum of \<^verbatim>\<open>src/crc.rs\<close> means: polynomials over two elements are the bits of natural numbers, with
  exclusive or as the sum and \<open>clmul\<close> as the product. The checksum is the remainder of the message, shifted
  by 16 and with the initial register added to its head, on division by the generator.
\<close>

section \<open>Polynomials over two elements\<close>

fun clmul :: "nat \<Rightarrow> nat \<Rightarrow> nat" where
  "clmul q g = (if q = 0 then 0 else (if odd q then g else 0) XOR push_bit 1 (clmul (q div 2) g))"

declare clmul.simps [simp del]

text \<open>The bytes of a message as one polynomial, the first byte at the head.\<close>

fun message_poly :: "bytes \<Rightarrow> nat" where
  "message_poly [] = 0"
| "message_poly (b # bs) = push_bit (8 * length bs) (unat b) XOR message_poly bs"

text \<open>The generator \<open>x^16 + x^12 + x^5 + 1\<close>, and the polynomial that is divided.\<close>

definition crc_generator :: nat where
  "crc_generator = 0x11021"

definition crc_dividend :: "bytes \<Rightarrow> nat" where
  "crc_dividend data = push_bit (8 * length data) 0xFFFF XOR push_bit 16 (message_poly data)"

lemma clmul_rec: "clmul q g = (if odd q then g else 0) XOR push_bit 1 (clmul (q div 2) g)"
  by (cases "q = 0") (simp_all add: clmul.simps [of q] clmul.simps [of 0])

lemma clmul_zero [simp]: "clmul 0 g = 0"
  by (simp add: clmul.simps)

lemma push_bit_xor_nat: "push_bit n (a XOR b) = push_bit n a XOR push_bit n (b :: nat)"
  by (rule bit_eqI) (auto simp: bit_simps)

lemma xor_div_2: "(a XOR b) div 2 = (a div 2) XOR (b div 2 :: nat)"
  by (rule bit_eqI) (simp add: bit_simps flip: bit_Suc)

lemma odd_xor: "odd (a XOR b) \<longleftrightarrow> odd a \<noteq> odd (b :: nat)"
  using bit_xor_iff [of a b 0] by (simp add: bit_0)

lemma xor_cancel [simp]: "a XOR (a XOR b) = (b :: nat)"
  by (metis xor.assoc xor_self_eq xor.left_neutral)

lemma clmul_xor: "clmul (a XOR b) g = clmul a g XOR clmul b g"
proof (induction "a + b" arbitrary: a b rule: less_induct)
  case less
  show ?case
  proof (cases "a = 0")
    case False
    then have "clmul ((a XOR b) div 2) g = clmul (a div 2) g XOR clmul (b div 2) g"
      using less [of "a div 2" "b div 2"] by (simp add: xor_div_2)
    then show ?thesis
      by (subst (1 2 3) clmul_rec) (auto simp: odd_xor push_bit_xor_nat ac_simps)
  qed simp
qed

lemma clmul_push: "clmul (push_bit k q) g = push_bit k (clmul q g)"
proof (induction k)
  case (Suc k)
  have "clmul (push_bit (Suc k) q) g = push_bit 1 (clmul (push_bit k q) g)"
    by (subst clmul_rec) (simp add: push_bit_double)
  then show ?case by (simp add: Suc push_bit_double [symmetric] flip: push_bit_push_bit)
qed simp

text \<open>A multiple other than zero has a bit at or above the degree of the generator.\<close>

lemma clmul_degree:
  assumes "q \<noteq> 0"
  shows "\<exists>k \<ge> 16. bit (clmul q crc_generator) k"
  using assms
proof (induction q rule: less_induct)
  case (less q)
  have "crc_generator < 2 ^ k" if "k > 16" for k
    using that power_increasing [of 17 k "2 :: nat"] by (simp add: crc_generator_def)
  then have g: "bit crc_generator 16" "\<And>k. k > 16 \<Longrightarrow> \<not> bit crc_generator k"
    by (simp_all add: crc_generator_def bit_iff_odd)
  show ?case
  proof (cases "q div 2 = 0")
    case True
    with less.prems have "q = 1" by simp
    then show ?thesis using g(1) by (subst clmul_rec) auto
  next
    case False
    with less.IH [of "q div 2"] less.prems obtain k where k: "k \<ge> 16" "bit (clmul (q div 2) crc_generator) k" by auto
    then have "bit (push_bit 1 (clmul (q div 2) crc_generator)) (Suc k)" unfolding bit_push_bit_iff_nat by simp
    then have "bit (clmul q crc_generator) (Suc k)"
      using g(2) [of "Suc k"] k(1) by (subst clmul_rec) (auto simp: bit_simps)
    then show ?thesis using k(1) by (intro exI [of _ "Suc k"]) simp
  qed
qed

lemma high_bit:
  assumes "(n :: nat) < 2 ^ 16" "k \<ge> 16"
  shows "\<not> bit n k"
proof -
  have "n < 2 ^ k" using assms power_increasing [of 16 k "2 :: nat"] by simp
  then show ?thesis by (simp add: bit_iff_odd)
qed

section \<open>The register\<close>

lemma generator_split: "crc_generator = push_bit 16 1 XOR unat CRC_POLY"
  by (simp add: crc_generator_def CRC_POLY_def)

lemma crc_bit_poly: "push_bit 1 (unat r) = (if bit r 15 then crc_generator else 0) XOR unat (crc_bit r)"
proof -
  have "push_bit 1 (unat r) = (if bit r 15 then push_bit 16 1 else 0) XOR unat (push_bit 1 r)"
  proof (rule bit_eqI)
    fix n
    have "bit (push_bit 16 (1 :: nat)) n \<longleftrightarrow> n = 16" unfolding bit_push_bit_iff_nat bit_1_iff by auto
    moreover have "bit (unat (push_bit 1 r)) n \<longleftrightarrow> n < 16 \<and> 1 \<le> n \<and> bit r (n - 1)"
      unfolding bit_unsigned_iff bit_push_bit_iff by auto
    moreover have "bit (push_bit 1 (unat r)) n \<longleftrightarrow> 1 \<le> n \<and> bit r (n - 1)"
      unfolding bit_push_bit_iff_nat bit_unsigned_iff by simp
    moreover have "bit r (n - 1) \<Longrightarrow> n - 1 < 16" by (auto dest: bit_imp_le_length)
    ultimately show "bit (push_bit 1 (unat r)) n \<longleftrightarrow> bit ((if bit r 15 then push_bit 16 1 else 0) XOR unat (push_bit 1 r)) n"
      unfolding bit_xor_iff by (cases "n = 16") auto
  qed
  then show ?thesis by (auto simp: crc_bit_alt generator_split unsigned_xor_eq ac_simps)
qed

lemma crc_bits_poly: "\<exists>q. push_bit n (unat r) = clmul q crc_generator XOR unat (crc_bits n r)"
proof (induction n arbitrary: r)
  case (Suc n)
  let ?top = "if bit r 15 then 1 else 0 :: nat"
  obtain q where q: "push_bit n (unat (crc_bit r)) = clmul q crc_generator XOR unat (crc_bits n (crc_bit r))"
    using Suc.IH by blast
  have "clmul ?top crc_generator = (if bit r 15 then crc_generator else 0)" by (subst clmul_rec) simp
  then have "push_bit (Suc n) (unat r) = push_bit n (clmul ?top crc_generator) XOR push_bit n (unat (crc_bit r))"
    using crc_bit_poly [of r] push_bit_push_bit [of n 1 "unat r"] by (simp only: push_bit_xor_nat [symmetric]) simp
  also have "\<dots> = clmul (push_bit n ?top XOR q) crc_generator XOR unat (crc_bits (Suc n) r)"
    by (simp only: q clmul_push clmul_xor crc_bits.simps xor.assoc)
  finally show ?case by blast
qed (auto intro: exI [of _ 0])

lemma crc_loop_poly:
  "\<exists>q. push_bit (8 * length data) (unat c) XOR push_bit 16 (message_poly data) = clmul q crc_generator XOR unat (crc_loop c data)"
proof (induction data arbitrary: c)
  case Nil
  then show ?case by (auto intro: exI [of _ 0])
next
  case (Cons b bs)
  let ?n = "8 * length bs" and ?r = "c XOR push_bit 8 (ucast b)"
  have "unat (push_bit 8 (ucast b) :: u16) = push_bit 8 (unat b)"
    by (rule bit_eqI) (auto simp: bit_simps dest: bit_imp_le_length)
  then have r: "unat ?r = unat c XOR push_bit 8 (unat b)" by (simp add: unsigned_xor_eq)
  obtain p where p: "push_bit 8 (unat ?r) = clmul p crc_generator XOR unat (crc_bits 8 ?r)"
    using crc_bits_poly by blast
  obtain q where q: "push_bit ?n (unat (crc_bits 8 ?r)) XOR push_bit 16 (message_poly bs) =
      clmul q crc_generator XOR unat (crc_loop c (b # bs))"
    using Cons.IH [of "crc_bits 8 ?r"] by auto
  have "push_bit (8 * length (b # bs)) (unat c) XOR push_bit 16 (message_poly (b # bs)) =
      push_bit ?n (push_bit 8 (unat ?r)) XOR push_bit 16 (message_poly bs)"
    unfolding r by (simp add: push_bit_xor_nat push_bit_push_bit ac_simps)
  also have "\<dots> = clmul (push_bit ?n p) crc_generator XOR (push_bit ?n (unat (crc_bits 8 ?r)) XOR push_bit 16 (message_poly bs))"
    by (simp only: p push_bit_xor_nat clmul_push xor.assoc)
  also have "\<dots> = clmul (push_bit ?n p XOR q) crc_generator XOR unat (crc_loop c (b # bs))"
    by (simp only: q clmul_xor xor.assoc)
  finally show ?case by blast
qed

text \<open>
  C20: The checksum is the remainder of polynomial division: for every input, of all numbers below \<open>2^16\<close> exactly
  \<^verbatim>\<open>crc16_ccitt_false\<close> of it differs from the dividend (the input shifted by 16, its first two bytes inverted) by a
  multiple of the generator.
\<close>

theorem crc_is_remainder:
  "unat (crc16_ccitt_false data) = r \<longleftrightarrow> r < 2 ^ 16 \<and> (\<exists>q. crc_dividend data = clmul q crc_generator XOR r)"
proof -
  let ?c = "unat (crc16_ccitt_false data)"
  obtain q where q: "crc_dividend data = clmul q crc_generator XOR ?c"
    using crc_loop_poly [of data "0xFFFF"] by (auto simp: crc_dividend_def crc16_ccitt_false_def)
  have c: "?c < 2 ^ 16" using unat_less [of "crc16_ccitt_false data"] by simp
  have "?c = r" if "r < 2 ^ 16" "crc_dividend data = clmul q' crc_generator XOR r" for q'
  proof (rule ccontr)
    have "clmul q crc_generator XOR ?c = clmul q' crc_generator XOR r" using q that(2) by simp
    then have m: "clmul (q XOR q') crc_generator = ?c XOR r"
      by (metis clmul_xor xor.assoc xor.commute xor.left_neutral xor_self_eq)
    have small: "\<not> bit (?c XOR r) k" if "k \<ge> 16" for k
      using high_bit [OF c that] high_bit [OF \<open>r < 2 ^ 16\<close> that] unfolding bit_xor_iff by simp
    assume "?c \<noteq> r"
    then have "?c XOR r \<noteq> 0" by (metis xor.assoc xor.right_neutral xor_self_eq)
    with m have "q XOR q' \<noteq> 0" by (metis clmul_zero)
    with clmul_degree small m show False by metis
  qed
  with q c show ?thesis by metis
qed

end
