(* ===== verification/Can_Safety.thy ===== *)
theory Can_Safety
  imports Can_Crc
begin

text \<open>
  End-to-end protection (\<^verbatim>\<open>src/safety/mod.rs\<close>): the ten-byte header, the \<open>protector\<close> with its
  sequence counter, and the \<open>e2e_receiver\<close> that checks length, checksum and counter in that order. The
  counter of the protector is an \<^verbatim>\<open>AtomicU32\<close> that \<^verbatim>\<open>fetch_add\<close> steps, so it wraps; the state of
  the receiver sits behind one mutex, so an operation is one state change.
\<close>

section \<open>The code\<close>

definition HEADER_SIZE :: nat where
  "HEADER_SIZE = 10"

record e2e_config =
  data_id :: u16
  source_id :: u16

datatype e2e_error_kind = CrcMismatch | SequenceGap | HeaderTooShort

fun e2e_error_kind_display :: "e2e_error_kind \<Rightarrow> string" where
  "e2e_error_kind_display CrcMismatch = ''CRC mismatch''"
| "e2e_error_kind_display SequenceGap = ''sequence gap''"
| "e2e_error_kind_display HeaderTooShort = ''header too short''"

record e2e_error =
  e2e_kind :: e2e_error_kind
  e2e_counter :: u32
  e2e_message :: string

definition e2e_error_display :: "e2e_error \<Rightarrow> string" where
  "e2e_error_display e =
     ''can/safety: E2E '' @ e2e_error_kind_display (e2e_kind e) @ '' (counter='' @
     show_dec (unat (e2e_counter e)) @ ''): '' @ e2e_message e"

text \<open>The module keeps its own copy of the checksum loop, started from a given register.\<close>

fun cont_bits :: "nat \<Rightarrow> u16 \<Rightarrow> u16" where
  "cont_bits 0 crc = crc"
| "cont_bits (Suc n) crc =
     cont_bits n (if crc AND 0x8000 \<noteq> 0 then push_bit 1 crc XOR 0x1021 else push_bit 1 crc)"

fun crc16_ccitt_false_cont :: "u16 \<Rightarrow> bytes \<Rightarrow> u16" where
  "crc16_ccitt_false_cont crc [] = crc"
| "crc16_ccitt_false_cont crc (b # data) =
     crc16_ccitt_false_cont (cont_bits 8 (crc XOR push_bit 8 (ucast b))) data"

definition build_header :: "u16 \<Rightarrow> u16 \<Rightarrow> u32 \<Rightarrow> bytes \<Rightarrow> bytes" where
  "build_header di si seq payload =
     (let hdr = u16_to_le_bytes di @ u16_to_le_bytes si @ u32_to_le_bytes seq;
          crc = crc16_ccitt_false hdr;
          crc = crc16_ccitt_false_cont crc payload
      in hdr @ u16_to_le_bytes crc)"

record protector =
  pr_cfg :: e2e_config
  pr_seq :: u32

definition new_protector :: "e2e_config \<Rightarrow> protector" where
  "new_protector cfg = \<lparr>pr_cfg = cfg, pr_seq = 0\<rparr>"

definition protect :: "protector \<Rightarrow> bytes \<Rightarrow> bytes \<times> protector" where
  "protect p payload =
     (let seq = pr_seq p;
          header = build_header (data_id (pr_cfg p)) (source_id (pr_cfg p)) seq payload
      in (header @ payload, p\<lparr>pr_seq := seq + 1\<rparr>))"

record e2e_receiver =
  rc_cfg :: e2e_config
  rc_last_seq :: u32
  rc_first :: bool

definition new_e2e_receiver :: "e2e_config \<Rightarrow> e2e_receiver" where
  "new_e2e_receiver cfg = \<lparr>rc_cfg = cfg, rc_last_seq = 0, rc_first = True\<rparr>"

definition e2e_unwrap :: "e2e_receiver \<Rightarrow> bytes \<Rightarrow> (e2e_error, bytes) result \<times> e2e_receiver" where
  "e2e_unwrap r data =
     (if length data < HEADER_SIZE then
        (Err \<lparr>e2e_kind = HeaderTooShort, e2e_counter = 0,
              e2e_message = ''need '' @ show_dec HEADER_SIZE @ '' bytes, got '' @ show_dec (length data)\<rparr>, r)
      else
        let seq = u32_from_le_bytes (data ! 4) (data ! 5) (data ! 6) (data ! 7);
            received_crc = u16_from_le_bytes (data ! 8) (data ! 9);
            payload = drop HEADER_SIZE data;
            expected_header = build_header (data_id (rc_cfg r)) (source_id (rc_cfg r)) seq payload;
            expected_crc = u16_from_le_bytes (expected_header ! 8) (expected_header ! 9)
        in if received_crc \<noteq> expected_crc then
             (Err \<lparr>e2e_kind = CrcMismatch, e2e_counter = seq,
                   e2e_message = ''CRC mismatch: received=0x'' @ pad_left 4 (show_hex (unat received_crc)) @
                     '' expected=0x'' @ pad_left 4 (show_hex (unat expected_crc))\<rparr>, r)
           else if \<not> rc_first r \<and> seq \<noteq> rc_last_seq r + 1 then
             (Err \<lparr>e2e_kind = SequenceGap, e2e_counter = seq,
                   e2e_message = ''expected counter '' @ show_dec (unat (rc_last_seq r + 1)) @
                     '', got '' @ show_dec (unat seq)\<rparr>,
              r\<lparr>rc_last_seq := seq\<rparr>)
           else (Ok payload, r\<lparr>rc_first := False, rc_last_seq := seq\<rparr>))"

text \<open>A whole stream: protecting payloads in order, and unwrapping messages in order.\<close>

fun protect_all :: "protector \<Rightarrow> bytes list \<Rightarrow> bytes list \<times> protector" where
  "protect_all p [] = ([], p)"
| "protect_all p (x # xs) =
     (let (m, p') = protect p x; (ms, p'') = protect_all p' xs in (m # ms, p''))"

fun unwrap_all :: "e2e_receiver \<Rightarrow> bytes list \<Rightarrow> (e2e_error, bytes) result list \<times> e2e_receiver" where
  "unwrap_all r [] = ([], r)"
| "unwrap_all r (m # ms) =
     (let (x, r') = e2e_unwrap r m; (xs, r'') = unwrap_all r' ms in (x # xs, r''))"

section \<open>The header\<close>

lemma cont_bits_eq: "cont_bits n w = crc_bits n w"
  by (induction n arbitrary: w) (simp_all add: crc_bit_def CRC_POLY_def)

lemma crc16_cont_eq: "crc16_ccitt_false_cont c data = crc_loop c data"
  by (induction data arbitrary: c) (simp_all only: crc16_ccitt_false_cont.simps crc_loop.simps cont_bits_eq)

definition e2e_fields :: "e2e_config \<Rightarrow> u32 \<Rightarrow> bytes" where
  "e2e_fields cfg seq = u16_to_le_bytes (data_id cfg) @ u16_to_le_bytes (source_id cfg) @ u32_to_le_bytes seq"

lemma length_e2e_fields [simp]: "length (e2e_fields cfg seq) = 8"
  by (simp add: e2e_fields_def)

definition e2e_crc :: "e2e_config \<Rightarrow> u32 \<Rightarrow> bytes \<Rightarrow> u16" where
  "e2e_crc cfg seq payload = crc16_ccitt_false (e2e_fields cfg seq @ payload)"

lemma build_header_eq:
  "build_header (data_id cfg) (source_id cfg) seq payload =
     e2e_fields cfg seq @ u16_to_le_bytes (e2e_crc cfg seq payload)"
  by (simp add: build_header_def Let_def e2e_fields_def e2e_crc_def crc16_cont_eq
      crc16_ccitt_false_def crc_loop_append)

lemma length_build_header [simp]: "length (build_header d s q p) = 10"
  by (simp add: build_header_def Let_def)

lemma header_crc [simp]:
  "u16_from_le_bytes ((e2e_fields cfg seq @ u16_to_le_bytes c @ rest) ! 8)
     ((e2e_fields cfg seq @ u16_to_le_bytes c @ rest) ! 9) = c"
  by (simp add: nth_append u16_to_le_bytes_def)

lemma header_seq [simp]:
  "u32_from_le_bytes ((e2e_fields cfg seq @ rest) ! 4) ((e2e_fields cfg seq @ rest) ! 5)
     ((e2e_fields cfg seq @ rest) ! 6) ((e2e_fields cfg seq @ rest) ! 7) = seq"
  by (simp add: e2e_fields_def u16_to_le_bytes_def u32_to_le_bytes_def)

lemma protect_eq:
  "protect p payload =
     (e2e_fields (pr_cfg p) (pr_seq p) @
        u16_to_le_bytes (e2e_crc (pr_cfg p) (pr_seq p) payload) @ payload,
      p\<lparr>pr_seq := pr_seq p + 1\<rparr>)"
  by (simp add: protect_def Let_def build_header_eq)

section \<open>Unwrapping, case by case\<close>

text \<open>The receiver's view of a message that is long enough: counter, checksum field, payload.\<close>

definition msg_seq :: "bytes \<Rightarrow> u32" where
  "msg_seq m = u32_from_le_bytes (m ! 4) (m ! 5) (m ! 6) (m ! 7)"

definition msg_crc :: "bytes \<Rightarrow> u16" where
  "msg_crc m = u16_from_le_bytes (m ! 8) (m ! 9)"

definition msg_intact :: "e2e_config \<Rightarrow> bytes \<Rightarrow> bool" where
  "msg_intact cfg m \<longleftrightarrow> 10 \<le> length m \<and> msg_crc m = e2e_crc cfg (msg_seq m) (drop 10 m)"

lemma e2e_unwrap_short: "length m < 10 \<Longrightarrow> \<exists>e. e2e_unwrap r m = (Err e, r) \<and> e2e_kind e = HeaderTooShort"
  by (simp add: e2e_unwrap_def HEADER_SIZE_def)

lemma e2e_unwrap_corrupt:
  assumes "10 \<le> length m" "\<not> msg_intact (rc_cfg r) m"
  shows "\<exists>e. e2e_unwrap r m = (Err e, r) \<and> e2e_kind e = CrcMismatch \<and> e2e_counter e = msg_seq m"
  using assms header_crc [of "rc_cfg r" "msg_seq m" _ "[]"]
  by (simp add: e2e_unwrap_def HEADER_SIZE_def build_header_eq msg_intact_def msg_crc_def Let_def
      flip: msg_seq_def)

lemma e2e_unwrap_gap:
  assumes "msg_intact (rc_cfg r) m" "\<not> rc_first r" "msg_seq m \<noteq> rc_last_seq r + 1"
  shows "\<exists>e. e2e_unwrap r m = (Err e, r\<lparr>rc_last_seq := msg_seq m\<rparr>) \<and>
    e2e_kind e = SequenceGap \<and> e2e_counter e = msg_seq m"
  using assms header_crc [of "rc_cfg r" "msg_seq m" _ "[]"]
  by (simp add: e2e_unwrap_def HEADER_SIZE_def build_header_eq msg_intact_def msg_crc_def Let_def
      flip: msg_seq_def)

lemma e2e_unwrap_ok:
  assumes "msg_intact (rc_cfg r) m" "rc_first r \<or> msg_seq m = rc_last_seq r + 1"
  shows "e2e_unwrap r m = (Ok (drop 10 m), r\<lparr>rc_first := False, rc_last_seq := msg_seq m\<rparr>)"
  using assms header_crc [of "rc_cfg r" "msg_seq m" _ "[]"]
  by (auto simp add: e2e_unwrap_def HEADER_SIZE_def build_header_eq msg_intact_def msg_crc_def Let_def
      simp flip: msg_seq_def)

lemma protect_intact:
  "msg_intact (pr_cfg p) (fst (protect p x)) \<and> msg_seq (fst (protect p x)) = pr_seq p \<and>
     drop 10 (fst (protect p x)) = x \<and> length (fst (protect p x)) = 10 + length x"
  by (simp add: protect_eq msg_intact_def msg_seq_def msg_crc_def)

section \<open>Streams\<close>

text \<open>The receiver expects the message that the protector produces next.\<close>

definition in_sync :: "protector \<Rightarrow> e2e_receiver \<Rightarrow> bool" where
  "in_sync p r \<longleftrightarrow> rc_cfg r = pr_cfg p \<and> (rc_first r \<or> pr_seq p = rc_last_seq r + 1)"

lemma in_sync_new: "in_sync (new_protector cfg) (new_e2e_receiver cfg)"
  by (simp add: in_sync_def new_protector_def new_e2e_receiver_def)

lemma unwrap_protect_step:
  assumes "in_sync p r"
  shows "e2e_unwrap r (fst (protect p x)) =
      (Ok x, r\<lparr>rc_first := False, rc_last_seq := pr_seq p\<rparr>)"
    and "in_sync (snd (protect p x)) (r\<lparr>rc_first := False, rc_last_seq := pr_seq p\<rparr>)"
  using assms protect_intact [of p x] e2e_unwrap_ok [of r "fst (protect p x)"]
  by (auto simp: in_sync_def protect_eq)

lemma unwrap_all_protect_all:
  "in_sync p r \<Longrightarrow>
     fst (unwrap_all r (fst (protect_all p xs))) = map Ok xs \<and>
     in_sync (snd (protect_all p xs)) (snd (unwrap_all r (fst (protect_all p xs))))"
proof (induction xs arbitrary: p r)
  case Nil
  then show ?case by simp
next
  case (Cons x xs)
  note step = unwrap_protect_step [OF Cons.prems, of x]
  from Cons.IH [OF step(2)] step(1) show ?case
    by (simp add: case_prod_unfold Let_def)
qed

lemma protect_all_seq:
  "pr_seq (snd (protect_all p xs)) = pr_seq p + of_nat (length xs) \<and> pr_cfg (snd (protect_all p xs)) = pr_cfg p"
  by (induction xs arbitrary: p) (simp_all add: case_prod_unfold Let_def protect_eq)

lemma unwrap_all_last:
  assumes "in_sync p r" "xs \<noteq> []"
  shows "\<not> rc_first (snd (unwrap_all r (fst (protect_all p xs)))) \<and>
    rc_last_seq (snd (unwrap_all r (fst (protect_all p xs)))) = pr_seq p + of_nat (length xs) - 1"
  using assms
proof (induction xs arbitrary: p r)
  case Nil
  then show ?case by simp
next
  case (Cons x xs)
  note step = unwrap_protect_step [OF Cons.prems(1), of x]
  show ?case
  proof (cases "xs = []")
    case True
    then show ?thesis using step(1) by (simp add: case_prod_unfold Let_def)
  next
    case False
    from Cons.IH [OF step(2) False] step(1) show ?thesis
      by (simp add: case_prod_unfold Let_def protect_eq)
  qed
qed

text \<open>
  A message of the protector that arrives out of turn is answered with a sequence gap, and the
  receiver then expects the one after it.
\<close>

lemma unwrap_out_of_turn:
  assumes "rc_cfg r = pr_cfg p" "\<not> rc_first r" "pr_seq p \<noteq> rc_last_seq r + 1"
  shows "\<exists>e r'. e2e_unwrap r (fst (protect p x)) = (Err e, r') \<and> e2e_kind e = SequenceGap \<and>
    e2e_counter e = pr_seq p \<and> in_sync (snd (protect p x)) r'"
  using assms protect_intact [of p x] e2e_unwrap_gap [of r "fst (protect p x)"]
  by (auto simp: in_sync_def protect_eq)

lemma unwrap_all_out_of_turn:
  assumes "rc_cfg r = pr_cfg p" "\<not> rc_first r" "pr_seq p \<noteq> rc_last_seq r + 1"
  shows "\<exists>e. fst (unwrap_all r (fst (protect_all p (x # xs)))) = Err e # map Ok xs \<and> e2e_kind e = SequenceGap"
proof -
  obtain e r' where e: "e2e_unwrap r (fst (protect p x)) = (Err e, r')" "e2e_kind e = SequenceGap"
    and r': "in_sync (snd (protect p x)) r'"
    using unwrap_out_of_turn [OF assms] by blast
  from unwrap_all_protect_all [OF r', of xs] e show ?thesis
    by (simp add: case_prod_unfold Let_def)
qed

lemma of_nat_u32_eq_0: "(of_nat n :: u32) = 0 \<longleftrightarrow> n mod 2 ^ 32 = 0"
  by (simp add: word_of_nat_eq_0_iff dvd_eq_mod_eq_0)

text \<open>The checksum input of a received message: the receiver's identifiers, then the bytes from the fourth on.\<close>

lemma e2e_fields_msg_seq:
  assumes "8 \<le> length m"
  shows "e2e_fields cfg (msg_seq m) =
    u16_to_le_bytes (data_id cfg) @ u16_to_le_bytes (source_id cfg) @ take 4 (drop 4 m)"
  using assms take_drop_nth4 [of 4 m] by (simp add: e2e_fields_def msg_seq_def)

lemma e2e_crc_seq_bytes:
  assumes "length pre \<in> {4, 5, 6}" "8 \<le> length (pre @ [a, b] @ post)" "[a', b'] \<noteq> [a, b]"
  shows "e2e_crc cfg (msg_seq (pre @ [a', b'] @ post)) d \<noteq> e2e_crc cfg (msg_seq (pre @ [a, b] @ post)) d"
proof -
  let ?ids = "u16_to_le_bytes (data_id cfg) @ u16_to_le_bytes (source_id cfg) @ drop 4 pre"
  have "e2e_fields cfg (msg_seq (pre @ [u, v] @ post)) = ?ids @ [u, v] @ take (6 - length pre) post" for u v
    using assms(1,2) by (subst e2e_fields_msg_seq) auto
  then show ?thesis
    using assms(3) crc_loop_two_bytes [of "0xFFFF" ?ids a' b' "take (6 - length pre) post @ d" a b]
    by (auto simp: e2e_crc_def crc16_ccitt_false_def)
qed

section \<open>Properties\<close>

text \<open>
  C1: A receiver in step with the protector (in particular a new one with the same identifiers)
  unwraps a whole protected stream, message by message, to the original payloads, whatever the
  starting counter: the 32-bit counter may wrap inside the stream.
\<close>

theorem e2e_stream_roundtrip:
  assumes "in_sync p r"
  shows "fst (unwrap_all r (fst (protect_all p xs))) = map Ok xs"
  using unwrap_all_protect_all [OF assms] by simp

theorem e2e_stream_roundtrip_witness:
  "fst (unwrap_all (new_e2e_receiver \<lparr>data_id = 0x1234, source_id = 0x5678\<rparr>)
     (fst (protect_all (new_protector \<lparr>data_id = 0x1234, source_id = 0x5678\<rparr>) [[1, 2], [], [3]])))
   = [Ok [1, 2], Ok [], Ok [3]]"
  using e2e_stream_roundtrip [OF in_sync_new, of "\<lparr>data_id = 0x1234, source_id = 0x5678\<rparr>" "[[1, 2], [], [3]]"]
  by simp

text \<open>
  Losing between one and \<open>2 ^ 32 - 1\<close> messages in a row is detected: after at least one accepted
  message, the first message behind the loss is rejected as a sequence gap (it is lost too), and
  every later one is unwrapped again.
\<close>

theorem e2e_loss_detected:
  assumes "in_sync p r" "before \<noteq> []" "0 < length lost" "length lost < 2 ^ 32"
  shows "let (ms, p1) = protect_all p before; (_, p2) = protect_all p1 lost;
             (ns, _) = protect_all p2 (x # xs); (_, r1) = unwrap_all r ms
         in \<exists>e. fst (unwrap_all r1 ns) = Err e # map Ok xs \<and> e2e_kind e = SequenceGap"
proof -
  define p1 where "p1 = snd (protect_all p before)"
  define p2 where "p2 = snd (protect_all p1 lost)"
  define r1 where "r1 = snd (unwrap_all r (fst (protect_all p before)))"
  have cfg: "rc_cfg r1 = pr_cfg p2"
    using unwrap_all_protect_all [OF assms(1), of before] protect_all_seq [of p1 lost]
    by (simp add: r1_def p1_def p2_def in_sync_def)
  have last: "\<not> rc_first r1" "pr_seq p1 = rc_last_seq r1 + 1"
    using unwrap_all_last [OF assms(1,2)] protect_all_seq [of p before] by (simp_all add: r1_def p1_def)
  have "(of_nat (length lost) :: u32) \<noteq> 0"
    using assms(3,4) by (simp add: of_nat_u32_eq_0)
  then have "pr_seq p2 \<noteq> rc_last_seq r1 + 1"
    using protect_all_seq [of p1 lost] last(2) by (simp add: p2_def)
  from unwrap_all_out_of_turn [OF cfg last(1) this, of x xs] show ?thesis
    unfolding p1_def p2_def r1_def by (simp only: case_prod_unfold Let_def)
qed

theorem e2e_loss_detected_witness:
  "\<exists>e. fst (unwrap_all (snd (unwrap_all (new_e2e_receiver \<lparr>data_id = 1, source_id = 2\<rparr>)
       (fst (protect_all (new_protector \<lparr>data_id = 1, source_id = 2\<rparr>) [[7]]))))
     (fst (protect_all (snd (protect_all (snd (protect_all
        (new_protector \<lparr>data_id = 1, source_id = 2\<rparr>) [[7]])) [[8]])) ([9] # [[10]]))))
    = Err e # map Ok [[10]] \<and> e2e_kind e = SequenceGap"
  using e2e_loss_detected [OF in_sync_new [of "\<lparr>data_id = 1, source_id = 2\<rparr>"], of "[[7]]" "[[8]]" "[9]" "[[10]]"]
  by (simp only: case_prod_unfold Let_def) simp

text \<open>
  C21: A corruption of two neighbouring bytes that are both in the counter (bytes 4 to 7), both in the checksum field (bytes 8
  and 9) or both in the payload (from byte 10 on), so also any single bit or byte error there, is answered with a
  checksum mismatch, and the receiver keeps its state. Two bytes that belong to different fields are not covered, and
  a change of the identifiers (bytes 0 to 3) is not detected at all (\<open>e2e_identifier_bytes_ignored\<close>).
\<close>

theorem e2e_corruption_detected:
  assumes m: "fst (protect p x) = pre @ [a, b] @ post"
    and cfg: "rc_cfg r = pr_cfg p"
    and pos: "length pre \<in> {4, 5, 6, 8} \<or> 10 \<le> length pre"
    and diff: "[a', b'] \<noteq> [a, b]"
  shows "\<exists>e. e2e_unwrap r (pre @ [a', b'] @ post) = (Err e, r) \<and> e2e_kind e = CrcMismatch"
proof -
  let ?cfg = "pr_cfg p" and ?m = "pre @ [a, b] @ post" and ?m' = "pre @ [a', b'] @ post"
  have len: "10 \<le> length ?m" and ok: "msg_crc ?m = e2e_crc ?cfg (msg_seq ?m) (drop 10 ?m)"
    using protect_intact [of p x] m by (auto simp: msg_intact_def)
  have "msg_crc ?m' \<noteq> e2e_crc ?cfg (msg_seq ?m') (drop 10 ?m')"
  proof (cases "10 \<le> length pre")
    case True
    then have same: "msg_seq ?m' = msg_seq ?m" "msg_crc ?m' = msg_crc ?m"
      by (simp_all add: msg_seq_def msg_crc_def nth_append)
    have "drop 10 (pre @ [u, v] @ post) = drop 10 pre @ [u, v] @ post" for u v
      using True by simp
    then have "e2e_crc ?cfg q (drop 10 ?m') \<noteq> e2e_crc ?cfg q (drop 10 ?m)" for q
      using diff crc_loop_two_bytes [of "0xFFFF" "e2e_fields ?cfg q @ drop 10 pre" a' b' post a b]
      by (auto simp: e2e_crc_def crc16_ccitt_false_def)
    with same ok show ?thesis by metis
  next
    case False
    then consider "length pre = 8" | "length pre \<in> {4, 5, 6}" using pos by auto
    then show ?thesis
    proof cases
      case 1
      then have "msg_seq ?m' = msg_seq ?m" "drop 10 ?m' = drop 10 ?m"
        by (simp_all add: msg_seq_def nth_append)
      moreover have "msg_crc ?m' \<noteq> msg_crc ?m"
        using 1 diff by (auto simp: msg_crc_def nth_append u16_from_le_bytes_inj)
      ultimately show ?thesis using ok by metis
    next
      case 2
      then have same: "drop 10 ?m' = drop 10 ?m" "msg_crc ?m' = msg_crc ?m"
        by (auto simp: msg_crc_def nth_append)
      have "e2e_crc ?cfg (msg_seq ?m') (drop 10 ?m) \<noteq> e2e_crc ?cfg (msg_seq ?m) (drop 10 ?m)"
        using e2e_crc_seq_bytes [OF 2 _ diff] len by simp
      with same ok show ?thesis by metis
    qed
  qed
  then show ?thesis
    using e2e_unwrap_corrupt [of ?m' r] len cfg by (auto simp: msg_intact_def)
qed

theorem e2e_corruption_detected_witness:
  "\<exists>e. e2e_unwrap (new_e2e_receiver \<lparr>data_id = 1, source_id = 2\<rparr>)
      (take 10 (fst (protect (new_protector \<lparr>data_id = 1, source_id = 2\<rparr>) [5, 6, 7])) @ [5, 9] @ [7])
    = (Err e, new_e2e_receiver \<lparr>data_id = 1, source_id = 2\<rparr>) \<and> e2e_kind e = CrcMismatch"
proof -
  let ?p = "new_protector \<lparr>data_id = 1, source_id = 2\<rparr>"
  have "fst (protect ?p [5, 6, 7]) = take 10 (fst (protect ?p [5, 6, 7])) @ [5, 6] @ [7]"
    by (simp add: protect_eq)
  moreover have "10 \<le> length (take 10 (fst (protect ?p [5, 6, 7])))"
    by (simp add: protect_eq)
  ultimately show ?thesis
    by (intro e2e_corruption_detected [where p = ?p and x = "[5, 6, 7]" and a = 5 and b = 6])
      (simp_all add: new_protector_def new_e2e_receiver_def)
qed

text \<open>
  The layout of a protected message: the two identifiers and the counter in little-endian order,
  the CRC-16/CCITT-FALSE of those eight bytes followed by the payload (computed in the source by two
  separate loops), then the payload; the counter advances by one modulo \<open>2 ^ 32\<close>.
\<close>

theorem protect_layout:
  "let (m, p') = protect p payload;
       fields = u16_to_le_bytes (data_id (pr_cfg p)) @ u16_to_le_bytes (source_id (pr_cfg p)) @
         u32_to_le_bytes (pr_seq p)
   in m = fields @ u16_to_le_bytes (crc16_ccitt_false (fields @ payload)) @ payload \<and>
      p' = p\<lparr>pr_seq := pr_seq p + 1\<rparr>"
  by (simp add: protect_eq e2e_fields_def e2e_crc_def)

text \<open>
  The receiver never reads the identifier bytes of a message: any four bytes in the place of
  \<^verbatim>\<open>DataID\<close> and \<^verbatim>\<open>SourceID\<close> give the same result and the same state, so an error confined to them
  passes undetected.
\<close>

theorem e2e_identifier_bytes_ignored:
  assumes "length ids = 4" "4 \<le> length m"
  shows "e2e_unwrap r (ids @ drop 4 m) = e2e_unwrap r m"
proof -
  have "length (ids @ drop 4 m) = length m" "drop 10 (ids @ drop 4 m) = drop 10 m" using assms by simp_all
  moreover have "(ids @ drop 4 m) ! i = m ! i" if "4 \<le> i" "i < length m" for i
    using assms that by (simp add: nth_append)
  ultimately show ?thesis
    by (cases "length m < 10") (simp_all add: e2e_unwrap_def HEADER_SIZE_def)
qed

theorem e2e_identifier_bytes_ignored_witness:
  "fst (e2e_unwrap (new_e2e_receiver \<lparr>data_id = 1, source_id = 2\<rparr>)
     ([0xFF, 0xFF, 0xFF, 0xFF] @ drop 4 (fst (protect (new_protector \<lparr>data_id = 1, source_id = 2\<rparr>) [5]))))
   = Ok [5]"
proof -
  let ?p = "new_protector \<lparr>data_id = 1, source_id = 2\<rparr>" and ?r = "new_e2e_receiver \<lparr>data_id = 1, source_id = 2\<rparr>"
  have "4 \<le> length (fst (protect ?p [5]))" by (simp add: protect_eq)
  then have "e2e_unwrap ?r ([0xFF, 0xFF, 0xFF, 0xFF] @ drop 4 (fst (protect ?p [5]))) =
      e2e_unwrap ?r (fst (protect ?p [5]))"
    by (intro e2e_identifier_bytes_ignored) simp_all
  then show ?thesis using unwrap_protect_step(1) [OF in_sync_new] by simp
qed

text \<open>
  A recorded stream can be replayed: after the receiver has unwrapped a stream, the same messages
  fed to it again are all accepted but the first, which is rejected as a sequence gap and moves the
  expected counter back into the recording.
\<close>

theorem e2e_replay_accepted:
  assumes "in_sync p r" "length (x # xs) mod 2 ^ 32 \<noteq> 0"
  shows "let (ms, _) = protect_all p (x # xs); (_, r1) = unwrap_all r ms
         in \<exists>e. fst (unwrap_all r1 ms) = Err e # map Ok xs \<and> e2e_kind e = SequenceGap"
proof -
  define r1 where "r1 = snd (unwrap_all r (fst (protect_all p (x # xs))))"
  have cfg: "rc_cfg r1 = pr_cfg p"
    using unwrap_all_protect_all [OF assms(1), of "x # xs"] protect_all_seq [of p "x # xs"]
    by (simp only: r1_def in_sync_def)
  have last: "\<not> rc_first r1" "rc_last_seq r1 + 1 = pr_seq p + of_nat (length (x # xs))"
    using unwrap_all_last [OF assms(1), of "x # xs"] by (simp_all add: r1_def)
  have "(of_nat (length (x # xs)) :: u32) \<noteq> 0"
    using assms(2) by (simp only: of_nat_u32_eq_0 not_False_eq_True)
  then have "pr_seq p \<noteq> rc_last_seq r1 + 1"
    unfolding last(2) by (metis add_cancel_left_right)
  from unwrap_all_out_of_turn [OF cfg last(1) this, of x xs] show ?thesis
    unfolding r1_def by (simp only: case_prod_unfold Let_def)
qed

theorem e2e_replay_accepted_witness:
  "\<exists>e. fst (unwrap_all (snd (unwrap_all (new_e2e_receiver \<lparr>data_id = 1, source_id = 2\<rparr>)
        (fst (protect_all (new_protector \<lparr>data_id = 1, source_id = 2\<rparr>) ([7] # [[8], [9]])))))
      (fst (protect_all (new_protector \<lparr>data_id = 1, source_id = 2\<rparr>) ([7] # [[8], [9]]))))
    = Err e # map Ok [[8], [9]] \<and> e2e_kind e = SequenceGap"
  using e2e_replay_accepted [OF in_sync_new [of "\<lparr>data_id = 1, source_id = 2\<rparr>"], of "[7]" "[[8], [9]]"]
  by (simp only: case_prod_unfold Let_def) simp

end
