(* ===== verification/Can_Auth.thy ===== *)
theory Can_Auth
  imports Can_Text
begin

text \<open>
  The message authenticator \<^verbatim>\<open>HmacSha256Auth\<close> of \<^verbatim>\<open>src/safety/hmac_auth.rs\<close>. The crates hmac and sha2 are the
  parameter \<open>lib\<close>: a code is started with a key, fed with data, and finished or compared with a tag;
  \<open>hmac_laws\<close> is what they document.
\<close>

section \<open>The code\<close>

record 'm hmac_lib =
  mac_new :: "bytes \<Rightarrow> (unit, 'm) result"
  mac_update :: "bytes \<Rightarrow> 'm \<Rightarrow> 'm"
  mac_finalize :: "'m \<Rightarrow> bytes"
  mac_verify_slice :: "bytes \<Rightarrow> 'm \<Rightarrow> (unit, unit) result"

definition hmac_sign :: "'m hmac_lib \<Rightarrow> bytes \<Rightarrow> bytes \<Rightarrow> bytes outcome" where
  "hmac_sign lib key data =
     (case mac_new lib key of
        Err _ \<Rightarrow> Panics
      | Ok mac \<Rightarrow> Returns (mac_finalize lib (mac_update lib data mac)))"

definition hmac_verify :: "'m hmac_lib \<Rightarrow> bytes \<Rightarrow> bytes \<Rightarrow> bytes \<Rightarrow> bool outcome" where
  "hmac_verify lib key data tag =
     (case mac_new lib key of
        Err _ \<Rightarrow> Panics
      | Ok mac \<Rightarrow> Returns (is_ok (mac_verify_slice lib tag (mac_update lib data mac))))"

definition hmac_tag_len :: nat where
  "hmac_tag_len = 32"

section \<open>Lemmas\<close>

text \<open>Keys of any length are accepted, a code has 32 bytes, and a tag is right when it is the code.\<close>

definition hmac_laws :: "'m hmac_lib \<Rightarrow> bool" where
  "hmac_laws lib \<longleftrightarrow>
     (\<forall>key. is_ok (mac_new lib key)) \<and>
     (\<forall>mac. length (mac_finalize lib mac) = 32) \<and>
     (\<forall>tag mac. is_ok (mac_verify_slice lib tag mac) \<longleftrightarrow> tag = mac_finalize lib mac)"

text \<open>
  Neither operation panics; the tag has the announced length, and \<^verbatim>\<open>verify\<close> accepts it and no other. So data or a
  key that were changed pass only if the code itself collides.
\<close>

lemma hmac_sign_verify:
  assumes "hmac_laws lib"
  obtains tag where "hmac_sign lib key data = Returns tag" "length tag = hmac_tag_len"
    "\<And>t. hmac_verify lib key data t = Returns (t = tag)"
    "\<And>key' data'. hmac_verify lib key' data' tag = Returns (hmac_sign lib key' data' = Returns tag)"
proof -
  have new: "\<exists>mac. mac_new lib k = Ok mac" for k
    using assms by (simp add: hmac_laws_def is_ok_iff)
  from new obtain mac where mac: "mac_new lib key = Ok mac" by blast
  let ?tag = "mac_finalize lib (mac_update lib data mac)"
  have "hmac_verify lib key' data' ?tag = Returns (hmac_sign lib key' data' = Returns ?tag)" for key' data'
    using new [of key'] assms by (auto simp: hmac_sign_def hmac_verify_def hmac_laws_def)
  moreover have "hmac_verify lib key data t = Returns (t = ?tag)" for t
    using mac assms by (simp add: hmac_verify_def hmac_laws_def)
  ultimately show thesis
    using that [of ?tag] mac assms by (simp add: hmac_sign_def hmac_laws_def hmac_tag_len_def)
qed

end
