(* ===== verification/Can_Queue.thy ===== *)
theory Can_Queue
  imports Can_Relay "HOL-Library.Sublist"
begin

text \<open>
  The contract of a back-pressured queue, shared by the subscriber queues of \<^verbatim>\<open>src/bus.rs\<close> (frames)
  and the message buffer of \<^verbatim>\<open>src/adapt.rs\<close> (messages). \<open>enqueue_spec\<close> is the abstract effect of a
  push; the locale \<open>policy_queue\<close> states what a provider promises and derives, once for all
  providers, the bound on the length, the order of the elements and the content after a burst.
\<close>

definition enqueue_spec :: "back_pressure \<Rightarrow> nat \<Rightarrow> 'm list \<Rightarrow> 'm \<Rightarrow> 'm list" where
  "enqueue_spec pol cap q m =
     (case pol of
        DropNewest \<Rightarrow> if length q < cap then q @ [m] else q
      | DropOldest \<Rightarrow> if length q < cap then q @ [m] else tl q @ [m]
      | Block \<Rightarrow> q @ [m])"

text \<open>The last \<open>n\<close> elements of a list.\<close>

definition keep_last :: "nat \<Rightarrow> 'm list \<Rightarrow> 'm list" where
  "keep_last n xs = drop (length xs - n) xs"

lemma length_keep_last [simp]: "length (keep_last n xs) = min n (length xs)"
  by (simp add: keep_last_def)

lemma keep_last_small: "length xs \<le> n \<Longrightarrow> keep_last n xs = xs"
  by (simp add: keep_last_def)

lemma keep_last_snoc:
  assumes "0 < n"
  shows "keep_last n (keep_last n xs @ [x]) = keep_last n (xs @ [x])"
proof (cases "length xs < n")
  case True
  then show ?thesis by (simp add: keep_last_def)
next
  case False
  then have "length xs - (length xs - n) = n" "Suc (length xs) - n = Suc (length xs - n)" by simp_all
  then show ?thesis using assms by (simp add: keep_last_def)
qed

lemma enqueue_drop_oldest:
  assumes "0 < n" "length xs \<le> n"
  shows "enqueue_spec DropOldest n xs m = keep_last n (xs @ [m])"
  using assms by (cases xs) (auto simp: enqueue_spec_def keep_last_def)

lemma subseq_keep_last: "subseq (keep_last n xs) xs"
  by (simp add: keep_last_def suffix_drop suffix_imp_subseq)

locale policy_queue =
  fixes push :: "'m \<Rightarrow> 'q \<Rightarrow> 'q"
    and pop :: "'q \<Rightarrow> 'm option \<times> 'q"
    and items :: "'q \<Rightarrow> 'm list"
    and cap :: "'q \<Rightarrow> nat"
    and pol :: "'q \<Rightarrow> back_pressure"
    and ready :: "'q \<Rightarrow> bool"
  assumes items_push: "ready q \<Longrightarrow> items (push m q) = enqueue_spec (pol q) (cap q) (items q) m"
    and push_cap: "ready q \<Longrightarrow> cap (push m q) = cap q"
    and push_pol: "ready q \<Longrightarrow> pol (push m q) = pol q"
    and push_ready: "ready q \<Longrightarrow> ready (push m q)"
    and pop_items: "pop q = (case items q of [] \<Rightarrow> (None, q) | m # ms \<Rightarrow> (Some m, snd (pop q)))"
    and items_pop: "items (snd (pop q)) = tl (items q)"
    and pop_cap: "cap (snd (pop q)) = cap q"
    and pop_pol: "pol (snd (pop q)) = pol q"
    and pop_ready: "ready q \<Longrightarrow> ready (snd (pop q))"
    and ready_cap: "ready q \<Longrightarrow> 0 < cap q"
begin

lemmas push_laws = items_push push_cap push_pol push_ready

lemma push_bounded:
  "ready q \<Longrightarrow> pol q \<noteq> Block \<Longrightarrow> length (items q) \<le> cap q \<Longrightarrow> length (items (push m q)) \<le> cap (push m q)"
  using ready_cap [of q] by (auto simp: push_laws enqueue_spec_def split: back_pressure.splits)

lemma pop_bounded: "length (items q) \<le> cap q \<Longrightarrow> length (items (snd (pop q))) \<le> cap (snd (pop q))"
  by (simp add: items_pop pop_cap)

text \<open>A burst of pushes with nothing popped in between.\<close>

lemma burst_frame:
  "ready q \<Longrightarrow> ready (fold push ms q) \<and> cap (fold push ms q) = cap q \<and> pol (fold push ms q) = pol q"
  by (induction ms arbitrary: q) (simp_all add: push_laws)

lemma burst_drop_newest:
  "ready q \<Longrightarrow> pol q = DropNewest \<Longrightarrow> length (items q) \<le> cap q \<Longrightarrow>
     items (fold push ms q) = take (cap q) (items q @ ms)"
proof (induction ms arbitrary: q)
  case Nil
  then show ?case by simp
next
  case (Cons m ms)
  have "items (fold push ms (push m q)) = take (cap q) (items (push m q) @ ms)"
    using Cons.prems push_bounded [of q m] by (subst Cons.IH) (simp_all add: push_laws)
  with Cons.prems show ?case
    by (cases "length (items q) < cap q") (simp_all add: push_laws enqueue_spec_def)
qed

lemma burst_drop_oldest:
  "ready q \<Longrightarrow> pol q = DropOldest \<Longrightarrow> length (items q) \<le> cap q \<Longrightarrow>
     items (fold push ms q) = keep_last (cap q) (items q @ ms)"
proof (induction ms arbitrary: q rule: rev_induct)
  case Nil
  then show ?case by (simp add: keep_last_small)
next
  case (snoc m ms)
  let ?q = "fold push ms q"
  have q: "ready ?q" "cap ?q = cap q" "pol ?q = DropOldest"
    using burst_frame [OF snoc.prems(1)] snoc.prems(2) by simp_all
  have "items (push m ?q) = keep_last (cap q) (items ?q @ [m])"
    using q ready_cap [OF snoc.prems(1)] snoc.IH [OF snoc.prems]
    by (simp add: items_push enqueue_drop_oldest)
  also have "\<dots> = keep_last (cap q) ((items q @ ms) @ [m])"
    using snoc.IH [OF snoc.prems] ready_cap [OF snoc.prems(1)] by (simp only: keep_last_snoc)
  finally show ?case by simp
qed

lemma burst_block:
  "ready q \<Longrightarrow> pol q = Block \<Longrightarrow> items (fold push ms q) = items q @ ms"
  by (induction ms arbitrary: q) (simp_all add: push_laws enqueue_spec_def)

text \<open>Whatever the policy, a queue never reorders, duplicates or invents an element.\<close>

lemma burst_subseq:
  assumes "ready q" "length (items q) \<le> cap q"
  shows "subseq (items (fold push ms q)) (items q @ ms)"
proof (cases "pol q")
  case DropNewest
  then show ?thesis using assms by (simp only: burst_drop_newest) (simp add: prefix_imp_subseq take_is_prefix del: take_append)
next
  case DropOldest
  then show ?thesis using assms by (simp only: burst_drop_oldest subseq_keep_last)
next
  case Block
  then show ?thesis using assms by (simp only: burst_block subseq_order.order_refl)
qed

text \<open>Draining returns the elements in order.\<close>

lemma pop_Cons: "items q = m # ms \<Longrightarrow> fst (pop q) = Some m \<and> items (snd (pop q)) = ms"
  using pop_items [of q] items_pop [of q] by (simp add: prod_eq_iff)

lemma pop_Nil: "items q = [] \<Longrightarrow> pop q = (None, q)"
  using pop_items [of q] by simp

end

end
