(* ===== verification/Can_Bus.thy ===== *)
theory Can_Bus
  imports Can_Queue Can_Frame
begin

text \<open>
  The subscriber queue \<^verbatim>\<open>SubInner\<close> and the \<^verbatim>\<open>FrameReceiver\<close> of \<^verbatim>\<open>src/bus.rs\<close>. Every operation of the
  source runs under the queue's own mutex (and the rate state's), so it is one change of the record
  \<open>sub_inner\<close>. \<^verbatim>\<open>Instant::now()\<close> is an argument. \<open>recv_poll\<close> is one pass of the loop of \<^verbatim>\<open>FrameReceiver::recv\<close>
  up to the point where it waits for a wake-up by \<^verbatim>\<open>Notify\<close>; the wake-ups are in \<open>Can_Receiver_Steps\<close>.
\<close>

section \<open>The code\<close>

definition NANOS_PER_SEC :: nat where
  "NANOS_PER_SEC = 1000000000"

record sub_inner =
  si_queue :: "frame list"
  si_capacity :: nat
  si_policy :: back_pressure
  si_closed :: bool
  si_rate_limit :: u32
  si_window_start :: nat
  si_count :: u32

definition sub_new :: "nat \<Rightarrow> nat \<Rightarrow> back_pressure \<Rightarrow> u32 \<Rightarrow> sub_inner" where
  "sub_new now capacity policy rate_limit =
     \<lparr>si_queue = [], si_capacity = capacity, si_policy = policy, si_closed = False,
      si_rate_limit = rate_limit, si_window_start = now, si_count = 0\<rparr>"

text \<open>The rate-limit check at the head of \<^verbatim>\<open>push\<close>: whether the frame may pass, and the new rate state.\<close>

definition rate_admit :: "nat \<Rightarrow> sub_inner \<Rightarrow> bool \<times> sub_inner" where
  "rate_admit now s =
     (if si_rate_limit s > 0 then
        let s = (if (now - si_window_start s) div NANOS_PER_SEC \<ge> 1
                 then s\<lparr>si_window_start := now, si_count := 0\<rparr> else s)
        in if si_count s \<ge> si_rate_limit s then (False, s)
           else (True, s\<lparr>si_count := si_count s + 1\<rparr>)
      else (True, s))"

definition sub_push :: "nat \<Rightarrow> frame \<Rightarrow> sub_inner \<Rightarrow> bool \<times> sub_inner" where
  "sub_push now frame s =
     (let (admitted, s) = rate_admit now s
      in if \<not> admitted then (False, s)
         else case si_policy s of
           DropNewest \<Rightarrow>
             if length (si_queue s) \<ge> si_capacity s then (False, s)
             else (True, s\<lparr>si_queue := si_queue s @ [frame]\<rparr>)
         | DropOldest \<Rightarrow>
             let q = (if length (si_queue s) \<ge> si_capacity s then tl (si_queue s) else si_queue s)
             in (True, s\<lparr>si_queue := q @ [frame]\<rparr>)
         | Block \<Rightarrow> (True, s\<lparr>si_queue := si_queue s @ [frame]\<rparr>))"

definition sub_pop :: "sub_inner \<Rightarrow> frame option \<times> sub_inner" where
  "sub_pop s = (case si_queue s of [] \<Rightarrow> (None, s) | f # fs \<Rightarrow> (Some f, s\<lparr>si_queue := fs\<rparr>))"

definition sub_is_empty :: "sub_inner \<Rightarrow> bool" where
  "sub_is_empty s \<longleftrightarrow> si_queue s = []"

definition sub_close :: "sub_inner \<Rightarrow> sub_inner" where
  "sub_close s = s\<lparr>si_closed := True\<rparr>"

datatype 'a poll = Pending | Ready 'a

definition recv_poll :: "sub_inner \<Rightarrow> frame option poll \<times> sub_inner" where
  "recv_poll s =
     (case sub_pop s of
        (Some f, s) \<Rightarrow> (Ready (Some f), s)
      | (None, s) \<Rightarrow>
          if si_closed s then (let (r, s) = sub_pop s in (Ready r, s))
          else (Pending, s))"

definition receiver_close :: "sub_inner \<Rightarrow> sub_inner" where
  "receiver_close s = sub_close s"

section \<open>One operation\<close>

lemma rate_admit_frame [simp]:
  "si_queue (snd (rate_admit t s)) = si_queue s" "si_capacity (snd (rate_admit t s)) = si_capacity s"
  "si_policy (snd (rate_admit t s)) = si_policy s" "si_closed (snd (rate_admit t s)) = si_closed s"
  "si_rate_limit (snd (rate_admit t s)) = si_rate_limit s"
  by (simp_all add: rate_admit_def Let_def)

lemma rate_admit_unlimited [simp]: "si_rate_limit s = 0 \<Longrightarrow> rate_admit t s = (True, s)"
  by (simp add: rate_admit_def)

lemma sub_push_alt:
  "sub_push t f s =
     (let (ok, s') = rate_admit t s
      in if \<not> ok \<or> si_policy s = DropNewest \<and> si_capacity s \<le> length (si_queue s) then (False, s')
         else (True, s'\<lparr>si_queue := enqueue_spec (si_policy s) (si_capacity s) (si_queue s) f\<rparr>))"
  using rate_admit_frame [of t s]
  by (cases "rate_admit t s") (auto simp: sub_push_def enqueue_spec_def split: back_pressure.splits)

lemma sub_push_frame [simp]:
  "si_capacity (snd (sub_push t f s)) = si_capacity s" "si_policy (snd (sub_push t f s)) = si_policy s"
  "si_closed (snd (sub_push t f s)) = si_closed s" "si_rate_limit (snd (sub_push t f s)) = si_rate_limit s"
  using rate_admit_frame [of t s] by (simp_all add: sub_push_alt case_prod_unfold Let_def)

text \<open>The result of a push says whether the frame is now the last one of the queue.\<close>

lemma sub_push_rejected: "\<not> fst (sub_push t f s) \<Longrightarrow> si_queue (snd (sub_push t f s)) = si_queue s"
  by (auto simp: sub_push_alt case_prod_unfold Let_def split: if_splits)

lemma sub_push_accepted:
  assumes "fst (sub_push t f s)"
  shows "\<exists>q. si_queue (snd (sub_push t f s)) = q @ [f] \<and>
    (q = si_queue s \<or> si_policy s = DropOldest \<and> si_capacity s \<le> length (si_queue s) \<and> q = tl (si_queue s))"
  using assms
  by (auto simp: sub_push_alt case_prod_unfold Let_def enqueue_spec_def split: back_pressure.splits if_splits)

lemma sub_pop_frame [simp]:
  "si_capacity (snd (sub_pop s)) = si_capacity s" "si_policy (snd (sub_pop s)) = si_policy s"
  "si_closed (snd (sub_pop s)) = si_closed s" "si_rate_limit (snd (sub_pop s)) = si_rate_limit s"
  "si_queue (snd (sub_pop s)) = tl (si_queue s)"
  by (simp_all add: sub_pop_def split: list.splits)

lemma recv_poll_eq:
  "recv_poll s = (case si_queue s of
      f # fs \<Rightarrow> (Ready (Some f), s\<lparr>si_queue := fs\<rparr>)
    | [] \<Rightarrow> (if si_closed s then Ready None else Pending, s))"
  by (simp add: recv_poll_def sub_pop_def split: list.splits)

lemma sub_close_simps [simp]:
  "si_closed (sub_close s)" "si_queue (sub_close s) = si_queue s" "si_capacity (sub_close s) = si_capacity s"
  "si_policy (sub_close s) = si_policy s" "si_rate_limit (sub_close s) = si_rate_limit s"
  by (simp_all add: sub_close_def)

section \<open>The queue contract\<close>

definition unlimited :: "sub_inner \<Rightarrow> bool" where
  "unlimited s \<longleftrightarrow> si_rate_limit s = 0 \<and> 0 < si_capacity s"

lemma sub_push_unlimited:
  assumes "unlimited s"
  shows "si_queue (snd (sub_push t f s)) = enqueue_spec (si_policy s) (si_capacity s) (si_queue s) f"
    and "unlimited (snd (sub_push t f s))"
  using assms
  by (auto simp: unlimited_def sub_push_alt enqueue_spec_def split: back_pressure.splits)

interpretation subq: policy_queue "\<lambda>f s. snd (sub_push t f s)" sub_pop si_queue si_capacity si_policy unlimited
  for t
  by unfold_locales
    (auto simp: sub_push_unlimited sub_pop_def unlimited_def split: list.splits)

section \<open>Runs of pushes and receives\<close>

fun push_run :: "(nat \<times> frame) list \<Rightarrow> sub_inner \<Rightarrow> bool list \<times> sub_inner" where
  "push_run [] s = ([], s)"
| "push_run ((t, f) # ps) s =
     (let (ok, s') = sub_push t f s; (oks, s'') = push_run ps s' in (ok # oks, s''))"

fun recv_run :: "nat \<Rightarrow> sub_inner \<Rightarrow> frame option poll list" where
  "recv_run 0 s = []"
| "recv_run (Suc n) s = (let (r, s') = recv_poll s in r # recv_run n s')"

lemma sub_push_time: "unlimited s \<Longrightarrow> sub_push t f s = sub_push t' f s"
  by (simp add: sub_push_def unlimited_def)

lemma push_run_unlimited:
  "unlimited s \<Longrightarrow> snd (push_run ps s) = fold (\<lambda>f s. snd (sub_push 0 f s)) (map snd ps) s"
proof (induction ps arbitrary: s)
  case (Cons p ps)
  obtain t f where p: "p = (t, f)" by (cases p)
  show ?case
    using Cons.IH [OF sub_push_unlimited(2) [OF Cons.prems]] sub_push_time [OF Cons.prems, of t f 0]
    by (simp add: p case_prod_unfold Let_def)
qed simp

lemma recv_run_stable:
  "si_queue s = [] \<Longrightarrow> recv_run n s = replicate n (if si_closed s then Ready None else Pending)"
  by (induction n) (simp_all add: recv_poll_eq)

definition accepted :: "bool list \<Rightarrow> nat" where
  "accepted oks = length (filter (\<lambda>ok. ok) oks)"

lemma accepted_simps [simp]: "accepted [] = 0" "accepted (ok # oks) = (if ok then 1 else 0) + accepted oks"
  by (simp_all add: accepted_def)

definition rate_ok :: "sub_inner \<Rightarrow> bool" where
  "rate_ok s \<longleftrightarrow> 0 < si_rate_limit s \<and> si_count s \<le> si_rate_limit s"

text \<open>A push inside the current window counts, and one behind it opens a new window.\<close>

lemma unat_succ:
  assumes "(c :: u32) < l"
  shows "unat (c + 1) = Suc (unat c)" and "c + 1 \<le> l"
proof -
  have "Suc (unat c) \<le> unat l" "unat l < 2 ^ 32"
    using assms unat_less [of l] by (simp_all add: word_less_nat_alt Suc_le_eq)
  then show "unat (c + 1) = Suc (unat c)" by (simp add: unat_word_ariths)
  with \<open>Suc (unat c) \<le> unat l\<close> show "c + 1 \<le> l" by (simp add: word_le_nat_alt)
qed

lemma sub_push_rate_state:
  "si_count (snd (sub_push t f s)) = si_count (snd (rate_admit t s))"
  "si_window_start (snd (sub_push t f s)) = si_window_start (snd (rate_admit t s))"
  "fst (sub_push t f s) \<Longrightarrow> fst (rate_admit t s)"
  by (simp_all add: sub_push_alt case_prod_unfold Let_def split: if_splits)

lemma window_over_iff: "(now - start) div NANOS_PER_SEC \<ge> 1 \<longleftrightarrow> start + NANOS_PER_SEC \<le> now"
  using div_greater_zero_iff [of "now - start" NANOS_PER_SEC] by (auto simp: NANOS_PER_SEC_def)

lemma rate_admit_in_window:
  assumes "rate_ok s" "t < si_window_start s + NANOS_PER_SEC"
  shows "si_window_start (snd (rate_admit t s)) = si_window_start s"
    and "unat (si_count (snd (rate_admit t s))) = unat (si_count s) + (if fst (rate_admit t s) then 1 else 0)"
    and "si_count (snd (rate_admit t s)) \<le> si_rate_limit s"
    and "fst (rate_admit t s) \<longleftrightarrow> si_count s < si_rate_limit s"
  using assms window_over_iff [of t "si_window_start s"] unat_succ [of "si_count s" "si_rate_limit s"]
  by (auto simp: rate_admit_def rate_ok_def Let_def not_le)

lemma rate_admit_new_window:
  assumes "rate_ok s" "si_window_start s + NANOS_PER_SEC \<le> t"
  shows "si_window_start (snd (rate_admit t s)) = t" and "unat (si_count (snd (rate_admit t s))) = 1"
    and "si_count (snd (rate_admit t s)) \<le> si_rate_limit s" and "fst (rate_admit t s)"
  using assms window_over_iff [of t "si_window_start s"] unat_succ [of 0 "si_rate_limit s"]
  by (auto simp: rate_admit_def rate_ok_def Let_def)

lemma sub_push_rate_ok: "rate_ok s \<Longrightarrow> rate_ok (snd (sub_push t f s))"
  using rate_admit_in_window [of s t] rate_admit_new_window [of s t]
  by (cases "t < si_window_start s + NANOS_PER_SEC") (auto simp: rate_ok_def sub_push_rate_state)

text \<open>Pushes that all fall into the current window: what is left of the limit bounds them.\<close>

lemma push_run_in_window:
  "rate_ok s \<Longrightarrow> \<forall>(t, f) \<in> set ps. t < si_window_start s + NANOS_PER_SEC \<Longrightarrow>
     accepted (fst (push_run ps s)) + unat (si_count s) \<le> unat (si_rate_limit s)"
proof (induction ps arbitrary: s)
  case Nil
  then show ?case by (simp add: rate_ok_def word_le_nat_alt)
next
  case (Cons p ps)
  obtain t f where p: "p = (t, f)" by (cases p)
  have t: "t < si_window_start s + NANOS_PER_SEC" using Cons.prems p by simp
  note adm = rate_admit_in_window [OF Cons.prems(1) t]
  have "accepted (fst (push_run ps (snd (sub_push t f s)))) + unat (si_count (snd (sub_push t f s)))
      \<le> unat (si_rate_limit s)"
    using Cons.IH [OF sub_push_rate_ok [OF Cons.prems(1)], of t f] Cons.prems(2)
    by (simp add: sub_push_rate_state adm(1))
  then show ?case
    using adm(2) sub_push_rate_state(3) [of t f s] sub_push_rate_state(1) [of t f s]
    by (auto simp: p case_prod_unfold Let_def)
qed

text \<open>Pushes inside any interval of one second: at most one new window opens.\<close>

lemma push_run_one_second:
  "rate_ok s \<Longrightarrow> \<forall>(t, f) \<in> set ps. a \<le> t \<and> t < a + NANOS_PER_SEC \<Longrightarrow>
     accepted (fst (push_run ps s)) + unat (si_count s) \<le> 2 * unat (si_rate_limit s)"
proof (induction ps arbitrary: s)
  case Nil
  then have "unat (si_count s) \<le> unat (si_rate_limit s)" by (simp add: rate_ok_def word_le_nat_alt)
  then show ?case by simp
next
  case (Cons p ps)
  obtain t f where p: "p = (t, f)" by (cases p)
  let ?s = "snd (sub_push t f s)"
  have ok: "rate_ok ?s" by (rule sub_push_rate_ok [OF Cons.prems(1)])
  have rest: "\<forall>(t, f) \<in> set ps. a \<le> t \<and> t < a + NANOS_PER_SEC" using Cons.prems(2) by simp
  show ?case
  proof (cases "t < si_window_start s + NANOS_PER_SEC")
    case True
    note adm = rate_admit_in_window [OF Cons.prems(1) True]
    from Cons.IH [OF ok rest] adm(2) sub_push_rate_state(3) [of t f s] sub_push_rate_state(1) [of t f s]
    show ?thesis by (auto simp: p case_prod_unfold Let_def)
  next
    case False
    then have new: "si_window_start s + NANOS_PER_SEC \<le> t" by simp
    note adm = rate_admit_new_window [OF Cons.prems(1) new]
    have "\<forall>(u, f) \<in> set ps. u < si_window_start ?s + NANOS_PER_SEC"
      using rest Cons.prems(2) by (auto simp: p sub_push_rate_state adm(1))
    from push_run_in_window [OF ok this]
    have "accepted (fst (push_run ps ?s)) + 1 \<le> unat (si_rate_limit s)"
      by (simp add: sub_push_rate_state adm(2))
    moreover have "unat (si_count s) \<le> unat (si_rate_limit s)"
      using Cons.prems(1) by (simp add: rate_ok_def word_le_nat_alt)
    ultimately show ?thesis by (simp add: p case_prod_unfold Let_def)
  qed
qed

text \<open>A queue that drops nothing for lack of space accepts a burst as long as the limit lasts.\<close>

lemma push_run_append:
  "push_run (ps @ qs) s =
     (fst (push_run ps s) @ fst (push_run qs (snd (push_run ps s))), snd (push_run qs (snd (push_run ps s))))"
  by (induction ps arbitrary: s) (auto simp: case_prod_unfold Let_def)

lemma accepted_append [simp]: "accepted (xs @ ys) = accepted xs + accepted ys"
  by (simp add: accepted_def)

lemma sub_push_block: "si_policy s = Block \<Longrightarrow> fst (sub_push t f s) = fst (rate_admit t s)"
  by (simp add: sub_push_alt case_prod_unfold Let_def)

lemma push_run_fill:
  assumes "rate_ok s" "si_policy s = Block" "t < si_window_start s + NANOS_PER_SEC"
    and "unat (si_count s) + n \<le> unat (si_rate_limit s)"
  shows "accepted (fst (push_run (replicate n (t, f)) s)) = n \<and>
    rate_ok (snd (push_run (replicate n (t, f)) s)) \<and>
    si_window_start (snd (push_run (replicate n (t, f)) s)) = si_window_start s \<and>
    si_policy (snd (push_run (replicate n (t, f)) s)) = Block \<and>
    si_rate_limit (snd (push_run (replicate n (t, f)) s)) = si_rate_limit s"
  using assms
proof (induction n arbitrary: s)
  case (Suc n)
  note adm = rate_admit_in_window [OF Suc.prems(1,3)]
  have "fst (rate_admit t s)" using adm(4) Suc.prems(4) by (simp add: word_less_nat_alt)
  then show ?case
    using Suc.IH [of "snd (sub_push t f s)"] Suc.prems adm sub_push_rate_ok [OF Suc.prems(1), of t f]
    by (simp add: sub_push_block sub_push_rate_state case_prod_unfold Let_def)
qed simp

lemma push_run_fill_new_window:
  assumes "rate_ok s" "si_policy s = Block" "si_window_start s + NANOS_PER_SEC \<le> t"
    and "n = unat (si_rate_limit s)"
  shows "accepted (fst (push_run (replicate n (t, f)) s)) = n"
proof -
  note adm = rate_admit_new_window [OF assms(1,3)]
  have "0 < n" using assms(1,4) by (simp add: rate_ok_def word_less_nat_alt)
  then obtain m where n: "n = Suc m" using gr0_implies_Suc by blast
  have "accepted (fst (push_run (replicate m (t, f)) (snd (sub_push t f s)))) = m"
    using push_run_fill [of "snd (sub_push t f s)" t m f] assms adm n sub_push_rate_ok [OF assms(1), of t f]
    by (simp add: sub_push_rate_state NANOS_PER_SEC_def)
  then show ?thesis using adm(4) assms(2)
    by (simp add: n sub_push_block case_prod_unfold Let_def)
qed

section \<open>Properties\<close>

text \<open>
  C22: What a subscriber queue without rate limit, filled at most to its capacity, holds after any burst of pushes, at whatever times:
  with \<open>DropNewest\<close> the first frames up to the capacity, with \<open>DropOldest\<close> the last ones up to the
  capacity, with \<open>Block\<close> all of them, always in the order of arrival. (The documentation of \<open>Block\<close> in
  \<^verbatim>\<open>relay.rs\<close> says that it waits until space is available; the code does not wait, and its queue grows past the capacity.)
\<close>

theorem sub_push_burst:
  assumes "si_rate_limit s = 0" "0 < si_capacity s" "length (si_queue s) \<le> si_capacity s"
  shows "si_queue (snd (push_run ps s)) =
    (case si_policy s of
       DropNewest \<Rightarrow> take (si_capacity s) (si_queue s @ map snd ps)
     | DropOldest \<Rightarrow> keep_last (si_capacity s) (si_queue s @ map snd ps)
     | Block \<Rightarrow> si_queue s @ map snd ps)"
proof -
  have u: "unlimited s" using assms by (simp add: unlimited_def)
  show ?thesis
    using u assms(3) push_run_unlimited [OF u] subq.burst_drop_newest [OF u] subq.burst_drop_oldest [OF u]
      subq.burst_block [OF u]
    by (simp split: back_pressure.splits)
qed

theorem sub_push_burst_witness:
  "map f_id (si_queue (snd (push_run
     [(0, default_frame\<lparr>f_id := 1\<rparr>), (5, default_frame\<lparr>f_id := 2\<rparr>), (9, default_frame\<lparr>f_id := 3\<rparr>)]
     (sub_new 0 2 DropOldest 0)))) = [2, 3]"
  by (subst sub_push_burst) (simp_all add: sub_new_def keep_last_def)

text \<open>
  Receiving drains a subscriber queue in order; when it is empty, every further attempt waits while
  the queue is open and reports the end of the stream once it is closed, so closing loses no frame
  that was queued.
\<close>

theorem recv_drains:
  "recv_run (length (si_queue s) + n) s =
     map (\<lambda>f. Ready (Some f)) (si_queue s) @ replicate n (if si_closed s then Ready None else Pending)"
proof (induction "si_queue s" arbitrary: s)
  case Nil
  then show ?case using recv_run_stable [of s n] by simp
next
  case (Cons f fs)
  from Cons.hyps(1) [of "s\<lparr>si_queue := fs\<rparr>"] Cons.hyps(2) [symmetric] show ?case
    by (simp add: recv_poll_eq)
qed

text \<open>
  C23: A rate-limited subscriber accepts at most twice its limit within any interval of one second,
  whatever its policy and whatever happened before.
\<close>

theorem rate_limit_bound:
  assumes "0 < si_rate_limit s" "si_count s \<le> si_rate_limit s"
    and "\<forall>(t, f) \<in> set ps. a \<le> t \<and> t < a + NANOS_PER_SEC"
  shows "accepted (fst (push_run ps s)) \<le> 2 * unat (si_rate_limit s)"
  using push_run_one_second [of s ps a] assms by (simp add: rate_ok_def)

theorem rate_limit_bound_witness:
  "accepted (fst (push_run [(3, default_frame), (4, default_frame), (5, default_frame)] (sub_new 0 8 DropNewest 1))) \<le> 2"
  using rate_limit_bound [of "sub_new 0 8 DropNewest 1" "[(3, default_frame), (4, default_frame), (5, default_frame)]" 0]
  by (simp add: sub_new_def NANOS_PER_SEC_def)

text \<open>
  The bound of twice the limit is reached: for every limit there are pushes within two neighbouring
  nanoseconds of which twice the limit are accepted, because the window restarts as a whole instead of
  sliding.
\<close>

theorem rate_limit_bound_reached:
  assumes "0 < limit"
  shows "let n = unat limit;
             ps = replicate n (NANOS_PER_SEC - 1, f) @ replicate n (NANOS_PER_SEC, f)
         in accepted (fst (push_run ps (sub_new 0 depth Block limit))) = 2 * unat limit"
proof -
  let ?s = "sub_new 0 depth Block limit" and ?n = "unat limit"
  have s: "rate_ok ?s" "si_policy ?s = Block" "si_window_start ?s = 0" "si_rate_limit ?s = limit"
      "si_count ?s = 0"
    using assms by (simp_all add: sub_new_def rate_ok_def)
  note fill = push_run_fill [OF s(1,2), of "NANOS_PER_SEC - 1" ?n f]
  have "accepted (fst (push_run (replicate ?n (NANOS_PER_SEC, f))
      (snd (push_run (replicate ?n (NANOS_PER_SEC - 1, f)) ?s)))) = ?n"
    using fill s by (intro push_run_fill_new_window) (simp_all add: NANOS_PER_SEC_def)
  then show ?thesis
    using fill s by (simp add: push_run_append NANOS_PER_SEC_def Let_def)
qed

theorem rate_limit_bound_reached_witness:
  "accepted (fst (push_run [(999999999, default_frame), (1000000000, default_frame)] (sub_new 0 8 Block 1))) = 2"
  using rate_limit_bound_reached [of 1 default_frame 8] by (simp add: NANOS_PER_SEC_def)

end
