(* ===== verification/Can_Receiver_Steps.thy ===== *)
theory Can_Receiver_Steps
  imports Can_Bus
begin

text \<open>
  \<^verbatim>\<open>FrameReceiver::recv\<close> against the pushes and the \<^verbatim>\<open>close\<close> of other threads (\<^verbatim>\<open>src/bus.rs\<close>), step by step:
  every critical section of the queue's mutex and every access of the closed flag and of the \<^verbatim>\<open>Notify\<close> outside of one is a
  step of its own (\<^verbatim>\<open>push\<close> notifies while it holds the mutex). One task receives; any number of tasks push and close. \<^verbatim>\<open>tokio::sync::Notify\<close> is the parameter \<open>nt\<close>, with
  its documented behaviour as \<open>notify_laws\<close>.
\<close>

section \<open>The code\<close>

text \<open>What a \<^verbatim>\<open>Notify\<close> with one waiting task shows: whether it holds a permit, and the state of the task.\<close>

datatype waiter = No_task | Waiting_task | Woken_task

record 'n notify =
  nt_new :: 'n
  nt_one :: "'n \<Rightarrow> 'n"
  nt_waiters :: "'n \<Rightarrow> 'n"
  nt_wait :: "'n \<Rightarrow> 'n"
  nt_resume :: "'n \<Rightarrow> 'n"
  nt_permit :: "'n \<Rightarrow> bool"
  nt_task :: "'n \<Rightarrow> waiter"

datatype recv_pc =
    Pop_next
  | Load_closed
  | Final_pop
  | Await_notify
  | Asleep
  | Got "frame option"

text \<open>\<open>rx_closers\<close> counts the calls of \<^verbatim>\<open>close\<close> that have stored the flag and not yet notified.\<close>

record 'n rx_state =
  rx_sub :: sub_inner
  rx_notify :: 'n
  rx_pc :: recv_pc
  rx_closers :: nat

definition rx_init :: "'n notify \<Rightarrow> sub_inner \<Rightarrow> 'n rx_state" where
  "rx_init nt s = \<lparr>rx_sub = s, rx_notify = nt_new nt, rx_pc = Pop_next, rx_closers = 0\<rparr>"

text \<open>The next step of the receiving task; none while it sleeps, or when no call is running.\<close>

definition rx_step :: "'n notify \<Rightarrow> 'n rx_state \<Rightarrow> 'n rx_state option" where
  "rx_step nt s =
     (case rx_pc s of
        Pop_next \<Rightarrow>
          (case sub_pop (rx_sub s) of
             (Some f, q) \<Rightarrow> Some (s\<lparr>rx_sub := q, rx_pc := Got (Some f)\<rparr>)
           | (None, q) \<Rightarrow> Some (s\<lparr>rx_sub := q, rx_pc := Load_closed\<rparr>))
      | Load_closed \<Rightarrow> Some (s\<lparr>rx_pc := if si_closed (rx_sub s) then Final_pop else Await_notify\<rparr>)
      | Final_pop \<Rightarrow> (let (r, q) = sub_pop (rx_sub s) in Some (s\<lparr>rx_sub := q, rx_pc := Got r\<rparr>))
      | Await_notify \<Rightarrow> Some (s\<lparr>rx_notify := nt_wait nt (rx_notify s), rx_pc := Asleep\<rparr>)
      | Asleep \<Rightarrow>
          (if nt_task nt (rx_notify s) = Woken_task
           then Some (s\<lparr>rx_notify := nt_resume nt (rx_notify s), rx_pc := Pop_next\<rparr>) else None)
      | Got r \<Rightarrow> None)"

definition push_step :: "'n notify \<Rightarrow> nat \<Rightarrow> frame \<Rightarrow> 'n rx_state \<Rightarrow> 'n rx_state" where
  "push_step nt t f s =
     (let (ok, q) = sub_push t f (rx_sub s)
      in s\<lparr>rx_sub := q, rx_notify := if ok then nt_one nt (rx_notify s) else rx_notify s\<rparr>)"

text \<open>The two halves of \<^verbatim>\<open>SubInner::close\<close>.\<close>

definition close_store :: "'n rx_state \<Rightarrow> 'n rx_state" where
  "close_store s = s\<lparr>rx_sub := sub_close (rx_sub s), rx_closers := rx_closers s + 1\<rparr>"

definition close_notify :: "'n notify \<Rightarrow> 'n rx_state \<Rightarrow> 'n rx_state" where
  "close_notify nt s = s\<lparr>rx_notify := nt_waiters nt (rx_notify s), rx_closers := rx_closers s - 1\<rparr>"

datatype rx_label = Receive | Call_recv | Push nat frame | Close_store | Close_notify

inductive rx_move :: "'n notify \<Rightarrow> 'n rx_state \<Rightarrow> rx_label \<Rightarrow> 'n rx_state \<Rightarrow> bool" for nt where
  receive: "rx_step nt s = Some s' \<Longrightarrow> rx_move nt s Receive s'"
| call_recv: "rx_pc s = Got r \<Longrightarrow> rx_move nt s Call_recv (s\<lparr>rx_pc := Pop_next\<rparr>)"
| push: "rx_move nt s (Push t f) (push_step nt t f s)"
| store: "rx_move nt s Close_store (close_store s)"
| notify: "rx_closers s > 0 \<Longrightarrow> rx_move nt s Close_notify (close_notify nt s)"

inductive rx_run :: "'n notify \<Rightarrow> 'n rx_state \<Rightarrow> rx_label list \<Rightarrow> 'n rx_state \<Rightarrow> bool" for nt where
  nothing: "rx_run nt s [] s"
| more: "rx_move nt s l s' \<Longrightarrow> rx_run nt s' ls s'' \<Longrightarrow> rx_run nt s (l # ls) s''"

text \<open>The steps as a function, to run a given interleaving.\<close>

fun rx_do :: "'n notify \<Rightarrow> rx_label \<Rightarrow> 'n rx_state \<Rightarrow> 'n rx_state option" where
  "rx_do nt Receive s = rx_step nt s"
| "rx_do nt Call_recv s = (case rx_pc s of Got r \<Rightarrow> Some (s\<lparr>rx_pc := Pop_next\<rparr>) | _ \<Rightarrow> None)"
| "rx_do nt (Push t f) s = Some (push_step nt t f s)"
| "rx_do nt Close_store s = Some (close_store s)"
| "rx_do nt Close_notify s = (if rx_closers s > 0 then Some (close_notify nt s) else None)"

fun rx_exec :: "'n notify \<Rightarrow> rx_label list \<Rightarrow> 'n rx_state \<Rightarrow> 'n rx_state option" where
  "rx_exec nt [] s = Some s"
| "rx_exec nt (l # ls) s = (case rx_do nt l s of None \<Rightarrow> None | Some s' \<Rightarrow> rx_exec nt ls s')"

lemma rx_move_do: "rx_move nt s l s' \<longleftrightarrow> rx_do nt l s = Some s'"
  by (cases l) (auto simp: rx_move.simps split: recv_pc.splits)

lemma rx_run_exec: "rx_exec nt ls s = Some s' \<Longrightarrow> rx_run nt s ls s'"
  by (induction ls arbitrary: s) (auto intro: rx_run.intros simp: rx_move_do split: option.splits)

text \<open>The receiving task alone, for up to \<open>k\<close> steps.\<close>

fun rx_alone :: "'n notify \<Rightarrow> nat \<Rightarrow> 'n rx_state \<Rightarrow> 'n rx_state" where
  "rx_alone nt 0 s = s"
| "rx_alone nt (Suc k) s = (case rx_step nt s of None \<Rightarrow> s | Some s' \<Rightarrow> rx_alone nt k s')"

section \<open>What \<^verbatim>\<open>Notify\<close> promises\<close>

text \<open>
  The documentation of tokio: \<^verbatim>\<open>notify_one\<close> wakes the waiting task, or stores one permit when none waits,
  so that the next \<^verbatim>\<open>notified().await\<close> completes at once and consumes it; \<^verbatim>\<open>notify_waiters\<close> wakes the task that
  waits and stores no permit.
\<close>

definition notify_laws :: "'n notify \<Rightarrow> bool" where
  "notify_laws nt \<longleftrightarrow>
     \<not> nt_permit nt (nt_new nt) \<and> nt_task nt (nt_new nt) = No_task \<and>
     (\<forall>n. nt_task nt (nt_one nt n) = (if nt_task nt n = Waiting_task then Woken_task else nt_task nt n) \<and>
          nt_permit nt (nt_one nt n) = (nt_permit nt n \<or> nt_task nt n \<noteq> Waiting_task)) \<and>
     (\<forall>n. nt_task nt (nt_waiters nt n) = (if nt_task nt n = Waiting_task then Woken_task else nt_task nt n) \<and>
          nt_permit nt (nt_waiters nt n) = nt_permit nt n) \<and>
     (\<forall>n. nt_task nt (nt_wait nt n) = (if nt_permit nt n then Woken_task else Waiting_task) \<and>
          \<not> nt_permit nt (nt_wait nt n)) \<and>
     (\<forall>n. nt_task nt (nt_resume nt n) = No_task \<and> nt_permit nt (nt_resume nt n) = nt_permit nt n)"

lemma notify_laws_simps:
  assumes "notify_laws nt"
  shows "\<not> nt_permit nt (nt_new nt)" "nt_task nt (nt_new nt) = No_task"
    "nt_task nt (nt_one nt n) = (if nt_task nt n = Waiting_task then Woken_task else nt_task nt n)"
    "nt_permit nt (nt_one nt n) = (nt_permit nt n \<or> nt_task nt n \<noteq> Waiting_task)"
    "nt_task nt (nt_waiters nt n) = (if nt_task nt n = Waiting_task then Woken_task else nt_task nt n)"
    "nt_permit nt (nt_waiters nt n) = nt_permit nt n"
    "nt_task nt (nt_wait nt n) = (if nt_permit nt n then Woken_task else Waiting_task)"
    "\<not> nt_permit nt (nt_wait nt n)"
    "nt_task nt (nt_resume nt n) = No_task" "nt_permit nt (nt_resume nt n) = nt_permit nt n"
  using assms by (simp_all add: notify_laws_def)

section \<open>The invariant\<close>

text \<open>
  The task is registered exactly while it sleeps; between its look at the queue and its sleep a frame in
  the queue has left a permit; and it never sleeps unwoken beside a frame.
\<close>

definition rx_inv :: "'n notify \<Rightarrow> 'n rx_state \<Rightarrow> bool" where
  "rx_inv nt s \<longleftrightarrow>
     (rx_pc s = Asleep \<longleftrightarrow> nt_task nt (rx_notify s) \<noteq> No_task) \<and>
     (rx_pc s \<in> {Load_closed, Await_notify} \<and> si_queue (rx_sub s) \<noteq> [] \<longrightarrow> nt_permit nt (rx_notify s)) \<and>
     (nt_task nt (rx_notify s) = Waiting_task \<longrightarrow> si_queue (rx_sub s) = [])"

lemma sub_pop_None: "sub_pop s = (None, q) \<Longrightarrow> si_queue s = [] \<and> q = s"
  by (auto simp: sub_pop_def split: list.splits)

lemma sub_pop_Some: "sub_pop s = (Some f, q) \<Longrightarrow> si_queue s = f # si_queue q"
  by (auto simp: sub_pop_def split: list.splits)

lemma sub_push_refused: "sub_push t f s = (False, q) \<Longrightarrow> si_queue q = si_queue s"
  by (auto simp: sub_push_def rate_admit_def Let_def split: back_pressure.splits if_splits prod.splits)

lemma rx_inv_step:
  assumes laws: "notify_laws nt" and "rx_inv nt s" "rx_move nt s l s'"
  shows "rx_inv nt s'"
  using assms(3,2)
proof (cases rule: rx_move.cases)
  case receive
  then show ?thesis
    using assms(2) notify_laws_simps [OF laws]
    by (cases "rx_pc s")
      (auto simp: rx_inv_def rx_step_def Let_def split: prod.splits option.splits if_splits dest!: sub_pop_None)
next
  case (push t f)
  obtain ok q where "sub_push t f (rx_sub s) = (ok, q)" by fastforce
  with push assms(2) notify_laws_simps [OF laws] sub_push_refused [of t f "rx_sub s" q] show ?thesis
    by (cases ok; cases "nt_task nt (rx_notify s)") (auto simp: rx_inv_def push_step_def)
qed (use assms(2) notify_laws_simps [OF laws] in \<open>auto simp: rx_inv_def close_store_def close_notify_def split: if_splits\<close>)

lemma rx_inv_run: "rx_run nt s ls s' \<Longrightarrow> notify_laws nt \<Longrightarrow> rx_inv nt s \<Longrightarrow> rx_inv nt s'"
  by (induction rule: rx_run.induct) (auto intro: rx_inv_step)

lemma rx_inv_init: "notify_laws nt \<Longrightarrow> rx_inv nt (rx_init nt (sub_new now capacity policy limit))"
  using notify_laws_simps(1,2) by (simp add: rx_inv_def rx_init_def sub_new_def)

lemma rx_alone_4: "rx_alone nt 4 s = rx_alone nt (Suc (Suc (Suc (Suc 0)))) s"
proof -
  have "(4 :: nat) = Suc (Suc (Suc (Suc 0)))" by simp
  then show ?thesis by (simp only:)
qed

lemma rx_frame_waits:
  assumes laws: "notify_laws nt" and inv: "rx_inv nt s" and q: "si_queue (rx_sub s) = f # q"
  shows "(\<forall>r. rx_pc s \<noteq> Got r) \<Longrightarrow> rx_pc (rx_alone nt 4 s) = Got (Some f) \<and> si_queue (rx_sub (rx_alone nt 4 s)) = q"
proof (cases "rx_pc s")
  case Load_closed
  with inv q have "nt_permit nt (rx_notify s)" by (simp add: rx_inv_def)
  with Load_closed q notify_laws_simps [OF laws] show ?thesis
    by (cases "si_closed (rx_sub s)") (simp_all add: rx_alone_4 rx_step_def sub_pop_def)
next
  case Await_notify
  with inv q have "nt_permit nt (rx_notify s)" by (simp add: rx_inv_def)
  with Await_notify q notify_laws_simps [OF laws] show ?thesis
    by (simp add: rx_alone_4 rx_step_def sub_pop_def)
next
  case Asleep
  with inv q have "nt_task nt (rx_notify s) = Woken_task" by (cases "nt_task nt (rx_notify s)") (auto simp: rx_inv_def)
  with Asleep q show ?thesis by (simp add: rx_alone_4 rx_step_def sub_pop_def)
qed (use q in \<open>simp_all add: rx_alone_4 rx_step_def sub_pop_def\<close>)

lemma rx_close_wakes:
  assumes laws: "notify_laws nt" and inv: "rx_inv nt s" and "rx_pc s = Asleep" "si_queue (rx_sub s) = []"
  shows "rx_pc (rx_alone nt 4 (close_notify nt (close_store s))) = Got None"
proof -
  have "nt_task nt (rx_notify s) \<noteq> No_task" using inv assms(3) by (simp add: rx_inv_def)
  then have "nt_task nt (rx_notify (close_notify nt (close_store s))) = Woken_task"
    using notify_laws_simps [OF laws] by (cases "nt_task nt (rx_notify s)") (simp_all add: close_notify_def close_store_def)
  with assms(3,4) show ?thesis
    by (simp add: rx_alone_4 rx_step_def close_notify_def close_store_def sub_pop_def)
qed

text \<open>
  A running \<^verbatim>\<open>recv\<close> that comes to its end within \<open>n\<close> steps of its own, whatever pushes and closes come in between:
  it takes no more steps, and it is never without a next one before it has returned.
\<close>

definition recv_returns :: "'n notify \<Rightarrow> nat \<Rightarrow> 'n rx_state \<Rightarrow> bool" where
  "recv_returns nt n s \<longleftrightarrow>
     (\<forall>ls s'. rx_run nt s ls s' \<and> Call_recv \<notin> set ls \<longrightarrow>
        length (filter (\<lambda>l. l = Receive) ls) \<le> n \<and> ((\<exists>r. rx_pc s' = Got r) \<or> rx_step nt s' \<noteq> None))"

fun recv_left :: "recv_pc \<Rightarrow> nat option" where
  "recv_left Pop_next = Some 3"
| "recv_left Load_closed = Some 2"
| "recv_left Final_pop = Some 1"
| "recv_left (Got r) = Some 0"
| "recv_left _ = None"

lemma closed_recv_moves:
  assumes "rx_move nt s l s'" "l \<noteq> Call_recv" "si_closed (rx_sub s)" "recv_left (rx_pc s) = Some n"
  shows "si_closed (rx_sub s') \<and> (\<exists>m. recv_left (rx_pc s') = Some m \<and> (if l = Receive then m < n else m = n))"
  using assms
proof cases
  case receive
  with assms(3,4) show ?thesis
    by (cases "rx_pc s") (auto simp: rx_step_def sub_pop_def Let_def split: prod.splits list.splits)
next
  case (push t f)
  with assms(3,4) show ?thesis by (auto simp: push_step_def case_prod_unfold Let_def)
qed (use assms in \<open>auto simp: close_store_def close_notify_def sub_close_def\<close>)

lemma closed_recv_run:
  "rx_run nt s ls s' \<Longrightarrow> Call_recv \<notin> set ls \<Longrightarrow> si_closed (rx_sub s) \<Longrightarrow> recv_left (rx_pc s) = Some n \<Longrightarrow>
   \<exists>m. recv_left (rx_pc s') = Some m \<and> length (filter (\<lambda>l. l = Receive) ls) + m \<le> n"
proof (induction arbitrary: n rule: rx_run.induct)
  case (more s l s' ls s'')
  from closed_recv_moves [OF more.hyps(1) _ more.prems(2,3)] more.prems(1) obtain m where
    m: "si_closed (rx_sub s')" "recv_left (rx_pc s') = Some m" "if l = Receive then m < n else m = n" by auto
  from more.IH [OF _ m(1,2)] more.prems(1) m(3) show ?case by (fastforce split: if_splits)
qed simp

lemma closed_recv_returns:
  assumes "si_closed (rx_sub s)" "recv_left (rx_pc s) = Some n"
  shows "recv_returns nt n s"
proof -
  have "(\<exists>r. pc = Got r) \<or> rx_step nt (t\<lparr>rx_pc := pc\<rparr>) \<noteq> None" if "recv_left pc = Some m" for pc m and t :: "'a rx_state"
    using that by (cases pc) (simp_all add: rx_step_def Let_def split: prod.split option.split)
  from this [where t = t and pc = "rx_pc t" for t]
  have "(\<exists>r. rx_pc t = Got r) \<or> rx_step nt t \<noteq> None" if "recv_left (rx_pc t) = Some m" for m and t :: "'a rx_state"
    using that by simp
  then show ?thesis unfolding recv_returns_def using closed_recv_run [OF _ _ assms] by fastforce
qed

text \<open>A \<^verbatim>\<open>Notify\<close> for one task, as its permit and the state of the task.\<close>

definition notify_example :: "(bool \<times> waiter) notify" where
  "notify_example =
     \<lparr>nt_new = (False, No_task),
      nt_one = (\<lambda>(p, w). if w = Waiting_task then (p, Woken_task) else (True, w)),
      nt_waiters = (\<lambda>(p, w). (p, if w = Waiting_task then Woken_task else w)),
      nt_wait = (\<lambda>(p, w). (False, if p then Woken_task else Waiting_task)),
      nt_resume = (\<lambda>(p, w). (p, No_task)), nt_permit = fst, nt_task = snd\<rparr>"

lemma notify_example_laws: "notify_laws notify_example"
  by (simp add: notify_laws_def notify_example_def)

lemmas rx_steps = rx_init_def sub_new_def rx_step_def push_step_def sub_push_def rate_admit_def sub_pop_def
  close_store_def close_notify_def sub_close_def notify_example_def Let_def

section \<open>Properties\<close>

text \<open>
  C17: No frame is overlooked. After any interleaving of the receiving task with pushes and closes, a frame
  at the head of the queue is what a running call of \<^verbatim>\<open>recv\<close> returns, within four steps of the task
  alone: it never sleeps on beside a frame, whichever step the push came before. And a close that comes
  while the task sleeps (with nothing queued) makes it return \<^verbatim>\<open>None\<close>.
\<close>

theorem recv_wakes_up:
  assumes "notify_laws nt" "rx_run nt (rx_init nt (sub_new now capacity policy limit)) ls s" "\<forall>r. rx_pc s \<noteq> Got r"
  shows "case si_queue (rx_sub s) of
      f # q \<Rightarrow> rx_pc (rx_alone nt 4 s) = Got (Some f) \<and> si_queue (rx_sub (rx_alone nt 4 s)) = q
    | [] \<Rightarrow> (rx_pc s = Asleep \<longrightarrow> rx_pc (rx_alone nt 4 (close_notify nt (close_store s))) = Got None)"
proof -
  have "rx_inv nt s" using assms(1,2) rx_inv_run rx_inv_init by blast
  then show ?thesis
    using rx_frame_waits [OF assms(1)] rx_close_wakes [OF assms(1)] assms(3) by (auto split: list.split)
qed

text \<open>The task has looked at the empty queue and the open flag when the frame comes, and sleeps afterwards.\<close>

theorem recv_wakes_up_witness:
  "\<exists>s. rx_run notify_example (rx_init notify_example (sub_new 0 8 DropNewest 0)) [Receive, Receive, Push 0 default_frame, Receive] s \<and>
     rx_pc s = Asleep \<and> rx_pc (rx_alone notify_example 4 s) = Got (Some default_frame)"
proof -
  let ?nt = notify_example and ?s0 = "rx_init notify_example (sub_new 0 8 DropNewest 0)"
  obtain s where s: "rx_exec ?nt [Receive, Receive, Push 0 default_frame, Receive] ?s0 = Some s" "rx_pc s = Asleep"
    "si_queue (rx_sub s) = [default_frame]"
    by (simp add: rx_steps)
  from recv_wakes_up [OF notify_example_laws rx_run_exec [OF s(1)]] s(2,3)
  have "rx_pc (rx_alone ?nt 4 s) = Got (Some default_frame)" by simp
  with s rx_run_exec show ?thesis by blast
qed

text \<open>
  C18: A close can be lost. When both halves of \<^verbatim>\<open>close\<close> fall between the receiving task's look at the closed
  flag and its sleep, \<^verbatim>\<open>notify_waiters\<close> finds no waiting task and leaves no permit: the task sleeps on
  a closed, empty queue, and only another push or another close can ever move it. \<^verbatim>\<open>Bus::close\<close> closes each queue
  once and forgets it, so neither comes from the bus: \<^verbatim>\<open>recv\<close> never returns.
\<close>

theorem recv_close_lost:
  assumes "notify_laws nt"
  shows "\<exists>s. rx_run nt (rx_init nt (sub_new now capacity policy limit)) [Receive, Receive, Close_store, Close_notify, Receive] s \<and>
    si_closed (rx_sub s) \<and> si_queue (rx_sub s) = [] \<and> rx_closers s = 0 \<and>
    (\<forall>l s'. rx_move nt s l s' \<longrightarrow> l = Close_store \<or> (\<exists>t f. l = Push t f))"
proof -
  let ?s0 = "rx_init nt (sub_new now capacity policy limit)"
  obtain s where s: "rx_exec nt [Receive, Receive, Close_store, Close_notify, Receive] ?s0 = Some s" "rx_pc s = Asleep"
    "si_closed (rx_sub s)" "si_queue (rx_sub s) = []" "rx_closers s = 0" "nt_task nt (rx_notify s) = Waiting_task"
    using notify_laws_simps [OF assms] by (simp add: rx_steps)
  moreover have "l = Close_store \<or> (\<exists>t f. l = Push t f)" if "rx_move nt s l s'" for l s'
    using that s by (cases l) (simp_all add: rx_move_do rx_step_def)
  ultimately show ?thesis using rx_run_exec [OF s(1)] by blast
qed

theorem recv_close_lost_witness:
  "\<exists>s. rx_run notify_example (rx_init notify_example (sub_new 0 8 DropNewest 0))
       [Receive, Receive, Close_store, Close_notify, Receive] s \<and> si_closed (rx_sub s)"
  using recv_close_lost [OF notify_example_laws, of 0 8 DropNewest 0] by blast

end
