(* ===== verification/Can_Bus_Contract.thy ===== *)
theory Can_Bus_Contract
  imports Can_Bus
begin

text \<open>
  The \<^verbatim>\<open>Bus\<close> trait of \<^verbatim>\<open>src/bus.rs\<close> as two interfaces. \<open>bus_lifecycle\<close> fixes the three methods of
  the trait, the closed flag and the table of subscriber queues that a bus hands out, and assumes what
  every transport promises about closing (REQ-CAN-008); its lemmas follow the life of a bus through
  any sequence of calls. \<open>bus_endpoints\<close> fixes what a transport does with a frame it delivers to its
  subscribers and shows that each subscriber sees a private queue: its content depends only on the
  frames it accepts and on its own operations.

  A subscriber queue is shared between the bus and a \<^verbatim>\<open>FrameReceiver\<close> (an \<^verbatim>\<open>Arc\<close>): the queues are kept
  in a table of the bus, and the handle of a queue is its index there. The clock is an argument:
  a \<open>clock\<close> gives the instant that the push into each queue reads.
\<close>

type_synonym clock = "nat \<Rightarrow> nat"

datatype bus_op =
    OpSend clock frame
  | OpSubscribe nat "can_filter list" subscriber_options
  | OpClose

datatype bus_reply =
    SendReply "(can_error, unit) result"
  | SubscribeReply "(can_error, nat) result"
  | CloseReply "(can_error, unit) result"

fun closed_reply :: "bus_op \<Rightarrow> bus_reply" where
  "closed_reply (OpSend clk f) = SendReply (Err Closed)"
| "closed_reply (OpSubscribe now fs opts) = SubscribeReply (Err Closed)"
| "closed_reply OpClose = CloseReply (Ok ())"

text \<open>A call through the trait object, and a sequence of calls, for the methods of any transport.\<close>

fun bus_call ::
    "(clock \<Rightarrow> frame \<Rightarrow> 'b \<Rightarrow> (can_error, unit) result \<times> 'b) \<Rightarrow>
     (nat \<Rightarrow> can_filter list \<Rightarrow> subscriber_options \<Rightarrow> 'b \<Rightarrow> (can_error, nat) result \<times> 'b) \<Rightarrow>
     ('b \<Rightarrow> (can_error, unit) result \<times> 'b) \<Rightarrow> bus_op \<Rightarrow> 'b \<Rightarrow> bus_reply \<times> 'b" where
  "bus_call snd_f sub_f cls_f (OpSend clk f) b = (let (r, b') = snd_f clk f b in (SendReply r, b'))"
| "bus_call snd_f sub_f cls_f (OpSubscribe now fs opts) b =
     (let (r, b') = sub_f now fs opts b in (SubscribeReply r, b'))"
| "bus_call snd_f sub_f cls_f OpClose b = (let (r, b') = cls_f b in (CloseReply r, b'))"

fun bus_run ::
    "(clock \<Rightarrow> frame \<Rightarrow> 'b \<Rightarrow> (can_error, unit) result \<times> 'b) \<Rightarrow>
     (nat \<Rightarrow> can_filter list \<Rightarrow> subscriber_options \<Rightarrow> 'b \<Rightarrow> (can_error, nat) result \<times> 'b) \<Rightarrow>
     ('b \<Rightarrow> (can_error, unit) result \<times> 'b) \<Rightarrow> bus_op list \<Rightarrow> 'b \<Rightarrow> bus_reply list \<times> 'b" where
  "bus_run snd_f sub_f cls_f [] b = ([], b)"
| "bus_run snd_f sub_f cls_f (c # cs) b =
     (let (r, b') = bus_call snd_f sub_f cls_f c b; (rs, b'') = bus_run snd_f sub_f cls_f cs b'
      in (r # rs, b''))"

locale bus_lifecycle =
  fixes send :: "clock \<Rightarrow> frame \<Rightarrow> 'b \<Rightarrow> (can_error, unit) result \<times> 'b"
    and subscribe :: "nat \<Rightarrow> can_filter list \<Rightarrow> subscriber_options \<Rightarrow> 'b \<Rightarrow> (can_error, nat) result \<times> 'b"
    and close :: "'b \<Rightarrow> (can_error, unit) result \<times> 'b"
    and closed :: "'b \<Rightarrow> bool"
    and store :: "'b \<Rightarrow> sub_inner list"
    and inv :: "'b \<Rightarrow> bool"
  assumes send_inv: "inv b \<Longrightarrow> inv (snd (send clk f b))"
    and subscribe_inv: "inv b \<Longrightarrow> inv (snd (subscribe now fs opts b))"
    and close_inv: "inv b \<Longrightarrow> inv (snd (close b))"
    and send_closed: "closed b \<Longrightarrow> fst (send clk f b) = Err Closed"
    and send_keeps: "closed (snd (send clk f b)) = closed b \<and> length (store (snd (send clk f b))) = length (store b)"
    and subscribe_closed: "closed b \<Longrightarrow> subscribe now fs opts b = (Err Closed, b)"
    and subscribe_open: "\<not> closed b \<Longrightarrow> fst (subscribe now fs opts b) = Ok (length (store b)) \<and>
      \<not> closed (snd (subscribe now fs opts b)) \<and> length (store (snd (subscribe now fs opts b))) = Suc (length (store b))"
    and close_ok: "fst (close b) = Ok () \<and> closed (snd (close b)) \<and> length (store (snd (close b))) = length (store b)"
    and close_again: "closed b \<Longrightarrow> close b = (Ok (), b)"
    and closed_subs: "inv b \<Longrightarrow> closed b \<Longrightarrow> h < length (store b) \<Longrightarrow> si_closed (store b ! h)"
begin

abbreviation call :: "bus_op \<Rightarrow> 'b \<Rightarrow> bus_reply \<times> 'b" where
  "call \<equiv> bus_call send subscribe close"

abbreviation run :: "bus_op list \<Rightarrow> 'b \<Rightarrow> bus_reply list \<times> 'b" where
  "run \<equiv> bus_run send subscribe close"

lemma call_inv: "inv b \<Longrightarrow> inv (snd (call c b))"
  by (cases c) (simp_all add: case_prod_unfold Let_def send_inv subscribe_inv close_inv)

lemma run_inv: "inv b \<Longrightarrow> inv (snd (run cs b))"
proof (induction cs arbitrary: b)
  case (Cons c cs)
  then show ?case using call_inv [of b c] by (simp add: case_prod_unfold Let_def)
qed simp

lemma call_closed: "closed b \<Longrightarrow> fst (call c b) = closed_reply c \<and> closed (snd (call c b))"
  by (cases c) (simp_all add: case_prod_unfold Let_def send_closed send_keeps subscribe_closed close_again)

text \<open>On a closed bus every send and every subscribe answers \<^verbatim>\<open>Closed\<close>, and closing again succeeds.\<close>

lemma run_closed: "closed b \<Longrightarrow> fst (run cs b) = map closed_reply cs \<and> closed (snd (run cs b))"
proof (induction cs arbitrary: b)
  case (Cons c cs)
  then show ?case using call_closed [of b c] by (simp add: case_prod_unfold Let_def)
qed simp

text \<open>A bus is closed after a sequence of calls exactly if it was before or the sequence closes it.\<close>

lemma call_closed_iff: "closed (snd (call c b)) \<longleftrightarrow> closed b \<or> c = OpClose"
  using close_ok [of b] subscribe_open [of b] subscribe_closed [of b]
  by (cases c) (auto simp: case_prod_unfold Let_def send_keeps)

lemma run_closed_iff: "closed (snd (run cs b)) \<longleftrightarrow> closed b \<or> OpClose \<in> set cs"
  by (induction cs arbitrary: b) (auto simp: case_prod_unfold Let_def call_closed_iff)

lemma run_append:
  "fst (run (cs @ ds) b) = fst (run cs b) @ fst (run ds (snd (run cs b)))"
  "snd (run (cs @ ds) b) = snd (run ds (snd (run cs b)))"
  by (induction cs arbitrary: b) (simp_all add: case_prod_unfold Let_def)

text \<open>
  The life of a bus: whatever was called before, from the first \<^verbatim>\<open>close\<close> on the answers are those of a
  closed bus, and every subscriber queue that was ever handed out is closed.
\<close>

lemma lifecycle:
  assumes "inv b"
  shows "fst (run (cs @ OpClose # ds) b) = fst (run cs b) @ CloseReply (Ok ()) # map closed_reply ds"
    and "h < length (store (snd (run (cs @ OpClose # ds) b))) \<Longrightarrow>
      si_closed (store (snd (run (cs @ OpClose # ds) b)) ! h)"
proof -
  let ?b = "snd (run cs b)"
  have "fst (call OpClose ?b) = CloseReply (Ok ())" "closed (snd (call OpClose ?b))"
    using close_ok [of ?b] by (simp_all add: case_prod_unfold Let_def)
  then show "fst (run (cs @ OpClose # ds) b) = fst (run cs b) @ CloseReply (Ok ()) # map closed_reply ds"
    using run_closed [of "snd (call OpClose ?b)" ds]
    by (simp only: run_append bus_run.simps case_prod_unfold Let_def fst_conv)
  assume "h < length (store (snd (run (cs @ OpClose # ds) b)))"
  then show "si_closed (store (snd (run (cs @ OpClose # ds) b)) ! h)"
    by (intro closed_subs run_inv assms) (simp_all add: run_closed_iff)
qed

end

section \<open>Subscribers as private queues\<close>

text \<open>What happens at a bus with subscribers, and what one subscriber's queue sees of it.\<close>

datatype endpoint_event =
    Arrive clock frame
  | Receive nat
  | Hangup nat

fun queue_step :: "(frame \<Rightarrow> bool) \<Rightarrow> nat \<Rightarrow> endpoint_event \<Rightarrow> sub_inner \<Rightarrow> sub_inner" where
  "queue_step acc h (Arrive clk f) s =
     (if acc f \<and> \<not> si_closed s then snd (sub_push (clk h) f s) else s)"
| "queue_step acc h (Receive k) s = (if k = h then snd (recv_poll s) else s)"
| "queue_step acc h (Hangup k) s = (if k = h then receiver_close s else s)"

fun endpoint_step ::
    "(clock \<Rightarrow> frame \<Rightarrow> 'b \<Rightarrow> 'b) \<Rightarrow> (nat \<Rightarrow> (sub_inner \<Rightarrow> sub_inner) \<Rightarrow> 'b \<Rightarrow> 'b) \<Rightarrow>
     endpoint_event \<Rightarrow> 'b \<Rightarrow> 'b" where
  "endpoint_step dlv upd (Arrive clk f) b = dlv clk f b"
| "endpoint_step dlv upd (Receive h) b = upd h (\<lambda>s. snd (recv_poll s)) b"
| "endpoint_step dlv upd (Hangup h) b = upd h receiver_close b"

text \<open>The events that concern one subscriber.\<close>

fun concerns :: "(frame \<Rightarrow> bool) \<Rightarrow> nat \<Rightarrow> endpoint_event \<Rightarrow> bool" where
  "concerns acc h (Arrive clk f) = acc f"
| "concerns acc h (Receive k) = (k = h)"
| "concerns acc h (Hangup k) = (k = h)"

lemma queue_step_unconcerned: "\<not> concerns acc h e \<Longrightarrow> queue_step acc h e s = s"
  by (cases e) simp_all

lemma fold_queue_step_filter:
  "fold (queue_step acc h) es s = fold (queue_step acc h) (filter (concerns acc h) es) s"
  by (induction es arbitrary: s) (simp_all add: queue_step_unconcerned)

locale bus_endpoints =
  fixes deliver :: "clock \<Rightarrow> frame \<Rightarrow> 'b \<Rightarrow> 'b"
    and update :: "nat \<Rightarrow> (sub_inner \<Rightarrow> sub_inner) \<Rightarrow> 'b \<Rightarrow> 'b"
    and store :: "'b \<Rightarrow> sub_inner list"
    and accepts :: "'b \<Rightarrow> nat \<Rightarrow> frame \<Rightarrow> bool"
    and inv :: "'b \<Rightarrow> bool"
  assumes deliver_inv: "inv b \<Longrightarrow> inv (deliver clk f b)"
    and update_inv: "inv b \<Longrightarrow> (si_closed (store b ! h) \<Longrightarrow> si_closed (g (store b ! h))) \<Longrightarrow> inv (update h g b)"
    and deliver_length: "inv b \<Longrightarrow> length (store (deliver clk f b)) = length (store b)"
    and deliver_store: "inv b \<Longrightarrow> h < length (store b) \<Longrightarrow>
      store (deliver clk f b) ! h = queue_step (accepts b h) h (Arrive clk f) (store b ! h)"
    and deliver_accepts: "inv b \<Longrightarrow> h < length (store b) \<Longrightarrow> \<not> si_closed (store b ! h) \<Longrightarrow>
      accepts (deliver clk f b) h = accepts b h"
    and update_store: "store (update h g b) = (store b)[h := g (store b ! h)]"
    and update_accepts: "accepts (update h g b) = accepts b"
begin

abbreviation step :: "endpoint_event \<Rightarrow> 'b \<Rightarrow> 'b" where
  "step \<equiv> endpoint_step deliver update"

lemma step_inv: "inv b \<Longrightarrow> inv (step e b)"
  by (cases e) (auto intro!: deliver_inv update_inv simp: recv_poll_eq receiver_close_def split: list.splits)

lemma step_length: "inv b \<Longrightarrow> length (store (step e b)) = length (store b)"
  by (cases e) (simp_all add: deliver_length update_store)

lemma step_store:
  "inv b \<Longrightarrow> h < length (store b) \<Longrightarrow> store (step e b) ! h = queue_step (accepts b h) h e (store b ! h)"
  by (cases e) (auto simp: deliver_store update_store nth_list_update)

lemma step_accepts:
  "inv b \<Longrightarrow> h < length (store b) \<Longrightarrow> \<not> si_closed (store b ! h) \<Longrightarrow> accepts (step e b) h = accepts b h"
  by (cases e) (simp_all add: deliver_accepts update_accepts)

text \<open>A closed queue ignores every arrival, so its acceptance does not matter.\<close>

lemma queue_step_closed:
  "si_closed s \<Longrightarrow> queue_step acc h e s = queue_step acc' h e s \<and> si_closed (queue_step acc h e s)"
  by (cases e) (auto simp: receiver_close_def recv_poll_eq split: list.splits)

lemma fold_queue_step_closed:
  "si_closed s \<Longrightarrow> fold (queue_step acc h) es s = fold (queue_step acc' h) es s"
proof (induction es arbitrary: s)
  case (Cons e es)
  have same: "queue_step acc h e s = queue_step acc' h e s" and "si_closed (queue_step acc h e s)"
    using queue_step_closed [OF Cons.prems, of acc h e acc'] by blast+
  from Cons.IH [OF this(2)] show ?case unfolding fold_simps same .
qed simp

lemma private_queue:
  "inv b \<Longrightarrow> h < length (store b) \<Longrightarrow>
     store (fold step es b) ! h = fold (queue_step (accepts b h) h) es (store b ! h)"
proof (induction es arbitrary: b)
  case (Cons e es)
  let ?s = "queue_step (accepts b h) h e (store b ! h)"
  have IH: "store (fold step es (step e b)) ! h = fold (queue_step (accepts (step e b) h) h) es ?s"
    using Cons.IH [OF step_inv [OF Cons.prems(1)]] Cons.prems
    by (simp only: step_length step_store)
  show ?case
  proof (cases "si_closed (store b ! h)")
    case True
    then have "si_closed ?s" using queue_step_closed by blast
    then show ?thesis
      using IH fold_queue_step_closed [of ?s "accepts (step e b) h" h es "accepts b h"] by simp
  next
    case False
    with IH step_accepts [OF Cons.prems False] show ?thesis by simp
  qed
qed simp

text \<open>Two buses whose queues start alike give a subscriber the same frames if it sees the same events.\<close>

lemma isolation:
  assumes "inv b" "h < length (store b)"
    and "filter (concerns (accepts b h) h) es = filter (concerns (accepts b h) h) es'"
  shows "store (fold step es b) ! h = store (fold step es' b) ! h"
  using assms fold_queue_step_filter [of "accepts b h" h] by (metis private_queue)

end

section \<open>Delivery without filters\<close>

text \<open>
  The loop of \<^verbatim>\<open>MockBus::inject\<close> and of the reader task of \<^verbatim>\<open>SocketCanBus\<close>: every queue that is not
  closed takes the frame. \<open>h\<close> is the index of the first queue of the rest of the list.
\<close>

fun deliver_all :: "clock \<Rightarrow> frame \<Rightarrow> nat \<Rightarrow> sub_inner list \<Rightarrow> sub_inner list" where
  "deliver_all clk f h [] = []"
| "deliver_all clk f h (s # ss) =
     (if \<not> si_closed s then snd (sub_push (clk h) f s) # deliver_all clk f (Suc h) ss
      else s # deliver_all clk f (Suc h) ss)"

lemma length_deliver_all [simp]: "length (deliver_all clk f h ss) = length ss"
  by (induction ss arbitrary: h) simp_all

lemma nth_deliver_all:
  "k < length ss \<Longrightarrow> deliver_all clk f h ss ! k = queue_step (\<lambda>_. True) (h + k) (Arrive clk f) (ss ! k)"
proof (induction ss arbitrary: h k)
  case (Cons s ss)
  then show ?case by (cases k) simp_all
qed simp

lemma deliver_all_closed:
  "list_all si_closed ss \<Longrightarrow> deliver_all clk f h ss = ss"
  by (induction ss arbitrary: h) simp_all

text \<open>The loop that closes every subscriber.\<close>

definition close_subs :: "sub_inner list \<Rightarrow> sub_inner list" where
  "close_subs ss = map sub_close ss"

lemma close_subs_simps [simp]:
  "length (close_subs ss) = length ss" "list_all si_closed (close_subs ss)"
  "h < length ss \<Longrightarrow> close_subs ss ! h = sub_close (ss ! h)"
  by (simp_all add: close_subs_def list_all_length)

lemma list_all_update:
  assumes "list_all P xs" "h < length xs \<Longrightarrow> P x"
  shows "list_all P (xs[h := x])"
  using assms by (cases "h < length xs") (auto simp: list_all_length nth_list_update)

end
