(* ===== verification/Can_Virtual.thy ===== *)
theory Can_Virtual
  imports Can_Bus_Contract
begin

text \<open>
  The in-process bus of \<^verbatim>\<open>src/virtual_bus/mod.rs\<close>. The subscriber queues are shared between the bus
  and the receivers, so they live in \<open>vb_store\<close> and a \<open>virtual_sub\<close> holds the index of its queue, in
  place of the \<^verbatim>\<open>Arc\<close>. An operation runs without interleaving here (\<^verbatim>\<open>inner\<close> is a mutex; what can
  happen between its atomic steps is the subject of a theory of its own). The \<^verbatim>\<open>Context\<close> that \<^verbatim>\<open>send\<close>
  takes is ignored by the code and left out.
\<close>

section \<open>The code\<close>

record virtual_sub =
  vs_filters :: "can_filter list"
  vs_inner :: nat

record virtual_bus =
  vb_store :: "sub_inner list"
  vb_subs :: "virtual_sub list"
  vb_closed :: bool
  vb_counts :: metrics

definition vsub_matches :: "virtual_sub \<Rightarrow> frame \<Rightarrow> bool" where
  "vsub_matches s f = (if vs_filters s = [] then True else list_ex (\<lambda>flt. filter_matches flt f) (vs_filters s))"

text \<open>The loop of \<^verbatim>\<open>broadcast\<close>, with the counts of delivered and dropped frames so far.\<close>

fun broadcast_loop ::
    "clock \<Rightarrow> frame \<Rightarrow> virtual_sub list \<Rightarrow> sub_inner list \<Rightarrow> u64 \<Rightarrow> u64 \<Rightarrow> (u64 \<times> u64) \<times> sub_inner list" where
  "broadcast_loop clk f [] st delivered dropped = ((delivered, dropped), st)"
| "broadcast_loop clk f (sub # subs) st delivered dropped =
     (if vsub_matches sub f then
        let (ok, s) = sub_push (clk (vs_inner sub)) f (st ! vs_inner sub);
            st = st[vs_inner sub := s]
        in if ok then broadcast_loop clk f subs st (delivered + 1) dropped
           else broadcast_loop clk f subs st delivered (dropped + 1)
      else broadcast_loop clk f subs st delivered dropped)"

definition broadcast :: "clock \<Rightarrow> frame \<Rightarrow> virtual_bus \<Rightarrow> (u64 \<times> u64) \<times> virtual_bus" where
  "broadcast clk f b =
     (let (counts, st) = broadcast_loop clk f (vb_subs b) (vb_store b) 0 0 in (counts, b\<lparr>vb_store := st\<rparr>))"

definition gc :: "virtual_bus \<Rightarrow> virtual_bus" where
  "gc b = b\<lparr>vb_subs := filter (\<lambda>s. \<not> si_closed (vb_store b ! vs_inner s)) (vb_subs b)\<rparr>"

definition zero_metrics :: metrics where
  "zero_metrics = \<lparr>write_count = 0, deliver_count = 0, drop_count = 0, bytes_written = 0,
     bytes_delivered = 0, error_count = 0\<rparr>"

definition vb_new :: virtual_bus where
  "vb_new = \<lparr>vb_store = [], vb_subs = [], vb_closed = False, vb_counts = zero_metrics\<rparr>"

definition count_error :: "virtual_bus \<Rightarrow> virtual_bus" where
  "count_error b = b\<lparr>vb_counts := (vb_counts b)\<lparr>error_count := error_count (vb_counts b) + 1\<rparr>\<rparr>"

definition vb_send :: "clock \<Rightarrow> frame \<Rightarrow> virtual_bus \<Rightarrow> (can_error, unit) result \<times> virtual_bus" where
  "vb_send clk f b =
     (if vb_closed b then (Err Closed, count_error b)
      else case validate_frame f of
        Err e \<Rightarrow> (Err e, count_error b)
      | Ok _ \<Rightarrow>
          let payload_len = of_nat (length (f_data f));
              c = vb_counts b;
              b = b\<lparr>vb_counts := c\<lparr>bytes_written := bytes_written c + payload_len,
                                     write_count := write_count c + 1\<rparr>\<rparr>;
              ((delivered, dropped), b) = broadcast clk f (gc b);
              c = vb_counts b
          in (Ok (), b\<lparr>vb_counts := c\<lparr>deliver_count := deliver_count c + delivered,
                                        drop_count := drop_count c + dropped,
                                        bytes_delivered := bytes_delivered c + payload_len * delivered\<rparr>\<rparr>))"

definition vb_subscribe ::
    "nat \<Rightarrow> can_filter list \<Rightarrow> subscriber_options \<Rightarrow> virtual_bus \<Rightarrow> (can_error, nat) result \<times> virtual_bus" where
  "vb_subscribe now filters opts b =
     (if vb_closed b then (Err Closed, b)
      else let inner = sub_new now (chan_depth opts 64) (back_pressure opts) (rate_limit_per_sec opts);
               h = length (vb_store b)
           in (Ok h, b\<lparr>vb_store := vb_store b @ [inner],
                       vb_subs := vb_subs b @ [\<lparr>vs_filters = filters, vs_inner = h\<rparr>]\<rparr>))"

fun close_all :: "nat list \<Rightarrow> sub_inner list \<Rightarrow> sub_inner list" where
  "close_all [] st = st"
| "close_all (h # hs) st = close_all hs (st[h := sub_close (st ! h)])"

definition vb_close :: "virtual_bus \<Rightarrow> (can_error, unit) result \<times> virtual_bus" where
  "vb_close b =
     (if vb_closed b then (Ok (), b)
      else (Ok (), b\<lparr>vb_closed := True, vb_store := close_all (map vs_inner (vb_subs b)) (vb_store b),
                     vb_subs := []\<rparr>))"

definition vb_loan :: "virtual_bus \<Rightarrow> (can_error, 's loaned_frame) result" where
  "vb_loan b = (if vb_closed b then Err Closed else Ok (loaned_simple default_frame))"

text \<open>Sending a loaned frame first releases the loan, which acts on the state \<open>s\<close> of its owner.\<close>

definition vb_send_loaned ::
    "clock \<Rightarrow> 's loaned_frame \<Rightarrow> 's \<Rightarrow> virtual_bus \<Rightarrow> (can_error, unit) result \<times> 's \<times> virtual_bus" where
  "vb_send_loaned clk lf s b =
     (let f = lf_frame lf;
          s = return_loan lf s;
          (r, b) = vb_send clk f b
      in (r, s, b))"

definition vb_health :: "virtual_bus \<Rightarrow> health" where
  "vb_health b = (if vb_closed b then health_down ''bus is closed'' else health_ok)"

definition vb_metrics :: "virtual_bus \<Rightarrow> metrics" where
  "vb_metrics b = vb_counts b"

text \<open>An operation of a receiver on its shared queue.\<close>

definition vb_update :: "nat \<Rightarrow> (sub_inner \<Rightarrow> sub_inner) \<Rightarrow> virtual_bus \<Rightarrow> virtual_bus" where
  "vb_update h g b = b\<lparr>vb_store := (vb_store b)[h := g (vb_store b ! h)]\<rparr>"

text \<open>
  \<^verbatim>\<open>close_with_drain\<close>: one pass of its polling loop, and the loop. The rest of the program runs in two gaps of each
  pass: between the look at the clock and the look at the queues (or the \<^verbatim>\<open>close\<close> after the deadline), where the task
  waits for the mutex, and after the mutex is released, before the \<^verbatim>\<open>close\<close> or during the sleep. \<open>gap k\<close> is what
  the others do to the bus in the \<open>k\<close>-th gap, \<open>now i\<close> the instant at which the \<open>i\<close>-th pass reads the clock. The queues are
  looked at while the mutex is held, so nothing is pushed meanwhile and a queue found empty stays empty until its release.
\<close>

definition all_empty :: "virtual_bus \<Rightarrow> bool" where
  "all_empty b = list_all (\<lambda>s. sub_is_empty (vb_store b ! vs_inner s)) (vb_subs b)"

datatype drain_pass =
    Drain_ends "(can_error, unit) result \<times> virtual_bus"
  | Drain_sleeps virtual_bus

definition drain_poll ::
    "context_t \<Rightarrow> nat \<Rightarrow> (virtual_bus \<Rightarrow> virtual_bus) \<Rightarrow> (virtual_bus \<Rightarrow> virtual_bus) \<Rightarrow> virtual_bus \<Rightarrow> drain_pass" where
  "drain_poll ctx now before_lock after_lock b =
     (if ctx_done ctx now then
        let b = before_lock b
        in Drain_ends (Err Timeout, snd (vb_close b))
      else
        let b = before_lock b;
            all_empty = all_empty b;
            b = after_lock b
        in if all_empty then Drain_ends (vb_close b) else Drain_sleeps b)"

partial_function (option) close_with_drain ::
    "context_t \<Rightarrow> (nat \<Rightarrow> nat) \<Rightarrow> (nat \<Rightarrow> virtual_bus \<Rightarrow> virtual_bus) \<Rightarrow> nat \<Rightarrow> virtual_bus \<Rightarrow>
     ((can_error, unit) result \<times> virtual_bus) option" where
  "close_with_drain ctx now gap i b =
     (case drain_poll ctx (now i) (gap (2 * i)) (gap (2 * i + 1)) b of
        Drain_ends r \<Rightarrow> Some r
      | Drain_sleeps b \<Rightarrow> close_with_drain ctx now gap (Suc i) b)"

section \<open>Broadcasting\<close>

definition targets :: "frame \<Rightarrow> virtual_sub list \<Rightarrow> nat list" where
  "targets f subs = map vs_inner (filter (\<lambda>s. vsub_matches s f) subs)"

text \<open>The handles whose queue takes the frame.\<close>

definition takers :: "clock \<Rightarrow> frame \<Rightarrow> virtual_sub list \<Rightarrow> sub_inner list \<Rightarrow> nat list" where
  "takers clk f subs st = filter (\<lambda>h. fst (sub_push (clk h) f (st ! h))) (targets f subs)"

definition handles_ok :: "virtual_sub list \<Rightarrow> sub_inner list \<Rightarrow> bool" where
  "handles_ok subs st \<longleftrightarrow> distinct (map vs_inner subs) \<and> list_all (\<lambda>s. vs_inner s < length st) subs"

lemma handles_ok_Cons:
  "handles_ok (s # subs) st \<longleftrightarrow> handles_ok subs st \<and> vs_inner s < length st \<and> vs_inner s \<notin> vs_inner ` set subs"
  by (auto simp: handles_ok_def)

lemma handles_ok_update [simp]: "handles_ok subs (st[h := s]) = handles_ok subs st"
  by (simp add: handles_ok_def)

lemma handles_ok_filter: "handles_ok subs st \<Longrightarrow> handles_ok (filter P subs) st"
  by (auto simp: handles_ok_def list_all_iff distinct_map inj_on_def)

lemma set_targets: "set (targets f subs) \<subseteq> vs_inner ` set subs"
  by (auto simp: targets_def)

lemma targets_simps [simp]:
  "targets f [] = []"
  "targets f (s # subs) = (if vsub_matches s f then vs_inner s # targets f subs else targets f subs)"
  by (simp_all add: targets_def)

lemma takers_update:
  assumes "h \<notin> vs_inner ` set subs"
  shows "takers clk f subs (st[h := s]) = takers clk f subs st"
  unfolding takers_def
proof (rule filter_cong [OF refl])
  fix x assume "x \<in> set (targets f subs)"
  then have "h \<noteq> x" using assms set_targets [of f subs] by blast
  then show "fst (sub_push (clk x) f (st[h := s] ! x)) = fst (sub_push (clk x) f (st ! x))" by simp
qed

lemma broadcast_loop_spec:
  "handles_ok subs st \<Longrightarrow>
     fst (broadcast_loop clk f subs st d r) =
       (d + of_nat (length (takers clk f subs st)),
        r + of_nat (length (targets f subs) - length (takers clk f subs st))) \<and>
     length (snd (broadcast_loop clk f subs st d r)) = length st \<and>
     (\<forall>h < length st. snd (broadcast_loop clk f subs st d r) ! h =
        (if h \<in> set (targets f subs) then snd (sub_push (clk h) f (st ! h)) else st ! h))"
proof (induction subs arbitrary: st d r)
  case Nil
  then show ?case by (simp add: takers_def)
next
  case (Cons sub subs)
  let ?h = "vs_inner sub"
  have ok: "handles_ok subs st" "?h < length st" "?h \<notin> vs_inner ` set subs"
    using Cons.prems by (simp_all add: handles_ok_Cons)
  have le: "length (takers clk f subs st) \<le> length (targets f subs)" by (simp add: takers_def)
  have notin: "?h \<notin> set (targets f subs)" using ok(3) set_targets [of f subs] by blast
  show ?case
  proof (cases "vsub_matches sub f")
    case False
    then show ?thesis using Cons.IH [OF ok(1)] by (simp add: takers_def)
  next
    case True
    obtain b s where p: "sub_push (clk ?h) f (st ! ?h) = (b, s)" by fastforce
    have IH: "handles_ok subs (st[?h := s])" using ok(1) by simp
    have "takers clk f (sub # subs) st = (if b then ?h # takers clk f subs st else takers clk f subs st)"
      using True p by (simp add: takers_def)
    then show ?thesis
      using Cons.IH [OF IH] True p takers_update [OF ok(3), of clk f st s] ok(2) le notin
      by (auto simp: nth_list_update Suc_diff_le add.assoc)
  qed
qed

section \<open>The invariant\<close>

definition vb_inv :: "virtual_bus \<Rightarrow> bool" where
  "vb_inv b \<longleftrightarrow> handles_ok (vb_subs b) (vb_store b) \<and>
     (\<forall>h < length (vb_store b). \<not> si_closed (vb_store b ! h) \<longrightarrow> h \<in> vs_inner ` set (vb_subs b)) \<and>
     (vb_closed b \<longrightarrow> vb_subs b = [])"

lemma vb_inv_new [simp]: "vb_inv vb_new"
  by (simp add: vb_inv_def vb_new_def handles_ok_def)

text \<open>An open bus sends a valid frame; everything else is refused and only counted.\<close>

definition live_subs :: "virtual_bus \<Rightarrow> virtual_sub list" where
  "live_subs b = filter (\<lambda>s. \<not> si_closed (vb_store b ! vs_inner s)) (vb_subs b)"

definition send_ok :: "virtual_bus \<Rightarrow> frame \<Rightarrow> bool" where
  "send_ok b f \<longleftrightarrow> \<not> vb_closed b \<and> wf_frame f"

lemma vb_send_refused:
  "\<not> send_ok b f \<Longrightarrow> snd (vb_send clk f b) = count_error b"
  "\<not> send_ok b f \<Longrightarrow> fst (vb_send clk f b) \<noteq> Ok ()"
  using validate_frame_iff [of f]
  by (auto simp: vb_send_def send_ok_def split: sum.split)

lemma vb_send_accepted:
  assumes "send_ok b f"
  shows "fst (vb_send clk f b) = Ok ()"
    and "vb_store (snd (vb_send clk f b)) = snd (broadcast_loop clk f (live_subs b) (vb_store b) 0 0)"
    and "vb_subs (snd (vb_send clk f b)) = live_subs b"
    and "vb_closed (snd (vb_send clk f b)) = vb_closed b"
    and "vb_counts (snd (vb_send clk f b)) =
      (let (delivered, dropped) = fst (broadcast_loop clk f (live_subs b) (vb_store b) 0 0); c = vb_counts b;
           n = of_nat (length (f_data f))
       in c\<lparr>write_count := write_count c + 1, bytes_written := bytes_written c + n,
            deliver_count := deliver_count c + delivered, drop_count := drop_count c + dropped,
            bytes_delivered := bytes_delivered c + n * delivered\<rparr>)"
  using assms validate_frame_iff [of f]
  by (simp_all add: vb_send_def send_ok_def broadcast_def gc_def live_subs_def case_prod_unfold Let_def)

lemma live_handles_ok: "vb_inv b \<Longrightarrow> handles_ok (live_subs b) (vb_store b)"
  by (simp add: vb_inv_def live_subs_def handles_ok_filter)

lemmas vb_broadcast = broadcast_loop_spec [OF live_handles_ok]

lemma count_error_simps [simp]:
  "vb_store (count_error b) = vb_store b" "vb_subs (count_error b) = vb_subs b"
  "vb_closed (count_error b) = vb_closed b" "vb_inv (count_error b) = vb_inv b"
  by (simp_all add: count_error_def vb_inv_def)

lemma vb_send_store:
  assumes "vb_inv b" "h < length (vb_store b)"
  shows "vb_store (snd (vb_send clk f b)) ! h =
    (if send_ok b f \<and> h \<in> set (targets f (live_subs b)) then snd (sub_push (clk h) f (vb_store b ! h))
     else vb_store b ! h)"
  using assms vb_broadcast [OF assms(1), of clk f 0 0]
  by (cases "send_ok b f") (simp_all add: vb_send_accepted vb_send_refused)

lemma vb_send_length:
  assumes "vb_inv b"
  shows "length (vb_store (snd (vb_send clk f b))) = length (vb_store b)"
  using vb_broadcast [OF assms, of clk f 0 0]
  by (cases "send_ok b f") (simp_all add: vb_send_accepted vb_send_refused)

lemma vb_send_si_closed:
  assumes "vb_inv b" "h < length (vb_store b)"
  shows "si_closed (vb_store (snd (vb_send clk f b)) ! h) = si_closed (vb_store b ! h)"
  using assms by (simp add: vb_send_store)

lemma vb_send_inv:
  assumes "vb_inv b"
  shows "vb_inv (snd (vb_send clk f b))"
proof (cases "send_ok b f")
  case True
  have "handles_ok (live_subs b) (vb_store (snd (vb_send clk f b)))"
    using live_handles_ok [OF assms] vb_send_length [OF assms, of clk f] by (simp add: handles_ok_def)
  moreover have "h \<in> vs_inner ` set (live_subs b)"
    if "h < length (vb_store b)" "\<not> si_closed (vb_store b ! h)" for h
    using that assms by (auto simp: vb_inv_def live_subs_def)
  ultimately show ?thesis
    using assms True
    by (simp add: vb_inv_def vb_send_accepted(3,4) vb_send_length vb_send_si_closed send_ok_def)
qed (use assms in \<open>simp add: vb_send_refused\<close>)

lemma vb_subscribe_inv: "vb_inv b \<Longrightarrow> vb_inv (snd (vb_subscribe now fs opts b))"
  by (cases "vb_closed b")
    (auto simp: vb_inv_def vb_subscribe_def Let_def handles_ok_def list_all_iff nth_append less_Suc_eq)

lemma close_all_spec:
  "length (close_all hs st) = length st"
  "h < length st \<Longrightarrow> close_all hs st ! h = (if h \<in> set hs then sub_close (st ! h) else st ! h)"
proof (induction hs arbitrary: st)
  case (Cons k hs)
  {
    case 1
    show ?case using Cons.IH(1) by simp
  next
    case 2
    then show ?case
      using Cons.IH(2) [of "st[k := sub_close (st ! k)]"]
      by (cases "h = k") (simp_all add: sub_close_def)
  }
qed simp_all

lemma vb_close_store:
  assumes "vb_inv b" "h < length (vb_store b)"
  shows "si_closed (vb_store (snd (vb_close b)) ! h)"
    and "si_queue (vb_store (snd (vb_close b)) ! h) = si_queue (vb_store b ! h)"
proof -
  have "si_closed (vb_store b ! h) \<or> \<not> vb_closed b \<and> h \<in> set (map vs_inner (vb_subs b))"
    using assms by (auto simp: vb_inv_def)
  then show "si_closed (vb_store (snd (vb_close b)) ! h)"
    "si_queue (vb_store (snd (vb_close b)) ! h) = si_queue (vb_store b ! h)"
    using assms(2) by (auto simp: vb_close_def close_all_spec)
qed

lemma vb_close_length [simp]: "length (vb_store (snd (vb_close b))) = length (vb_store b)"
  by (simp add: vb_close_def close_all_spec)

lemma vb_close_inv: "vb_inv b \<Longrightarrow> vb_inv (snd (vb_close b))"
  using vb_close_store(1) [of b] by (auto simp: vb_inv_def vb_close_def handles_ok_def close_all_spec(1) split: if_splits)

lemma vb_close_closed [simp]: "vb_closed (snd (vb_close b))" "fst (vb_close b) = Ok ()"
  by (simp_all add: vb_close_def)

lemma vb_closed_all: "vb_inv b \<Longrightarrow> vb_closed b \<Longrightarrow> h < length (vb_store b) \<Longrightarrow> si_closed (vb_store b ! h)"
  by (auto simp: vb_inv_def)

lemma vb_send_closed [simp]: "vb_closed (snd (vb_send clk f b)) = vb_closed b"
  by (cases "send_ok b f") (simp_all add: vb_send_accepted vb_send_refused)

section \<open>The contracts\<close>

interpretation vbus: bus_lifecycle vb_send vb_subscribe vb_close vb_closed vb_store vb_inv
proof unfold_locales
  fix b :: virtual_bus and clk f
  assume "vb_closed b"
  then show "fst (vb_send clk f b) = Err Closed" by (simp add: vb_send_def)
next
  fix b :: virtual_bus and clk f
  show "vb_closed (snd (vb_send clk f b)) = vb_closed b \<and>
      length (vb_store (snd (vb_send clk f b))) = length (vb_store b)"
  proof -
    have "length (snd (broadcast_loop clk f subs st d r)) = length st" for subs st d r
      by (induction subs arbitrary: st d r) (simp_all add: case_prod_unfold Let_def)
    then show ?thesis by (cases "send_ok b f") (simp_all add: vb_send_accepted vb_send_refused)
  qed
qed (erule vb_send_inv vb_subscribe_inv vb_close_inv |
  auto simp: vb_closed_all vb_subscribe_def vb_close_def close_all_spec(1) Let_def)+

definition vb_accepts :: "virtual_bus \<Rightarrow> nat \<Rightarrow> frame \<Rightarrow> bool" where
  "vb_accepts b h f \<longleftrightarrow> send_ok b f \<and> h \<in> set (targets f (vb_subs b))"

lemma live_targets:
  "h \<in> set (targets f (live_subs b)) \<longleftrightarrow> h \<in> set (targets f (vb_subs b)) \<and> \<not> si_closed (vb_store b ! h)"
  by (auto simp: targets_def live_subs_def)

lemma vb_update_inv:
  assumes "vb_inv b" "si_closed (vb_store b ! h) \<Longrightarrow> si_closed (g (vb_store b ! h))"
  shows "vb_inv (vb_update h g b)"
proof -
  have "si_closed (vb_store b ! k)"
    if "k < length (vb_store b)" "si_closed (vb_store b ! k)" "\<not> si_closed (vb_store (vb_update h g b) ! k)" for k
    using that by simp
  moreover have "\<not> si_closed (vb_store b ! k)"
    if "k < length (vb_store b)" "\<not> si_closed (vb_store (vb_update h g b) ! k)" for k
    using that assms(2) by (cases "k = h") (auto simp: vb_update_def)
  ultimately show ?thesis using assms(1) by (auto simp: vb_inv_def vb_update_def)
qed

interpretation vports: bus_endpoints "\<lambda>clk f b. snd (vb_send clk f b)" vb_update vb_store vb_accepts vb_inv
proof unfold_locales
  fix b :: virtual_bus and h and g :: "sub_inner \<Rightarrow> sub_inner"
  assume "vb_inv b" "si_closed (vb_store b ! h) \<Longrightarrow> si_closed (g (vb_store b ! h))"
  then show "vb_inv (vb_update h g b)" by (rule vb_update_inv)
next
  fix b :: virtual_bus and h clk f
  assume "vb_inv b" "h < length (vb_store b)" "\<not> si_closed (vb_store b ! h)"
  then show "vb_accepts (snd (vb_send clk f b)) h = vb_accepts b h"
    by (cases "send_ok b f")
      (auto simp: fun_eq_iff vb_accepts_def send_ok_def live_targets vb_send_accepted(3) vb_send_refused)
qed (auto simp: vb_send_inv vb_send_length vb_send_store vb_accepts_def live_targets vb_update_def
  send_ok_def fun_eq_iff)

section \<open>Counting\<close>

fun sent_ok :: "bus_op list \<Rightarrow> bus_reply list \<Rightarrow> frame list" where
  "sent_ok (OpSend clk f # cs) (SendReply r # rs) = (if is_ok r then f # sent_ok cs rs else sent_ok cs rs)"
| "sent_ok (c # cs) (r # rs) = sent_ok cs rs"
| "sent_ok _ _ = []"

fun failed_sends :: "bus_reply list \<Rightarrow> nat" where
  "failed_sends [] = 0"
| "failed_sends (SendReply r # rs) = (if is_ok r then failed_sends rs else Suc (failed_sends rs))"
| "failed_sends (_ # rs) = failed_sends rs"

definition total_bytes :: "frame list \<Rightarrow> nat" where
  "total_bytes fs = sum_list (map (\<lambda>f. length (f_data f)) fs)"

lemma vb_send_counts:
  "is_ok (fst (vb_send clk f b)) = send_ok b f"
  "write_count (vb_counts (snd (vb_send clk f b))) = write_count (vb_counts b) + (if send_ok b f then 1 else 0)"
  "error_count (vb_counts (snd (vb_send clk f b))) = error_count (vb_counts b) + (if send_ok b f then 0 else 1)"
  "bytes_written (vb_counts (snd (vb_send clk f b))) =
     bytes_written (vb_counts b) + (if send_ok b f then of_nat (length (f_data f)) else 0)"
  using vb_send_refused(2) [of b f clk]
  by (cases "send_ok b f";
      simp add: vb_send_accepted vb_send_refused(1) count_error_def case_prod_unfold Let_def is_ok_iff)+

lemma vb_other_counts:
  "vb_counts (snd (vb_subscribe now fs opts b)) = vb_counts b" "vb_counts (snd (vb_close b)) = vb_counts b"
  by (simp_all add: vb_subscribe_def vb_close_def Let_def)

lemma vb_run_counts:
  "write_count (vb_counts (snd (bus_run vb_send vb_subscribe vb_close cs b))) = write_count (vb_counts b) +
     of_nat (length (sent_ok cs (fst (bus_run vb_send vb_subscribe vb_close cs b))))"
  "error_count (vb_counts (snd (bus_run vb_send vb_subscribe vb_close cs b))) = error_count (vb_counts b) +
     of_nat (failed_sends (fst (bus_run vb_send vb_subscribe vb_close cs b)))"
  "bytes_written (vb_counts (snd (bus_run vb_send vb_subscribe vb_close cs b))) = bytes_written (vb_counts b) +
     of_nat (total_bytes (sent_ok cs (fst (bus_run vb_send vb_subscribe vb_close cs b))))"
proof (induction cs arbitrary: b)
  case (Cons c cs)
  {
    case 1
    show ?case using Cons.IH(1)
      by (cases c) (simp_all add: case_prod_unfold Let_def vb_send_counts vb_other_counts)
  next
    case 2
    show ?case using Cons.IH(2)
      by (cases c) (simp_all add: case_prod_unfold Let_def vb_send_counts vb_other_counts)
  next
    case 3
    show ?case using Cons.IH(3)
      by (cases c) (simp_all add: case_prod_unfold Let_def vb_send_counts vb_other_counts total_bytes_def)
  }
qed (simp_all add: total_bytes_def)

section \<open>Draining\<close>

text \<open>The bus after the first \<open>k\<close> gaps; what the pass \<open>i\<close> sees, and whether it ends the loop.\<close>

fun gap_run :: "(nat \<Rightarrow> virtual_bus \<Rightarrow> virtual_bus) \<Rightarrow> nat \<Rightarrow> virtual_bus \<Rightarrow> virtual_bus" where
  "gap_run gap 0 b = b"
| "gap_run gap (Suc k) b = gap k (gap_run gap k b)"

definition drain_sees :: "(nat \<Rightarrow> virtual_bus \<Rightarrow> virtual_bus) \<Rightarrow> nat \<Rightarrow> virtual_bus \<Rightarrow> virtual_bus" where
  "drain_sees gap i b = gap_run gap (2 * i + 1) b"

definition drain_stops :: "context_t \<Rightarrow> (nat \<Rightarrow> nat) \<Rightarrow> (nat \<Rightarrow> virtual_bus \<Rightarrow> virtual_bus) \<Rightarrow> virtual_bus \<Rightarrow> nat \<Rightarrow> bool" where
  "drain_stops ctx now gap b i \<longleftrightarrow> ctx_done ctx (now i) \<or> all_empty (drain_sees gap i b)"

definition drain_answer ::
    "context_t \<Rightarrow> (nat \<Rightarrow> nat) \<Rightarrow> (nat \<Rightarrow> virtual_bus \<Rightarrow> virtual_bus) \<Rightarrow> virtual_bus \<Rightarrow> nat \<Rightarrow> (can_error, unit) result \<times> virtual_bus" where
  "drain_answer ctx now gap b i =
     (if ctx_done ctx (now i) then (Err Timeout, snd (vb_close (drain_sees gap i b)))
      else vb_close (gap (2 * i + 1) (drain_sees gap i b)))"

lemma drain_poll_pass:
  "drain_poll ctx (now i) (gap (2 * i)) (gap (2 * i + 1)) (gap_run gap (2 * i) b) =
     (if drain_stops ctx now gap b i then Drain_ends (drain_answer ctx now gap b i)
      else Drain_sleeps (gap_run gap (2 * Suc i) b))"
  by (simp add: drain_poll_def drain_stops_def drain_answer_def drain_sees_def Let_def)

lemma drain_some:
  "drain_stops ctx now gap b (i + k) \<Longrightarrow> \<forall>j < k. \<not> drain_stops ctx now gap b (i + j) \<Longrightarrow>
   close_with_drain ctx now gap i (gap_run gap (2 * i) b) = Some (drain_answer ctx now gap b (i + k))"
proof (induction k arbitrary: i)
  case 0
  then show ?case by (subst close_with_drain.simps) (simp only: drain_poll_pass drain_pass.case if_True add_0_right)
next
  case (Suc k)
  have "\<not> drain_stops ctx now gap b i" using Suc.prems(2) by force
  moreover have "close_with_drain ctx now gap (Suc i) (gap_run gap (2 * Suc i) b) = Some (drain_answer ctx now gap b (i + Suc k))"
    using Suc.IH [of "Suc i"] Suc.prems by force
  ultimately show ?case
    by (subst close_with_drain.simps) (simp only: drain_poll_pass drain_pass.case if_False)
qed

lemma drain_result:
  assumes "close_with_drain ctx now gap i (gap_run gap (2 * i) b) = Some r"
  shows "\<exists>k. drain_stops ctx now gap b k"
proof -
  have "\<forall>b'. b = gap_run gap (2 * i) b' \<longrightarrow> (\<exists>k. drain_stops ctx now gap b' k)"
    if "close_with_drain ctx now gap i b = Some r" for ctx now gap i b r
    using that
  proof (rule close_with_drain.raw_induct [rotated, where P = "\<lambda>ctx now gap i b r.
      \<forall>b'. b = gap_run gap (2 * i) b' \<longrightarrow> (\<exists>k. drain_stops ctx now gap b' k)"])
    fix self ctx now gap i b r
    assume IH: "\<And>ctx now gap i b r. self ctx now gap i b = Some r \<Longrightarrow>
        \<forall>b'. b = gap_run gap (2 * i) b' \<longrightarrow> (\<exists>k. drain_stops ctx now gap b' k)"
      and r: "(case drain_poll ctx (now i) (gap (2 * i)) (gap (2 * i + 1)) b of
          Drain_ends r \<Rightarrow> Some r | Drain_sleeps b \<Rightarrow> self ctx now gap (Suc i) b) = Some r"
    show "\<forall>b'. b = gap_run gap (2 * i) b' \<longrightarrow> (\<exists>k. drain_stops ctx now gap b' k)"
    proof (intro allI impI)
      fix b'
      assume b: "b = gap_run gap (2 * i) b'"
      show "\<exists>k. drain_stops ctx now gap b' k"
      proof (cases "drain_stops ctx now gap b' i")
        case False
        with r have "self ctx now gap (Suc i) (gap_run gap (2 * Suc i) b') = Some r"
          unfolding b drain_poll_pass by simp
        from IH [OF this] show ?thesis by blast
      qed blast
    qed
  qed
  with assms show ?thesis by blast
qed

lemma gap_run_inv:
  "(\<And>i b. vb_inv b \<Longrightarrow> vb_inv (gap i b)) \<Longrightarrow> vb_inv b \<Longrightarrow> vb_inv (gap_run gap k b)"
  by (induction k) simp_all

lemma all_empty_open_queues:
  assumes "vb_inv b" "all_empty b"
  shows "list_all (\<lambda>s. si_closed s \<or> si_queue s = []) (vb_store b)"
proof -
  have "si_closed (vb_store b ! n) \<or> si_queue (vb_store b ! n) = []" if "n < length (vb_store b)" for n
    using that assms by (auto simp: vb_inv_def all_empty_def list_all_iff sub_is_empty_def)
  then show ?thesis by (simp add: list_all_length)
qed

section \<open>Properties\<close>

text \<open>
  C9: The life of an in-process bus in any sequence of whole calls (REQ-CAN-008): whatever was called before, the first
  \<^verbatim>\<open>close\<close> answers \<^verbatim>\<open>Ok\<close>. From then on \<^verbatim>\<open>send\<close>, \<^verbatim>\<open>subscribe\<close>, \<^verbatim>\<open>loan\<close> and \<^verbatim>\<open>send_loaned\<close> (which still releases the loan)
  answer \<^verbatim>\<open>Closed\<close>, \<^verbatim>\<open>close\<close> answers \<^verbatim>\<open>Ok\<close> again, \<^verbatim>\<open>close_with_drain\<close> answers \<^verbatim>\<open>Ok\<close> at once (\<^verbatim>\<open>Timeout\<close> after its
  deadline) and changes nothing, \<^verbatim>\<open>health\<close> is down, and every subscriber queue that was ever handed out is closed.
  Calls that overlap with \<^verbatim>\<open>close\<close> are the matter of \<open>Can_Virtual_Steps\<close> and \<open>Can_Virtual_Close\<close>.
\<close>

theorem virtual_lifecycle:
  "let (rs, b) = bus_run vb_send vb_subscribe vb_close (cs @ OpClose # ds) vb_new
   in rs = fst (bus_run vb_send vb_subscribe vb_close cs vb_new) @ CloseReply (Ok ()) # map closed_reply ds \<and>
      (vb_loan b :: (can_error, 's loaned_frame) result) = Err Closed \<and>
      (let (r, loans', _) = vb_send_loaned clk lf loans b in r = Err Closed \<and> loans' = return_loan lf loans) \<and>
      close_with_drain ctx now (\<lambda>_ b. b) 0 b = Some (if ctx_done ctx (now 0) then Err Timeout else Ok (), b) \<and>
      vb_health b = health_down ''bus is closed'' \<and>
      list_all si_closed (vb_store b)"
proof -
  let ?b = "snd (bus_run vb_send vb_subscribe vb_close (cs @ OpClose # ds) vb_new)"
  have closed: "vb_closed ?b" using vbus.run_closed_iff [of "cs @ OpClose # ds" vb_new] by simp
  moreover from this have "vb_subs ?b = []" using vbus.run_inv [OF vb_inv_new, of "cs @ OpClose # ds"] by (simp add: vb_inv_def)
  ultimately have "close_with_drain ctx now (\<lambda>_ b. b) 0 ?b = Some (if ctx_done ctx (now 0) then Err Timeout else Ok (), ?b)"
    by (subst close_with_drain.simps) (simp add: drain_poll_def all_empty_def vb_close_def)
  moreover have "vb_loan ?b = Err Closed" "fst (vb_send_loaned clk lf loans ?b) = Err Closed"
    "fst (snd (vb_send_loaned clk lf loans ?b)) = return_loan lf loans" "vb_health ?b = health_down ''bus is closed''"
    using closed by (simp_all add: vb_loan_def vb_send_loaned_def vb_send_def vb_health_def)
  ultimately show ?thesis
    using vbus.lifecycle(1) [OF vb_inv_new, where cs = cs and ds = ds]
      vbus.lifecycle(2) [OF vb_inv_new, where cs = cs and ds = ds]
    by (simp add: list_all_length case_prod_unfold Let_def)
qed

lemma subscribed_queue:
  assumes "\<not> vb_closed b" "vb_inv b" "h = length (vb_store b)"
    and "b' = snd (vb_subscribe now filters opts b)"
  shows "vb_inv b'" "h < length (vb_store b')"
    "vb_store b' ! h = sub_new now (chan_depth opts 64) (back_pressure opts) (rate_limit_per_sec opts)"
    "vb_accepts b' h = (\<lambda>f. wf_frame f \<and> (filters = [] \<or> list_ex (\<lambda>flt. filter_matches flt f) filters))"
proof -
  show "vb_inv b'" using assms by (simp add: vb_subscribe_inv)
  show "h < length (vb_store b')"
    "vb_store b' ! h = sub_new now (chan_depth opts 64) (back_pressure opts) (rate_limit_per_sec opts)"
    using assms by (simp_all add: vb_subscribe_def Let_def)
  have "h \<notin> vs_inner ` set (vb_subs b)"
    using assms by (auto simp: vb_inv_def handles_ok_def list_all_iff)
  then have "h \<notin> set (targets f (vb_subs b))" for f using set_targets [of f "vb_subs b"] by blast
  then show "vb_accepts b' h = (\<lambda>f. wf_frame f \<and> (filters = [] \<or> list_ex (\<lambda>flt. filter_matches flt f) filters))"
    using assms
    by (auto simp: fun_eq_iff vb_accepts_def send_ok_def vb_subscribe_def Let_def targets_def vsub_matches_def)
qed

text \<open>
  C8: Every subscriber of the in-process bus sees a private queue. After any calls on an open bus, a
  new subscription with filters \<open>filters\<close> starts with an empty queue, and after any sends, and any
  reads and hang-ups of any receivers, that queue is the one obtained by pushing exactly the valid
  frames that match a filter (all of them when there is no filter) and by the receiver's own
  operations, in their order: no other subscriber has an influence on it.
\<close>

theorem virtual_private_queue:
  assumes "OpClose \<notin> set cs"
  shows "let b = snd (bus_run vb_send vb_subscribe vb_close cs vb_new);
             (r, b') = vb_subscribe now filters opts b;
             h = length (vb_store b)
         in r = Ok h \<and>
            vb_store (fold (endpoint_step (\<lambda>clk f b. snd (vb_send clk f b)) vb_update) es b') ! h =
              fold (queue_step
                     (\<lambda>f. wf_frame f \<and> (filters = [] \<or> list_ex (\<lambda>flt. filter_matches flt f) filters)) h) es
                (sub_new now (chan_depth opts 64) (back_pressure opts) (rate_limit_per_sec opts))"
proof -
  let ?b = "snd (bus_run vb_send vb_subscribe vb_close cs vb_new)"
  have open_b: "\<not> vb_closed ?b" using assms vbus.run_closed_iff [of cs vb_new] by (simp add: vb_new_def)
  note q = subscribed_queue [OF open_b vbus.run_inv [OF vb_inv_new] refl refl, of now filters opts]
  have "fst (vb_subscribe now filters opts ?b) = Ok (length (vb_store ?b))"
    using vbus.subscribe_open [OF open_b] by blast
  then show ?thesis
    using vports.private_queue [OF q(1,2), of es] by (simp add: q(3,4) case_prod_unfold Let_def)
qed

theorem virtual_private_queue_witness:
  "let b = snd (bus_run vb_send vb_subscribe vb_close [OpSubscribe 0 [] default_options] vb_new);
       (r, b') = vb_subscribe 7 [\<lparr>flt_id = 5, flt_mask = 0xFF\<rparr>] default_options b
   in r = Ok 1 \<and>
      map f_id (si_queue (vb_store (fold (endpoint_step (\<lambda>clk f b. snd (vb_send clk f b)) vb_update)
        [Arrive (\<lambda>_. 8) (default_frame\<lparr>f_id := 5\<rparr>), Arrive (\<lambda>_. 9) (default_frame\<lparr>f_id := 6\<rparr>), Receive 0,
         Arrive (\<lambda>_. 9) (default_frame\<lparr>f_id := 0x105\<rparr>)] b') ! 1)) = [5, 0x105]"
proof -
  let ?es = "[Arrive (\<lambda>_. 8) (default_frame\<lparr>f_id := 5\<rparr>), Arrive (\<lambda>_. 9) (default_frame\<lparr>f_id := 6\<rparr>), Receive 0,
         Arrive (\<lambda>_. 9) (default_frame\<lparr>f_id := 0x105\<rparr>)]"
  have len: "length (vb_store (snd (bus_run vb_send vb_subscribe vb_close
      [OpSubscribe 0 [] default_options] vb_new))) = 1"
    by (simp add: vb_subscribe_def vb_new_def Let_def)
  have wf: "wf_frame (default_frame\<lparr>f_id := 5\<rparr>)" "wf_frame (default_frame\<lparr>f_id := 6\<rparr>)"
    "wf_frame (default_frame\<lparr>f_id := 0x105\<rparr>)"
    by (simp_all add: wf_frame_def wf_classic_def wf_xl_def wf_fd_def wf_id_def default_frame_def)
  have "map f_id (si_queue (fold (queue_step (\<lambda>f. wf_frame f \<and> ([\<lparr>flt_id = 5, flt_mask = 0xFF\<rparr>] = [] \<or>
      list_ex (\<lambda>flt. filter_matches flt f) [\<lparr>flt_id = 5, flt_mask = 0xFF\<rparr>])) 1) ?es
      (sub_new 7 (chan_depth default_options 64) (back_pressure default_options)
        (rate_limit_per_sec default_options)))) = [5, 0x105]"
    using wf
    by (simp add: filter_matches_def sub_new_def default_options_def chan_depth_def sub_push_def rate_admit_def)
  then show ?thesis
    using virtual_private_queue [of "[OpSubscribe 0 [] default_options]" 7 "[\<lparr>flt_id = 5, flt_mask = 0xFF\<rparr>]"
        default_options ?es]
    by (simp only: len case_prod_unfold Let_def) simp
qed

text \<open>
  The write, error and byte counters of the in-process bus account for every call since it was
  created: the frames sent with success, the sends refused, and the payload bytes of the former
  (modulo the width of the counters).
\<close>

theorem virtual_metrics_account:
  "let (rs, b) = bus_run vb_send vb_subscribe vb_close cs vb_new; m = vb_metrics b
   in write_count m = of_nat (length (sent_ok cs rs)) \<and> error_count m = of_nat (failed_sends rs) \<and>
      bytes_written m = of_nat (total_bytes (sent_ok cs rs))"
  using vb_run_counts [of cs vb_new]
  by (simp add: vb_metrics_def vb_new_def zero_metrics_def case_prod_unfold Let_def)

text \<open>
  C11: A send on an open in-process bus accounts for its deliveries: the delivered and the dropped
  counts together grow by the number of open subscribers whose filters match, the delivered count by
  the number of those whose queue took the frame, and the delivered bytes by the payload for each.
\<close>

theorem virtual_delivery_counts:
  assumes "vb_inv b" "send_ok b f"
  shows "let m = vb_metrics b; m' = vb_metrics (snd (vb_send clk f b));
             wanted = filter (\<lambda>s. \<not> si_closed (vb_store b ! vs_inner s) \<and> vsub_matches s f) (vb_subs b);
             taken = filter (\<lambda>s. fst (sub_push (clk (vs_inner s)) f (vb_store b ! vs_inner s))) wanted
         in deliver_count m' + drop_count m' = deliver_count m + drop_count m + of_nat (length wanted) \<and>
            deliver_count m' = deliver_count m + of_nat (length taken) \<and>
            bytes_delivered m' = bytes_delivered m + of_nat (length (f_data f) * length taken)"
proof -
  let ?t = "targets f (live_subs b)" and ?k = "takers clk f (live_subs b) (vb_store b)"
  have "length ?t = length (filter (\<lambda>s. \<not> si_closed (vb_store b ! vs_inner s) \<and> vsub_matches s f) (vb_subs b))"
    by (simp add: targets_def live_subs_def conj_commute)
  moreover have "length ?k = length (filter (\<lambda>s. fst (sub_push (clk (vs_inner s)) f (vb_store b ! vs_inner s)))
      (filter (\<lambda>s. \<not> si_closed (vb_store b ! vs_inner s) \<and> vsub_matches s f) (vb_subs b)))"
    by (simp add: takers_def targets_def live_subs_def filter_map comp_def conj_ac)
  moreover have "length ?k \<le> length ?t" by (simp add: takers_def)
  ultimately show ?thesis
    using vb_broadcast [OF assms(1), of clk f 0 0] vb_send_accepted(5) [OF assms(2), of clk]
    by (simp add: vb_metrics_def case_prod_unfold Let_def of_nat_diff)
qed

theorem virtual_delivery_counts_witness:
  "deliver_count (vb_metrics (snd (vb_send (\<lambda>_. 1) default_frame
     (snd (vb_subscribe 0 [] default_options vb_new))))) = 1"
proof -
  let ?b = "snd (vb_subscribe 0 [] default_options vb_new)"
  have "wf_frame default_frame"
    by (simp add: wf_frame_def wf_classic_def wf_id_def default_frame_def)
  then have "send_ok ?b default_frame" by (simp add: send_ok_def vb_subscribe_def vb_new_def Let_def)
  from virtual_delivery_counts [OF vb_subscribe_inv [OF vb_inv_new] this, of "\<lambda>_. 1"]
  show ?thesis
    by (simp add: vb_subscribe_def vb_new_def zero_metrics_def vb_metrics_def vsub_matches_def sub_new_def
        default_options_def chan_depth_def sub_push_def rate_admit_def Let_def)
qed



text \<open>
  A frame that is sent between the look at the queues and the \<^verbatim>\<open>close\<close> is accepted, and \<^verbatim>\<open>close_with_drain\<close> answers \<^verbatim>\<open>Ok\<close>
  nevertheless: it is still in the queue of the subscriber, and counted as delivered.
\<close>

theorem drain_overtaken:
  assumes "wf_frame f" "\<not> ctx_done ctx (now 0)"
  shows "let b = snd (vb_subscribe t [] default_options vb_new);
             gap = (\<lambda>k b. if k = 1 then snd (vb_send clk f b) else b)
         in fst (vb_send clk f b) = Ok () \<and>
            (\<exists>b'. close_with_drain ctx now gap 0 b = Some (Ok (), b') \<and> map si_queue (vb_store b') = [[f]])"
proof -
  have v: "validate_frame f = Ok ()" using assms(1) by (simp add: validate_frame_iff)
  show ?thesis using assms(2) v
    by (subst close_with_drain.simps)
      (simp add: drain_poll_def all_empty_def sub_is_empty_def vb_subscribe_def vb_new_def vb_send_def vb_close_def broadcast_def
        gc_def vsub_matches_def sub_new_def sub_push_def rate_admit_def default_options_def chan_depth_def sub_close_def Let_def)
qed

text \<open>
  Without a deadline \<^verbatim>\<open>close_with_drain\<close> returns exactly when some pass finds every subscriber
  queue empty: one subscriber that is never read keeps it polling for ever, and the bus open.
\<close>

theorem drain_without_deadline:
  "(\<exists>r. close_with_drain ctx_background now gap 0 b = Some r) \<longleftrightarrow> (\<exists>k. all_empty (gap_run gap (2 * k + 1) b))"
proof -
  have stops: "drain_stops ctx_background now gap b k = all_empty (gap_run gap (2 * k + 1) b)" for k
    by (simp add: drain_stops_def drain_sees_def)
  show ?thesis
  proof
    assume "\<exists>r. close_with_drain ctx_background now gap 0 b = Some r"
    then show "\<exists>k. all_empty (gap_run gap (2 * k + 1) b)" using drain_result [of ctx_background now gap 0 b] stops by auto
  next
    assume "\<exists>k. all_empty (gap_run gap (2 * k + 1) b)"
    then have ex: "\<exists>k. drain_stops ctx_background now gap b k" by (simp only: stops)
    define k where "k = (LEAST k. drain_stops ctx_background now gap b k)"
    have "drain_stops ctx_background now gap b k" unfolding k_def using ex by (rule LeastI_ex)
    moreover have "\<not> drain_stops ctx_background now gap b j" if "j < k" for j
      using that unfolding k_def by (rule not_less_Least)
    ultimately show "\<exists>r. close_with_drain ctx_background now gap 0 b = Some r"
      using drain_some [of ctx_background now gap b 0 k] by auto
  qed
qed

end
