(* ===== verification/Can_Virtual_Steps.thy ===== *)
theory Can_Virtual_Steps
  imports Can_Virtual "HOL-Library.Sublist"
begin

text \<open>
  The calls of the in-process bus (\<^verbatim>\<open>src/virtual_bus/mod.rs\<close>) by any number of threads, step by step: every
  atomic access (the closed flag, a counter, the mutex, one subscriber queue) is a step of its own.
  \<open>vb_pc\<close> is what a thread still has to do; \<open>vy_lock\<close> is the thread that holds the mutex \<^verbatim>\<open>inner\<close>. The receivers
  pop and close their queues at any time.
\<close>

section \<open>The code\<close>

datatype vb_pc =
    Idle
  | Send_start clock frame
  | Send_error can_error
  | Send_bytes clock frame
  | Send_writes clock frame
  | Send_lock clock frame
  | Send_gc clock frame "virtual_sub list" "virtual_sub list"
  | Send_push clock frame "virtual_sub list" u64 u64
  | Send_delivered frame u64 u64
  | Send_dropped frame u64 u64
  | Send_delivered_bytes frame u64
  | Sub_start nat "can_filter list" subscriber_options
  | Sub_lock "can_filter list" sub_inner
  | Close_start
  | Close_lock
  | Close_subs "virtual_sub list"
  | Done bus_reply

record vsys =
  vy_bus :: virtual_bus
  vy_lock :: "nat option"
  vy_pcs :: "nat \<Rightarrow> vb_pc"

text \<open>What a step does that others can see: the mutex is taken to send a frame, or a frame is pushed into a queue.\<close>

datatype vb_event = Quiet | Locked frame | Pushed nat frame

abbreviation upd_counts :: "(metrics \<Rightarrow> metrics) \<Rightarrow> virtual_bus \<Rightarrow> virtual_bus" where
  "upd_counts g b \<equiv> b\<lparr>vb_counts := g (vb_counts b)\<rparr>"

definition frame_len :: "frame \<Rightarrow> u64" where
  "frame_len f = of_nat (length (f_data f))"

text \<open>The next step of thread \<open>i\<close>; none when it waits for the mutex or has nothing to do.\<close>

definition send_step :: "nat \<Rightarrow> vb_pc \<Rightarrow> vsys \<Rightarrow> (vb_event \<times> vsys) option" where
  "send_step i pc s =
     (let b = vy_bus s;
          goto = (\<lambda>pc s. s\<lparr>vy_pcs := (vy_pcs s)(i := pc)\<rparr>)
      in case pc of
        Send_start clk f \<Rightarrow>
          Some (Quiet, goto (if vb_closed b then Send_error Closed
                             else case validate_frame f of Err e \<Rightarrow> Send_error e | Ok _ \<Rightarrow> Send_bytes clk f) s)
      | Send_error e \<Rightarrow> Some (Quiet, goto (Done (SendReply (Err e))) (s\<lparr>vy_bus := count_error b\<rparr>))
      | Send_bytes clk f \<Rightarrow>
          Some (Quiet, goto (Send_writes clk f)
            (s\<lparr>vy_bus := upd_counts (\<lambda>c. c\<lparr>bytes_written := bytes_written c + frame_len f\<rparr>) b\<rparr>))
      | Send_writes clk f \<Rightarrow>
          Some (Quiet, goto (Send_lock clk f) (s\<lparr>vy_bus := upd_counts (\<lambda>c. c\<lparr>write_count := write_count c + 1\<rparr>) b\<rparr>))
      | Send_lock clk f \<Rightarrow>
          (if vy_lock s = None then Some (Locked f, goto (Send_gc clk f (vb_subs b) []) (s\<lparr>vy_lock := Some i\<rparr>)) else None)
      | Send_gc clk f [] kept \<Rightarrow>
          Some (Quiet, goto (Send_push clk f kept 0 0) (s\<lparr>vy_bus := b\<lparr>vb_subs := kept\<rparr>\<rparr>))
      | Send_gc clk f (sub # subs) kept \<Rightarrow>
          Some (Quiet, goto (Send_gc clk f subs (if si_closed (vb_store b ! vs_inner sub) then kept else kept @ [sub])) s)
      | Send_push clk f [] delivered dropped \<Rightarrow>
          Some (Quiet, goto (Send_delivered f delivered dropped) (s\<lparr>vy_lock := None\<rparr>))
      | Send_push clk f (sub # subs) delivered dropped \<Rightarrow>
          (if vsub_matches sub f then
             let h = vs_inner sub; (ok, q) = sub_push (clk h) f (vb_store b ! h)
             in Some (Pushed h f, goto (Send_push clk f subs (if ok then delivered + 1 else delivered)
                                                             (if ok then dropped else dropped + 1))
                                    (s\<lparr>vy_bus := b\<lparr>vb_store := (vb_store b)[h := q]\<rparr>\<rparr>))
           else Some (Quiet, goto (Send_push clk f subs delivered dropped) s))
      | Send_delivered f delivered dropped \<Rightarrow>
          Some (Quiet, goto (Send_dropped f delivered dropped)
            (s\<lparr>vy_bus := upd_counts (\<lambda>c. c\<lparr>deliver_count := deliver_count c + delivered\<rparr>) b\<rparr>))
      | Send_dropped f delivered dropped \<Rightarrow>
          Some (Quiet, goto (Send_delivered_bytes f delivered)
            (s\<lparr>vy_bus := upd_counts (\<lambda>c. c\<lparr>drop_count := drop_count c + dropped\<rparr>) b\<rparr>))
      | Send_delivered_bytes f delivered \<Rightarrow>
          Some (Quiet, goto (Done (SendReply (Ok ())))
            (s\<lparr>vy_bus := upd_counts (\<lambda>c. c\<lparr>bytes_delivered := bytes_delivered c + frame_len f * delivered\<rparr>) b\<rparr>))
      | _ \<Rightarrow> None)"

definition subscribe_step :: "nat \<Rightarrow> vb_pc \<Rightarrow> vsys \<Rightarrow> (vb_event \<times> vsys) option" where
  "subscribe_step i pc s =
     (let b = vy_bus s;
          goto = (\<lambda>pc s. s\<lparr>vy_pcs := (vy_pcs s)(i := pc)\<rparr>)
      in case pc of
        Sub_start now filters opts \<Rightarrow>
          Some (Quiet, goto (if vb_closed b then Done (SubscribeReply (Err Closed))
             else Sub_lock filters (sub_new now (chan_depth opts 64) (back_pressure opts) (rate_limit_per_sec opts))) s)
      | Sub_lock filters inner \<Rightarrow>
          (if vy_lock s = None then
             let h = length (vb_store b)
             in Some (Quiet, goto (Done (SubscribeReply (Ok h)))
                  (s\<lparr>vy_bus := b\<lparr>vb_store := vb_store b @ [inner],
                                 vb_subs := vb_subs b @ [\<lparr>vs_filters = filters, vs_inner = h\<rparr>]\<rparr>\<rparr>))
           else None)
      | _ \<Rightarrow> None)"

definition close_step :: "nat \<Rightarrow> vb_pc \<Rightarrow> vsys \<Rightarrow> (vb_event \<times> vsys) option" where
  "close_step i pc s =
     (let b = vy_bus s;
          goto = (\<lambda>pc s. s\<lparr>vy_pcs := (vy_pcs s)(i := pc)\<rparr>)
      in case pc of
        Close_start \<Rightarrow>
          Some (Quiet, if vb_closed b then goto (Done (CloseReply (Ok ()))) s
                       else goto Close_lock (s\<lparr>vy_bus := b\<lparr>vb_closed := True\<rparr>\<rparr>))
      | Close_lock \<Rightarrow>
          (if vy_lock s = None then Some (Quiet, goto (Close_subs (vb_subs b)) (s\<lparr>vy_lock := Some i\<rparr>)) else None)
      | Close_subs [] \<Rightarrow>
          Some (Quiet, goto (Done (CloseReply (Ok ()))) (s\<lparr>vy_bus := b\<lparr>vb_subs := []\<rparr>, vy_lock := None\<rparr>))
      | Close_subs (sub # subs) \<Rightarrow>
          Some (Quiet, goto (Close_subs subs)
            (s\<lparr>vy_bus := b\<lparr>vb_store := (vb_store b)[vs_inner sub := sub_close (vb_store b ! vs_inner sub)]\<rparr>\<rparr>))
      | _ \<Rightarrow> None)"

definition thread_step :: "nat \<Rightarrow> vsys \<Rightarrow> (vb_event \<times> vsys) option" where
  "thread_step i s =
     (case vy_pcs s i of
        Idle \<Rightarrow> None
      | Done r \<Rightarrow> None
      | Sub_start now fs opts \<Rightarrow> subscribe_step i (vy_pcs s i) s
      | Sub_lock fs inner \<Rightarrow> subscribe_step i (vy_pcs s i) s
      | Close_start \<Rightarrow> close_step i (vy_pcs s i) s
      | Close_lock \<Rightarrow> close_step i (vy_pcs s i) s
      | Close_subs subs \<Rightarrow> close_step i (vy_pcs s i) s
      | _ \<Rightarrow> send_step i (vy_pcs s i) s)"

text \<open>Where a call starts.\<close>

fun call_start :: "bus_op \<Rightarrow> vb_pc" where
  "call_start (OpSend clk f) = Send_start clk f"
| "call_start (OpSubscribe now fs opts) = Sub_start now fs opts"
| "call_start OpClose = Close_start"

datatype vb_label = Step nat | Call nat bus_op | Receive nat | Close_receiver nat

fun vb_do :: "vb_label \<Rightarrow> vsys \<Rightarrow> (vb_event \<times> vsys) option" where
  "vb_do (Step i) s = thread_step i s"
| "vb_do (Call i c) s =
     (case vy_pcs s i of
        Idle \<Rightarrow> Some (Quiet, s\<lparr>vy_pcs := (vy_pcs s)(i := call_start c)\<rparr>)
      | Done r \<Rightarrow> Some (Quiet, s\<lparr>vy_pcs := (vy_pcs s)(i := call_start c)\<rparr>)
      | _ \<Rightarrow> None)"
| "vb_do (Receive h) s =
     (if h < length (vb_store (vy_bus s))
      then Some (Quiet, s\<lparr>vy_bus := vb_update h (\<lambda>q. snd (recv_poll q)) (vy_bus s)\<rparr>) else None)"
| "vb_do (Close_receiver h) s =
     (if h < length (vb_store (vy_bus s)) then Some (Quiet, s\<lparr>vy_bus := vb_update h receiver_close (vy_bus s)\<rparr>) else None)"

inductive vb_steps :: "vsys \<Rightarrow> vb_label list \<Rightarrow> vb_event list \<Rightarrow> vsys \<Rightarrow> bool" where
  nothing: "vb_steps s [] [] s"
| more: "vb_steps s ls es s' \<Longrightarrow> vb_do l s' = Some (e, s'') \<Longrightarrow> vb_steps s (ls @ [l]) (es @ [e]) s''"

definition vy_init :: vsys where
  "vy_init = \<lparr>vy_bus = vb_new, vy_lock = None, vy_pcs = (\<lambda>_. Idle)\<rparr>"

text \<open>A given interleaving, run.\<close>

fun vb_exec :: "vb_label list \<Rightarrow> vsys \<Rightarrow> (vb_event list \<times> vsys) option" where
  "vb_exec [] s = Some ([], s)"
| "vb_exec (l # ls) s =
     (case vb_do l s of
        None \<Rightarrow> None
      | Some (e, s') \<Rightarrow> map_option (\<lambda>(es, s''). (e # es, s'')) (vb_exec ls s'))"

section \<open>A subscription that outlives the bus\<close>

lemma vb_steps_append: "vb_steps s' ls' es' s'' \<Longrightarrow> vb_steps s ls es s' \<Longrightarrow> vb_steps s (ls @ ls') (es @ es') s''"
proof (induction rule: vb_steps.induct)
  case (more s1 ls' es' s2 l e s3)
  from vb_steps.more [OF more.IH [OF more.prems] more.hyps(2)] show ?case by simp
qed simp

lemma vb_steps_exec: "vb_exec ls s = Some (es, s') \<Longrightarrow> vb_steps s ls es s'"
proof (induction ls arbitrary: s es)
  case Nil
  then show ?case using vb_steps.nothing by simp
next
  case (Cons l ls)
  then obtain e m es' where m: "vb_do l s = Some (e, m)" "vb_exec ls m = Some (es', s')" "es = e # es'"
    by (auto split: option.splits)
  have "vb_steps s [l] [e] m" using vb_steps.more [OF vb_steps.nothing m(1)] by simp
  with vb_steps_append [OF Cons.IH [OF m(2)]] m(3) show ?case by fastforce
qed

fun calm :: "vb_pc \<Rightarrow> bool" where
  "calm Idle = True"
| "calm (Send_start clk f) = True"
| "calm (Send_error e) = True"
| "calm (Sub_start now fs opts) = True"
| "calm Close_start = True"
| "calm (Done r) = True"
| "calm _ = False"

text \<open>A queue that is open and empty on a closed bus where no call is past its check of the closed flag.\<close>

definition orphan :: "nat \<Rightarrow> vsys \<Rightarrow> bool" where
  "orphan h s \<longleftrightarrow>
     vb_closed (vy_bus s) \<and> (\<forall>i. calm (vy_pcs s i)) \<and> h < length (vb_store (vy_bus s)) \<and>
     \<not> si_closed (vb_store (vy_bus s) ! h) \<and> si_queue (vb_store (vy_bus s) ! h) = []"

lemmas step_defs = thread_step_def send_step_def subscribe_step_def close_step_def Let_def

lemma orphan_step:
  assumes "orphan h s" "vb_do l s = Some (e, s')" "l \<noteq> Close_receiver h"
  shows "orphan h s'"
proof (cases l)
  case (Step i)
  have "calm (vy_pcs s i)" using assms(1) by (simp add: orphan_def)
  with Step assms show ?thesis
    by (cases "vy_pcs s i") (auto simp: orphan_def step_defs count_error_def)
next
  case (Call i c)
  with assms show ?thesis by (cases c) (auto simp: orphan_def split: vb_pc.splits)
next
  case (Receive k)
  with assms show ?thesis
    by (cases "k = h") (auto simp: orphan_def vb_update_def recv_poll_eq split: if_splits)
next
  case (Close_receiver k)
  with assms show ?thesis by (auto simp: orphan_def vb_update_def split: if_splits)
qed

lemma orphan_steps: "vb_steps s ls es s' \<Longrightarrow> orphan h s \<Longrightarrow> Close_receiver h \<notin> set ls \<Longrightarrow> orphan h s'"
  by (induction rule: vb_steps.induct) (auto intro: orphan_step)

lemma orphan_waits: "orphan h s \<Longrightarrow> recv_poll (vb_store (vy_bus s) ! h) = (Pending, vb_store (vy_bus s) ! h)"
  by (simp add: orphan_def recv_poll_eq)

section \<open>One order of frames for all subscribers\<close>

fun locked_frames :: "vb_event list \<Rightarrow> frame list" where
  "locked_frames [] = []"
| "locked_frames (Locked f # es) = f # locked_frames es"
| "locked_frames (_ # es) = locked_frames es"

fun pushed_frames :: "nat \<Rightarrow> vb_event list \<Rightarrow> frame list" where
  "pushed_frames h [] = []"
| "pushed_frames h (Pushed k f # es) = (if k = h then f # pushed_frames h es else pushed_frames h es)"
| "pushed_frames h (_ # es) = pushed_frames h es"

lemma locked_frames_append [simp]: "locked_frames (es @ fs) = locked_frames es @ locked_frames fs"
  by (induction es rule: locked_frames.induct) simp_all

lemma pushed_frames_append [simp]: "pushed_frames h (es @ fs) = pushed_frames h es @ pushed_frames h fs"
  by (induction h es rule: pushed_frames.induct) simp_all

text \<open>Who holds the mutex, and what a sender still has to serve.\<close>

fun holding :: "vb_pc \<Rightarrow> bool" where
  "holding (Send_gc clk f subs kept) = True"
| "holding (Send_push clk f subs d r) = True"
| "holding (Close_subs subs) = True"
| "holding _ = False"

fun serving :: "vb_pc \<Rightarrow> (frame \<times> nat list) option" where
  "serving (Send_gc clk f subs kept) = Some (f, map vs_inner (kept @ subs))"
| "serving (Send_push clk f subs d r) = Some (f, map vs_inner subs)"
| "serving _ = None"

definition mutex_inv :: "vsys \<Rightarrow> bool" where
  "mutex_inv s \<longleftrightarrow> (\<forall>i. holding (vy_pcs s i) \<longleftrightarrow> vy_lock s = Some i)"

definition fresh_inv :: "vsys \<Rightarrow> bool" where
  "fresh_inv s \<longleftrightarrow> distinct (map vs_inner (vb_subs (vy_bus s))) \<and>
     (\<forall>h \<in> set (map vs_inner (vb_subs (vy_bus s))). h < length (vb_store (vy_bus s)))"

definition serving_inv :: "vsys \<Rightarrow> vb_event list \<Rightarrow> bool" where
  "serving_inv s es \<longleftrightarrow>
     (\<forall>i f hs. serving (vy_pcs s i) = Some (f, hs) \<longrightarrow>
        distinct hs \<and> (\<forall>h \<in> set hs. h < length (vb_store (vy_bus s))) \<and>
        (\<exists>fs. locked_frames es = fs @ [f] \<and> (\<forall>h \<in> set hs. subseq (pushed_frames h es) fs)))"

lemma serving_holding: "serving pc = Some x \<Longrightarrow> holding pc"
  by (cases pc) simp_all

text \<open>What a step of a thread changes, by what it does to the mutex.\<close>

lemma thread_step_lock:
  assumes "thread_step i s = Some (e, s')"
  shows "vy_pcs s' = (vy_pcs s)(i := vy_pcs s' i)"
    "if holding (vy_pcs s i) then vy_lock s' = (if holding (vy_pcs s' i) then vy_lock s else None)
     else if holding (vy_pcs s' i) then vy_lock s = None \<and> vy_lock s' = Some i else vy_lock s' = vy_lock s"
proof -
  have "vy_pcs s' = (vy_pcs s)(i := vy_pcs s' i) \<and>
    (if holding (vy_pcs s i) then vy_lock s' = (if holding (vy_pcs s' i) then vy_lock s else None)
     else if holding (vy_pcs s' i) then vy_lock s = None \<and> vy_lock s' = Some i else vy_lock s' = vy_lock s)"
  proof (cases "vy_pcs s i")
    case (Send_gc clk f subs kept)
    with assms show ?thesis by (cases subs) (auto simp: step_defs)
  next
    case (Send_push clk f subs d r)
    with assms show ?thesis by (cases subs) (auto simp: step_defs split: if_splits prod.splits)
  next
    case (Close_subs subs)
    with assms show ?thesis by (cases subs) (auto simp: step_defs)
  qed (use assms in \<open>auto simp: step_defs count_error_def split: if_splits sum.splits\<close>)
  then show "vy_pcs s' = (vy_pcs s)(i := vy_pcs s' i)"
    "if holding (vy_pcs s i) then vy_lock s' = (if holding (vy_pcs s' i) then vy_lock s else None)
     else if holding (vy_pcs s' i) then vy_lock s = None \<and> vy_lock s' = Some i else vy_lock s' = vy_lock s"
    by simp_all
qed

lemma holding_start [simp]: "\<not> holding (call_start c)"
  by (cases c) simp_all

lemma serving_start [simp]: "serving (call_start c) = None"
  by (cases c) simp_all

lemma vb_do_other:
  assumes "vb_do l s = Some (e, s')" "\<forall>i. l \<noteq> Step i"
  shows "e = Quiet" "vy_lock s' = vy_lock s" "vb_subs (vy_bus s') = vb_subs (vy_bus s)" "vb_closed (vy_bus s') = vb_closed (vy_bus s)"
    "length (vb_store (vy_bus s')) = length (vb_store (vy_bus s))"
    "vy_pcs s' = vy_pcs s \<or> (\<exists>i c. vy_pcs s' = (vy_pcs s)(i := call_start c) \<and> (vy_pcs s i = Idle \<or> (\<exists>r. vy_pcs s i = Done r)))"
  using assms by (cases l; force simp: vb_update_def split: if_splits vb_pc.splits)+

lemma mutex_step:
  assumes "mutex_inv s" "vb_do l s = Some (e, s')"
  shows "mutex_inv s'"
proof (cases "\<exists>i. l = Step i")
  case True
  then obtain i where "thread_step i s = Some (e, s')" using assms(2) by auto
  note step = thread_step_lock [OF this]
  have "holding (vy_pcs s' j) \<longleftrightarrow> vy_lock s' = Some j" for j
  proof (cases "j = i")
    case True
    with step(2) assms(1) show ?thesis by (auto simp: mutex_inv_def split: if_splits)
  next
    case False
    then have "vy_pcs s' j = vy_pcs s j" using step(1) by (metis fun_upd_other)
    with False step(2) assms(1) show ?thesis by (auto simp: mutex_inv_def split: if_splits)
  qed
  then show ?thesis by (simp add: mutex_inv_def)
next
  case False
  then have "holding (vy_pcs s' j) = holding (vy_pcs s j)" for j
    using vb_do_other(6) [OF assms(2)] by (cases "vy_pcs s' j = vy_pcs s j") (auto split: if_splits)
  with False vb_do_other(2) [OF assms(2)] assms(1) show ?thesis by (simp add: mutex_inv_def)
qed

lemma fresh_bounds: "fresh_inv s \<Longrightarrow> sub \<in> set (vb_subs (vy_bus s)) \<Longrightarrow> vs_inner sub < length (vb_store (vy_bus s))"
  by (simp add: fresh_inv_def)

lemma thread_step_store: "thread_step i s = Some (e, s') \<Longrightarrow> length (vb_store (vy_bus s)) \<le> length (vb_store (vy_bus s'))"
  by (cases "vy_pcs s i")
    (auto simp: step_defs count_error_def split: if_splits list.splits prod.splits sum.splits)

text \<open>The registered subscriptions change only when one is added, when they are collected and when the bus is closed.\<close>

lemma thread_step_subs:
  assumes "thread_step i s = Some (e, s')"
  shows "vb_subs (vy_bus s') = vb_subs (vy_bus s) \<or> vb_subs (vy_bus s') = [] \<or>
    (\<exists>clk f. vy_pcs s i = Send_gc clk f [] (vb_subs (vy_bus s'))) \<or>
    (\<exists>fs. vb_subs (vy_bus s') = vb_subs (vy_bus s) @ [\<lparr>vs_filters = fs, vs_inner = length (vb_store (vy_bus s))\<rparr>] \<and>
       length (vb_store (vy_bus s')) = Suc (length (vb_store (vy_bus s))))"
  using assms
  by (cases "vy_pcs s i")
    (auto simp: step_defs count_error_def split: if_splits list.splits prod.splits sum.splits)

lemma serving_step:
  assumes "thread_step i s = Some (e, s')"
  shows "serving (vy_pcs s' i) = None \<or>
     (e = Quiet \<and> (\<exists>f hs hs'. serving (vy_pcs s i) = Some (f, hs) \<and> serving (vy_pcs s' i) = Some (f, hs') \<and> subseq hs' hs)) \<or>
     (\<exists>f h hs. serving (vy_pcs s i) = Some (f, h # hs) \<and> serving (vy_pcs s' i) = Some (f, hs) \<and> e = Pushed h f) \<or>
     (\<exists>f. e = Locked f \<and> serving (vy_pcs s' i) = Some (f, map vs_inner (vb_subs (vy_bus s))))"
proof (cases "vy_pcs s i")
  case (Send_gc clk f subs kept)
  have "subseq xs (x # xs)" for x :: nat and xs by (simp add: list_emb_Cons)
  with Send_gc assms show ?thesis
    by (cases subs) (auto simp: step_defs subseq_append' split: if_splits)
next
  case (Send_push clk f subs d r)
  with assms show ?thesis by (cases subs) (auto simp: step_defs split: if_splits prod.splits)
next
  case (Close_subs subs)
  with assms show ?thesis by (cases subs) (auto simp: step_defs)
qed (use assms in \<open>auto simp: step_defs count_error_def split: if_splits sum.splits\<close>)

lemma quiet_unless_serving:
  assumes "thread_step i s = Some (e, s')"
  shows "e = Quiet \<or> (\<exists>f. e = Locked f \<and> vy_lock s = None) \<or>
    (\<exists>f h hs. serving (vy_pcs s i) = Some (f, h # hs) \<and> e = Pushed h f)"
proof (cases "vy_pcs s i")
  case (Send_gc clk f subs kept)
  with assms show ?thesis by (cases subs) (auto simp: step_defs)
next
  case (Send_push clk f subs d r)
  with assms show ?thesis by (cases subs) (auto simp: step_defs split: if_splits prod.splits)
next
  case (Close_subs subs)
  with assms show ?thesis by (cases subs) (auto simp: step_defs)
qed (use assms in \<open>auto simp: step_defs count_error_def split: if_splits sum.splits\<close>)

definition order_inv :: "vb_event list \<Rightarrow> bool" where
  "order_inv es \<longleftrightarrow> (\<forall>h. subseq (pushed_frames h es) (locked_frames es))"

lemma order_inv_step:
  assumes inv: "serving_inv s es" "order_inv es" and step: "thread_step i s = Some (e, s')"
  shows "order_inv (es @ [e])"
proof -
  consider "e = Quiet" | (lock) f where "e = Locked f" | (push) f h hs where "serving (vy_pcs s i) = Some (f, h # hs)" "e = Pushed h f"
    using quiet_unless_serving [OF step] by blast
  then show ?thesis
  proof cases
    case lock
    with inv(2) show ?thesis by (auto simp: order_inv_def intro: subseq_rev_drop_many)
  next
    case push
    with inv(1) obtain fs where fs: "locked_frames es = fs @ [f]" "subseq (pushed_frames h es) fs"
      unfolding serving_inv_def by fastforce
    have "subseq (pushed_frames k (es @ [e])) (locked_frames (es @ [e]))" for k
      using inv(2) fs push by (cases "k = h") (auto simp: order_inv_def)
    then show ?thesis by (simp add: order_inv_def)
  qed (use inv(2) in \<open>simp add: order_inv_def\<close>)
qed

lemma fresh_inv_step:
  assumes inv: "fresh_inv s" "serving_inv s es" and step: "thread_step i s = Some (e, s')"
  shows "fresh_inv s'"
proof -
  note len = thread_step_store [OF step]
  from thread_step_subs [OF step] consider (same) "vb_subs (vy_bus s') = vb_subs (vy_bus s)" | (none) "vb_subs (vy_bus s') = []"
    | (gc) clk f where "vy_pcs s i = Send_gc clk f [] (vb_subs (vy_bus s'))"
    | (add) fs where "vb_subs (vy_bus s') = vb_subs (vy_bus s) @ [\<lparr>vs_filters = fs, vs_inner = length (vb_store (vy_bus s))\<rparr>]"
        "length (vb_store (vy_bus s')) = Suc (length (vb_store (vy_bus s)))"
    by blast
  then show ?thesis
  proof cases
    case same
    with inv(1) len show ?thesis by (auto simp: fresh_inv_def dest: less_le_trans)
  next
    case gc
    then have "serving (vy_pcs s i) = Some (f, map vs_inner (vb_subs (vy_bus s')))" by simp
    with inv(2) len show ?thesis by (fastforce simp: serving_inv_def fresh_inv_def)
  next
    case add
    with inv(1) show ?thesis by (auto simp: fresh_inv_def less_Suc_eq)
  qed (simp add: fresh_inv_def)
qed

lemma serving_inv_step:
  assumes inv: "mutex_inv s" "fresh_inv s" "serving_inv s es" "order_inv es" and step: "thread_step i s = Some (e, s')"
  shows "serving_inv s' (es @ [e])"
  unfolding serving_inv_def
proof (intro allI impI)
  fix j f hs
  assume sv: "serving (vy_pcs s' j) = Some (f, hs)"
  note len = thread_step_store [OF step]
  show "distinct hs \<and> (\<forall>h \<in> set hs. h < length (vb_store (vy_bus s'))) \<and>
      (\<exists>fs. locked_frames (es @ [e]) = fs @ [f] \<and> (\<forall>h \<in> set hs. subseq (pushed_frames h (es @ [e])) fs))"
  proof (cases "j = i")
    case False
    then have pc: "vy_pcs s' j = vy_pcs s j" using thread_step_lock(1) [OF step] by (metis fun_upd_other)
    then have lock: "vy_lock s = Some j" using sv serving_holding inv(1) by (metis mutex_inv_def)
    then have "serving (vy_pcs s i) = None"
      using False inv(1) serving_holding by (metis mutex_inv_def option.exhaust option.inject)
    with quiet_unless_serving [OF step] lock have "e = Quiet" by auto
    with inv(3) sv pc len show ?thesis by (force simp: serving_inv_def)
  next
    case True
    from serving_step [OF step] sv [unfolded True] consider
        (quiet) hs0 where "e = Quiet" "serving (vy_pcs s i) = Some (f, hs0)" "subseq hs hs0"
      | (push) h where "e = Pushed h f" "serving (vy_pcs s i) = Some (f, h # hs)"
      | (lock) "e = Locked f" "hs = map vs_inner (vb_subs (vy_bus s))"
      by auto
    then show ?thesis
    proof cases
      case quiet
      have "distinct hs" "set hs \<subseteq> set hs0"
        using quiet inv(3) by (auto simp: serving_inv_def subseq_conv_nths dest: in_set_nthsD)
      with quiet inv(3) len show ?thesis by (fastforce simp: serving_inv_def)
    next
      case push
      with inv(3) obtain fs where fs: "locked_frames es = fs @ [f]" "distinct (h # hs)"
        "\<forall>k \<in> set (h # hs). k < length (vb_store (vy_bus s)) \<and> subseq (pushed_frames k es) fs"
        unfolding serving_inv_def by metis
      with push(1) len show ?thesis by (auto intro!: exI [of _ fs])
    next
      case lock
      with inv(2,4) len show ?thesis by (auto simp: order_inv_def fresh_inv_def dest: less_le_trans)
    qed
  qed
qed

definition trace_inv :: "vsys \<Rightarrow> vb_event list \<Rightarrow> bool" where
  "trace_inv s es \<longleftrightarrow> mutex_inv s \<and> fresh_inv s \<and> serving_inv s es \<and> order_inv es"

lemma trace_inv_step:
  assumes "trace_inv s es" "vb_do l s = Some (e, s')"
  shows "trace_inv s' (es @ [e])"
proof (cases "\<exists>i. l = Step i")
  case True
  then obtain i where "thread_step i s = Some (e, s')" using assms(2) by auto
  with assms show ?thesis
    using mutex_step fresh_inv_step serving_inv_step order_inv_step unfolding trace_inv_def by blast
next
  case False
  note other = vb_do_other [OF assms(2)]
  have same: "serving (vy_pcs s' j) = Some x \<Longrightarrow> serving (vy_pcs s j) = Some x" for j x
    using False other(6) by (cases "vy_pcs s' j = vy_pcs s j") (auto split: if_splits)
  from assms(1) have inv: "mutex_inv s" "fresh_inv s" "serving_inv s es" "order_inv es" by (simp_all add: trace_inv_def)
  have quiet: "e = Quiet" using False other(1) by blast
  have "fresh_inv s'" using inv(2) False other(3,5) by (simp add: fresh_inv_def)
  moreover have "serving_inv s' (es @ [e])"
    unfolding serving_inv_def
  proof (intro allI impI)
    fix j f hs
    assume "serving (vy_pcs s' j) = Some (f, hs)"
    from same [OF this] inv(3) show "distinct hs \<and> (\<forall>h \<in> set hs. h < length (vb_store (vy_bus s'))) \<and>
        (\<exists>fs. locked_frames (es @ [e]) = fs @ [f] \<and> (\<forall>h \<in> set hs. subseq (pushed_frames h (es @ [e])) fs))"
      using False other(5) quiet by (simp add: serving_inv_def)
  qed
  moreover have "order_inv (es @ [e])" using inv(4) quiet by (simp add: order_inv_def)
  ultimately show ?thesis using mutex_step [OF inv(1) assms(2)] by (simp add: trace_inv_def)
qed

lemma trace_inv_steps: "vb_steps s ls es s' \<Longrightarrow> s = vy_init \<Longrightarrow> trace_inv s' es"
proof (induction rule: vb_steps.induct)
  case (nothing s)
  then show ?case
    by (simp add: trace_inv_def mutex_inv_def fresh_inv_def serving_inv_def order_inv_def vy_init_def vb_new_def)
qed (auto intro: trace_inv_step)

text \<open>
  C13: However the calls of all threads interleave, every subscriber of the in-process bus gets its frames in one
  common order, the one in which the senders took the mutex: the frames pushed into any queue are a subsequence
  of it. At every point at most one thread is inside the mutex, and it is the one that holds it.
\<close>

theorem virtual_total_order:
  assumes "vb_steps vy_init ls es s"
  shows "subseq (pushed_frames h es) (locked_frames es) \<and> (holding (vy_pcs s i) \<longleftrightarrow> vy_lock s = Some i)"
  using trace_inv_steps [OF assms refl] by (simp add: trace_inv_def order_inv_def mutex_inv_def)

text \<open>Two senders: the second is in the mutex first, the first waits for it.\<close>

definition two_senders :: "frame \<Rightarrow> frame \<Rightarrow> vb_label list" where
  "two_senders f g =
     Call 0 (OpSubscribe 0 [] default_options) # replicate 2 (Step 0) @
     [Call 1 (OpSend (\<lambda>_. 0) f), Call 2 (OpSend (\<lambda>_. 0) g)] @ replicate 3 (Step 1) @ replicate 4 (Step 2) @
     replicate 4 (Step 2) @ replicate 4 (Step 1)"

theorem virtual_total_order_witness:
  "let f = default_frame\<lparr>f_id := 1\<rparr>; g = default_frame\<lparr>f_id := 2\<rparr>
   in map_option (\<lambda>(es, s). (pushed_frames 0 es, locked_frames es, vy_lock s)) (vb_exec (two_senders f g) vy_init)
        = Some ([g, f], [g, f], Some 1) \<and> subseq [g, f] [g, f]"
proof -
  let ?f = "default_frame\<lparr>f_id := 1\<rparr>" and ?g = "default_frame\<lparr>f_id := 2\<rparr>"
  have v: "validate_frame ?f = Ok ()" "validate_frame ?g = Ok ()"
    by (simp_all add: validate_frame_iff wf_frame_def wf_classic_def wf_id_def default_frame_def)
  have "map_option (\<lambda>(es, s). (pushed_frames 0 es, locked_frames es, vy_lock s)) (vb_exec (two_senders ?f ?g) vy_init)
        = Some ([?g, ?f], [?g, ?f], Some 1)"
    using v by (simp add: two_senders_def step_defs numeral_eq_Suc vy_init_def vb_new_def sub_new_def default_options_def
      chan_depth_def sub_push_def vsub_matches_def)
  moreover from this obtain es s where "vb_exec (two_senders ?f ?g) vy_init = Some (es, s)"
     "pushed_frames 0 es = [?g, ?f]" "locked_frames es = [?g, ?f]" by auto
  ultimately show ?thesis
    using virtual_total_order [OF vb_steps_exec, of "two_senders ?f ?g" es s 0 0] by (simp add: Let_def)
qed

text \<open>
  C16: \<^verbatim>\<open>subscribe\<close> looks at the closed flag before it waits for the mutex. If another thread closes the bus in
  between, both calls answer \<^verbatim>\<open>Ok\<close>, but the new subscription is registered after \<^verbatim>\<open>close\<close> has closed all
  others. Whatever happens afterwards, and for as long as nobody closes this receiver itself, it is never told:
  every \<^verbatim>\<open>recv\<close> on it waits.
\<close>

theorem virtual_close_race:
  "\<exists>es s. vb_steps vy_init
      [Call 0 (OpSubscribe now fs opts), Step 0, Call 1 OpClose, Step 1, Step 1, Step 1, Step 0] es s \<and>
    vy_pcs s 0 = Done (SubscribeReply (Ok 0)) \<and> vy_pcs s 1 = Done (CloseReply (Ok ())) \<and>
    (\<forall>ls es' s'. vb_steps s ls es' s' \<longrightarrow> Close_receiver 0 \<notin> set ls \<longrightarrow>
       vb_closed (vy_bus s') \<and> fst (recv_poll (vb_store (vy_bus s') ! 0)) = Pending)"
proof -
  let ?ls = "[Call 0 (OpSubscribe now fs opts), Step 0, Call 1 OpClose, Step 1, Step 1, Step 1, Step 0]"
  obtain es s where e: "vb_exec ?ls vy_init = Some (es, s)" and r: "vy_pcs s 0 = Done (SubscribeReply (Ok 0))"
    "vy_pcs s 1 = Done (CloseReply (Ok ()))" "orphan 0 s"
    by (simp add: step_defs vy_init_def vb_new_def orphan_def sub_new_def)
  have "vb_closed (vy_bus s') \<and> fst (recv_poll (vb_store (vy_bus s') ! 0)) = Pending"
    if "vb_steps s ls es' s'" "Close_receiver 0 \<notin> set ls" for ls es' s'
    using orphan_steps [OF that(1) r(3) that(2)] orphan_waits by (auto simp: orphan_def)
  with vb_steps_exec [OF e] r show ?thesis by blast
qed

theorem virtual_close_race_witness:
  "\<exists>es s s'. vb_steps vy_init
      [Call 0 (OpSubscribe 0 [] default_options), Step 0, Call 1 OpClose, Step 1, Step 1, Step 1, Step 0] es s \<and>
    vb_steps s [Call 1 OpClose, Step 1] [Quiet, Quiet] s' \<and> vy_pcs s' 1 = Done (CloseReply (Ok ())) \<and>
    fst (recv_poll (vb_store (vy_bus s') ! 0)) = Pending"
proof -
  obtain es s where s: "vb_steps vy_init
      [Call 0 (OpSubscribe 0 [] default_options), Step 0, Call 1 OpClose, Step 1, Step 1, Step 1, Step 0] es s"
    "vy_pcs s 1 = Done (CloseReply (Ok ()))"
    "\<forall>ls es' s'. vb_steps s ls es' s' \<longrightarrow> Close_receiver 0 \<notin> set ls \<longrightarrow>
       vb_closed (vy_bus s') \<and> fst (recv_poll (vb_store (vy_bus s') ! 0)) = Pending"
    using virtual_close_race [of 0 "[]" default_options] by blast
  have c: "vb_closed (vy_bus s)" using s(3) vb_steps.nothing by fastforce
  then obtain s' where "vb_exec [Call 1 OpClose, Step 1] s = Some ([Quiet, Quiet], s')" "vy_pcs s' 1 = Done (CloseReply (Ok ()))"
    using s(2) by (simp add: step_defs)
  moreover from vb_steps_exec [OF this(1)] s(3) have "fst (recv_poll (vb_store (vy_bus s') ! 0)) = Pending" by fastforce
  ultimately show ?thesis using s(1) vb_steps_exec by blast
qed
section \<open>Only valid frames, in bounded queues\<close>

definition typed_queue :: "sub_inner \<Rightarrow> bool" where
  "typed_queue q \<longleftrightarrow> list_all wf_frame (si_queue q) \<and> 0 < si_capacity q \<and>
     (si_policy q = Block \<or> length (si_queue q) \<le> si_capacity q)"

fun typed_pc :: "vb_pc \<Rightarrow> bool" where
  "typed_pc (Send_bytes clk f) = wf_frame f"
| "typed_pc (Send_writes clk f) = wf_frame f"
| "typed_pc (Send_lock clk f) = wf_frame f"
| "typed_pc (Send_gc clk f subs kept) = wf_frame f"
| "typed_pc (Send_push clk f subs d r) = wf_frame f"
| "typed_pc (Sub_lock fs inner) = typed_queue inner"
| "typed_pc _ = True"

definition typed_state :: "vsys \<Rightarrow> bool" where
  "typed_state s \<longleftrightarrow> list_all typed_queue (vb_store (vy_bus s)) \<and> (\<forall>i. typed_pc (vy_pcs s i))"

lemma typed_push: "sub_push t f q = (ok, q') \<Longrightarrow> typed_queue q \<Longrightarrow> wf_frame f \<Longrightarrow> typed_queue q'"
proof -
  assume push: "sub_push t f q = (ok, q')" and q: "typed_queue q" "wf_frame f"
  have "list_all wf_frame (tl (si_queue q))" using q by (cases "si_queue q") (simp_all add: typed_queue_def)
  moreover have "q' = snd (sub_push t f q)" by (simp add: push)
  ultimately show ?thesis
    using q by (cases "si_policy q") (auto simp: typed_queue_def sub_push_alt case_prod_unfold Let_def enqueue_spec_def)
qed

lemma typed_recv: "typed_queue q \<Longrightarrow> typed_queue (snd (recv_poll q))"
  by (auto simp: typed_queue_def recv_poll_eq split: list.splits)

lemma typed_close: "typed_queue q \<Longrightarrow> typed_queue (sub_close q)"
  by (simp add: typed_queue_def)

lemma typed_store_update:
  "list_all P st \<Longrightarrow> (h < length st \<Longrightarrow> P (st ! h) \<Longrightarrow> P q) \<Longrightarrow> list_all P (st[h := q])"
  by (cases "h < length st") (auto simp: list_all_length nth_list_update)

lemma typed_start [simp]: "typed_pc (call_start c)"
  by (cases c) simp_all

lemma typed_step:
  assumes "typed_state s" "thread_step i s = Some (e, s')"
  shows "typed_state s'"
proof -
  have st: "list_all typed_queue (vb_store (vy_bus s))" and pc: "typed_pc (vy_pcs s i)" and pcs: "\<And>j. typed_pc (vy_pcs s j)"
    using assms(1) by (simp_all add: typed_state_def)
  have "list_all typed_queue (vb_store (vy_bus s')) \<and> typed_pc (vy_pcs s' i)"
  proof (cases "vy_pcs s i")
    case (Send_start clk f)
    with assms(2) st show ?thesis by (auto simp: step_defs validate_frame_iff split: sum.splits if_splits)
  next
    case (Send_push clk f subs d r)
    with pc assms(2) st show ?thesis
      by (cases subs)
        (auto simp: step_defs split: if_splits prod.splits intro!: typed_store_update intro: typed_push)
  next
    case (Sub_start now fs opts)
    with assms(2) st chan_depth_pos [of 64 opts] show ?thesis
      by (auto simp: step_defs typed_queue_def sub_new_def)
  next
    case (Close_subs subs)
    with assms(2) st show ?thesis by (cases subs) (auto simp: step_defs intro!: typed_store_update typed_close)
  next
    case (Send_gc clk f subs kept)
    with pc assms(2) st show ?thesis by (cases subs) (auto simp: step_defs)
  qed (use pc assms(2) st in \<open>auto simp: step_defs count_error_def split: if_splits\<close>)
  moreover have "typed_pc (vy_pcs s' j)" if "j \<noteq> i" for j
    using thread_step_lock(1) [OF assms(2)] pcs that by (metis fun_upd_other)
  ultimately show ?thesis unfolding typed_state_def by metis
qed

lemma typed_do: "typed_state s \<Longrightarrow> vb_do l s = Some (e, s') \<Longrightarrow> typed_state s'"
proof (cases l)
  case (Step i)
  then show "typed_state s \<Longrightarrow> vb_do l s = Some (e, s') \<Longrightarrow> typed_state s'" using typed_step by simp
next
  case (Call i c)
  then show "typed_state s \<Longrightarrow> vb_do l s = Some (e, s') \<Longrightarrow> typed_state s'"
    by (auto simp: typed_state_def split: vb_pc.splits)
qed (auto simp: typed_state_def vb_update_def receiver_close_def split: if_splits intro!: typed_store_update typed_recv typed_close)

lemma typed_steps: "vb_steps s ls es s' \<Longrightarrow> typed_state s \<Longrightarrow> typed_state s'"
  by (induction rule: vb_steps.induct) (auto intro: typed_do)

text \<open>
  C14: Whatever calls are made and however they interleave, the queues of the in-process bus hold valid frames only,
  and, unless its policy is \<^verbatim>\<open>Block\<close>, at most as many as its capacity (under \<^verbatim>\<open>Block\<close> the queue has no bound); so \<^verbatim>\<open>recv\<close> never returns a frame that
  \<^verbatim>\<open>validate_frame\<close> would refuse.
\<close>

theorem virtual_queues_typed:
  assumes "vb_steps vy_init ls es s" "h < length (vb_store (vy_bus s))"
  shows "let q = vb_store (vy_bus s) ! h
    in list_all (\<lambda>f. validate_frame f = Ok ()) (si_queue q) \<and>
       (si_policy q = Block \<or> length (si_queue q) \<le> si_capacity q) \<and>
       (case fst (recv_poll q) of Ready (Some f) \<Rightarrow> validate_frame f = Ok () | _ \<Rightarrow> True)"
proof -
  have "typed_state vy_init" by (simp add: typed_state_def vy_init_def vb_new_def)
  with typed_steps [OF assms(1)] have "list_all typed_queue (vb_store (vy_bus s))" by (simp add: typed_state_def)
  with assms(2) show ?thesis
    by (auto simp: list_all_length [of typed_queue] typed_queue_def validate_frame_iff recv_poll_eq Let_def split: list.splits)
qed

theorem virtual_queues_typed_witness:
  "let f = default_frame\<lparr>f_id := 1\<rparr>; g = default_frame\<lparr>f_id := 2\<rparr>
   in map_option (\<lambda>(es, s). map si_queue (vb_store (vy_bus s))) (vb_exec (two_senders f g) vy_init) = Some [[g, f]] \<and>
      list_all (\<lambda>f. validate_frame f = Ok ()) [g, f]"
proof -
  let ?f = "default_frame\<lparr>f_id := 1\<rparr>" and ?g = "default_frame\<lparr>f_id := 2\<rparr>"
  have v: "validate_frame ?f = Ok ()" "validate_frame ?g = Ok ()"
    by (simp_all add: validate_frame_iff wf_frame_def wf_classic_def wf_id_def default_frame_def)
  have "map_option (\<lambda>(es, s). map si_queue (vb_store (vy_bus s))) (vb_exec (two_senders ?f ?g) vy_init) = Some [[?g, ?f]]"
    using v by (simp add: two_senders_def step_defs numeral_eq_Suc vy_init_def vb_new_def sub_new_def default_options_def
      chan_depth_def sub_push_def vsub_matches_def)
  moreover from this obtain es s where s: "vb_exec (two_senders ?f ?g) vy_init = Some (es, s)"
    "map si_queue (vb_store (vy_bus s)) = [[?g, ?f]]" by auto
  from s(2) have q: "0 < length (vb_store (vy_bus s))" "si_queue (vb_store (vy_bus s) ! 0) = [?g, ?f]"
    by (cases "vb_store (vy_bus s)"; simp)+
  from virtual_queues_typed [OF vb_steps_exec [OF s(1)] q(1)] have "list_all (\<lambda>f. validate_frame f = Ok ()) [?g, ?f]"
    by (simp add: Let_def q(2))
  ultimately show ?thesis by (simp add: Let_def)
qed

end
