(* ===== verification/Can_Virtual_Close.thy ===== *)
theory Can_Virtual_Close
  imports Can_Virtual_Steps Can_Receiver_Steps
begin

text \<open>
  What \<^verbatim>\<open>close\<close> of the in-process bus (\<^verbatim>\<open>src/virtual_bus/mod.rs\<close>) guarantees when other threads are in the
  middle of their calls: in every interleaving a queue that is open is registered, also while a sender
  rebuilds the list of subscribers; so a \<^verbatim>\<open>close\<close> that no \<^verbatim>\<open>subscribe\<close> overtakes leaves no queue open.
\<close>

section \<open>Open queues are registered\<close>

definition handles :: "virtual_sub list \<Rightarrow> nat set" where
  "handles subs = vs_inner ` set subs"

lemma handles_simps [simp]:
  "handles [] = {}" "handles (s # subs) = insert (vs_inner s) (handles subs)" "handles (xs @ ys) = handles xs \<union> handles ys"
  by (auto simp: handles_def)

text \<open>What the thread inside the mutex still has in hand.\<close>

fun in_hand :: "vb_pc \<Rightarrow> nat set option" where
  "in_hand (Send_gc clk f subs kept) = Some (handles (kept @ subs))"
| "in_hand (Close_subs subs) = Some (handles subs)"
| "in_hand _ = None"

definition registered :: "vsys \<Rightarrow> bool" where
  "registered s \<longleftrightarrow>
     (\<forall>h < length (vb_store (vy_bus s)). \<not> si_closed (vb_store (vy_bus s) ! h) \<longrightarrow>
        h \<in> handles (vb_subs (vy_bus s)) \<and> (\<forall>i H. in_hand (vy_pcs s i) = Some H \<longrightarrow> h \<in> H))"

lemma in_hand_holding: "in_hand pc = Some H \<Longrightarrow> holding pc"
  by (cases pc) simp_all

lemma in_hand_start [simp]: "in_hand (call_start c) = None"
  by (cases c) simp_all

lemma registeredD:
  "registered s \<Longrightarrow> h < length (vb_store (vy_bus s)) \<Longrightarrow> \<not> si_closed (vb_store (vy_bus s) ! h) \<Longrightarrow> h \<in> handles (vb_subs (vy_bus s))"
  "registered s \<Longrightarrow> h < length (vb_store (vy_bus s)) \<Longrightarrow> \<not> si_closed (vb_store (vy_bus s) ! h) \<Longrightarrow>
     in_hand (vy_pcs s i) = Some H \<Longrightarrow> h \<in> H"
  by (auto simp: registered_def)

text \<open>A step of a thread, seen from one queue.\<close>

lemma still_open: "\<not> si_closed (st[k := sub_close (st ! k)] ! h) \<Longrightarrow> \<not> si_closed (st ! h)"
  by (cases "k = h"; cases "h < length st") (simp_all add: list_update_beyond)

lemma thread_step_open:
  assumes "thread_step i s = Some (e, s')" "h < length (vb_store (vy_bus s))" "\<not> si_closed (vb_store (vy_bus s') ! h)"
  shows "\<not> si_closed (vb_store (vy_bus s) ! h)"
proof (cases "vy_pcs s i")
  case (Send_gc clk f subs kept)
  with assms show ?thesis by (cases subs) (auto simp: step_defs)
next
  case (Send_push clk f subs d r)
  show ?thesis
  proof (cases subs)
    case (Cons sub rest)
    let ?st = "vb_store (vy_bus s)" and ?k = "vs_inner sub"
    obtain ok q where p: "sub_push (clk ?k) f (?st ! ?k) = (ok, q)" by fastforce
    have "si_closed q = si_closed (?st ! ?k)" using sub_push_frame(3) [of "clk ?k" f "?st ! ?k"] by (simp add: p)
    moreover have "vb_store (vy_bus s') = (if vsub_matches sub f then ?st[?k := q] else ?st)"
      using assms(1) Send_push Cons p by (auto simp: step_defs split: if_splits)
    ultimately show ?thesis using assms(2,3) by (cases "h = ?k") (auto split: if_splits)
  qed (use Send_push assms in \<open>auto simp: step_defs\<close>)
next
  case (Close_subs subs)
  with assms show ?thesis
    by (cases subs) (auto simp: step_defs dest: still_open)
qed (use assms in \<open>auto simp: step_defs count_error_def nth_append split: if_splits sum.splits\<close>)

text \<open>What the stepping thread has in hand afterwards, and what is registered.\<close>

lemma thread_step_hand:
  assumes "thread_step i s = Some (e, s')" "in_hand (vy_pcs s' i) = Some H"
  shows "H = handles (vb_subs (vy_bus s)) \<or>
    (\<exists>H'. in_hand (vy_pcs s i) = Some H' \<and> (\<forall>h \<in> H'. h \<in> H \<or> si_closed (vb_store (vy_bus s') ! h) \<or> length (vb_store (vy_bus s)) \<le> h))"
proof (cases "vy_pcs s i")
  case (Send_gc clk f subs kept)
  with assms show ?thesis by (cases subs) (auto simp: step_defs split: if_splits)
next
  case (Send_push clk f subs d r)
  with assms show ?thesis by (cases subs) (auto simp: step_defs split: if_splits prod.splits)
next
  case (Close_subs subs)
  show ?thesis
  proof (cases subs)
    case (Cons sub rest)
    with Close_subs assms have "H = handles rest" "in_hand (vy_pcs s i) = Some (insert (vs_inner sub) (handles rest))"
      "vb_store (vy_bus s') = (vb_store (vy_bus s))[vs_inner sub := sub_close (vb_store (vy_bus s) ! vs_inner sub)]"
      by (auto simp: step_defs)
    then show ?thesis by (cases "vs_inner sub < length (vb_store (vy_bus s))") auto
  qed (use Close_subs assms in \<open>auto simp: step_defs\<close>)
qed (use assms in \<open>auto simp: step_defs count_error_def split: if_splits sum.splits\<close>)

lemma thread_step_registers:
  assumes "thread_step i s = Some (e, s')"
  shows "vb_subs (vy_bus s') = vb_subs (vy_bus s) \<and> length (vb_store (vy_bus s')) = length (vb_store (vy_bus s)) \<or>
    in_hand (vy_pcs s i) = Some (handles (vb_subs (vy_bus s'))) \<and> length (vb_store (vy_bus s')) = length (vb_store (vy_bus s)) \<or>
    (\<exists>fs q. vy_pcs s i = Sub_lock fs q \<and> vy_lock s = None \<and>
       handles (vb_subs (vy_bus s')) = insert (length (vb_store (vy_bus s))) (handles (vb_subs (vy_bus s))) \<and>
       length (vb_store (vy_bus s')) = Suc (length (vb_store (vy_bus s))))"
proof (cases "vy_pcs s i")
  case (Send_gc clk f subs kept)
  with assms show ?thesis by (cases subs) (auto simp: step_defs)
next
  case (Send_push clk f subs d r)
  with assms show ?thesis by (cases subs) (auto simp: step_defs split: if_splits prod.splits)
next
  case (Close_subs subs)
  with assms show ?thesis by (cases subs) (auto simp: step_defs)
qed (use assms in \<open>auto simp: step_defs count_error_def split: if_splits sum.splits\<close>)

lemma registered_thread_step:
  assumes "registered s" "mutex_inv s" "thread_step i s = Some (e, s')"
  shows "registered s'"
  unfolding registered_def
proof (intro allI impI)
  fix h
  assume h: "h < length (vb_store (vy_bus s'))" "\<not> si_closed (vb_store (vy_bus s') ! h)"
  note other = thread_step_lock(1) [OF assms(3)]
  show "h \<in> handles (vb_subs (vy_bus s')) \<and> (\<forall>j H. in_hand (vy_pcs s' j) = Some H \<longrightarrow> h \<in> H)"
  proof (cases "h < length (vb_store (vy_bus s))")
    case True
    note was = thread_step_open [OF assms(3) True h(2)]
    note reg = registeredD [OF assms(1) True was]
    have "h \<in> handles (vb_subs (vy_bus s'))"
      using thread_step_registers [OF assms(3)] reg by auto
    moreover have "h \<in> H" if "in_hand (vy_pcs s' j) = Some H" for j H
    proof (cases "j = i")
      case False
      then have "vy_pcs s' j = vy_pcs s j" using other by (metis fun_upd_other)
      with reg(2) that show ?thesis by simp
    next
      case True
      with thread_step_hand [OF assms(3)] that h(2) reg \<open>h < length (vb_store (vy_bus s))\<close> show ?thesis by fastforce
    qed
    ultimately show ?thesis by blast
  next
    case False
    with thread_step_registers [OF assms(3)] h(1) obtain fs q where
      new: "vy_pcs s i = Sub_lock fs q" "vy_lock s = None" "h \<in> handles (vb_subs (vy_bus s'))"
      by (auto simp: less_Suc_eq)
    have "in_hand (vy_pcs s' j) = None" for j
    proof (cases "j = i")
      case True
      with new(1,2) assms(3) show ?thesis by (auto simp: step_defs)
    next
      case False
      then have "vy_pcs s' j = vy_pcs s j" using other by (metis fun_upd_other)
      moreover have "\<not> holding (vy_pcs s j)" using assms(2) new(2) by (simp add: mutex_inv_def)
      ultimately show ?thesis using in_hand_holding by (metis option.exhaust)
    qed
    with new(3) show ?thesis by simp
  qed
qed

lemma registered_do:
  assumes "registered s" "mutex_inv s" "vb_do l s = Some (e, s')"
  shows "registered s'"
proof (cases "\<exists>i. l = Step i")
  case True
  with assms registered_thread_step show ?thesis by auto
next
  case False
  note other = vb_do_other [OF assms(3)]
  have pcs: "in_hand (vy_pcs s' j) = Some H \<Longrightarrow> in_hand (vy_pcs s j) = Some H" for j H
    using False other(6) by (cases "vy_pcs s' j = vy_pcs s j") (auto split: if_splits)
  have "\<not> si_closed (vb_store (vy_bus s) ! h)" if "h < length (vb_store (vy_bus s))" "\<not> si_closed (vb_store (vy_bus s') ! h)" for h
    using that assms(3) False
    by (cases l) (auto simp: vb_update_def nth_list_update recv_poll_eq receiver_close_def split: if_splits vb_pc.splits list.splits)
  with assms(1) pcs False other(3,5) show ?thesis unfolding registered_def by metis
qed

section \<open>Closing\<close>

text \<open>From the moment \<^verbatim>\<open>close\<close> by thread \<open>c\<close> has set the flag, with no \<^verbatim>\<open>subscribe\<close> past its check.\<close>

definition subscribing :: "vb_pc \<Rightarrow> bool" where
  "subscribing pc \<longleftrightarrow> (\<exists>fs q. pc = Sub_lock fs q)"

definition closing :: "vb_pc \<Rightarrow> bool" where
  "closing pc \<longleftrightarrow> pc = Close_lock \<or> (\<exists>subs. pc = Close_subs subs)"

definition close_inv :: "nat \<Rightarrow> nat \<Rightarrow> vsys \<Rightarrow> bool" where
  "close_inv c n s \<longleftrightarrow>
     registered s \<and> mutex_inv s \<and> vb_closed (vy_bus s) \<and> (\<forall>i. \<not> subscribing (vy_pcs s i)) \<and> length (vb_store (vy_bus s)) = n \<and>
     (closing (vy_pcs s c) \<or> list_all si_closed (vb_store (vy_bus s)))"

lemma thread_step_closed:
  assumes "thread_step i s = Some (e, s')" "vb_closed (vy_bus s)" "\<not> subscribing (vy_pcs s i)"
  shows "vb_closed (vy_bus s') \<and> \<not> subscribing (vy_pcs s' i) \<and> length (vb_store (vy_bus s')) = length (vb_store (vy_bus s))"
proof (cases "vy_pcs s i")
  case (Send_gc clk f subs kept)
  with assms show ?thesis by (cases subs) (auto simp: step_defs subscribing_def)
next
  case (Send_push clk f subs d r)
  with assms show ?thesis by (cases subs) (auto simp: step_defs subscribing_def split: if_splits prod.splits)
next
  case (Close_subs subs)
  with assms show ?thesis by (cases subs) (auto simp: step_defs subscribing_def)
qed (use assms in \<open>auto simp: step_defs count_error_def subscribing_def split: if_splits sum.splits\<close>)

text \<open>The last step of \<^verbatim>\<open>close\<close> finds every queue closed.\<close>

lemma closing_ends:
  assumes "thread_step i s = Some (e, s')" "closing (vy_pcs s i)" "\<not> closing (vy_pcs s' i)" "registered s"
  shows "list_all si_closed (vb_store (vy_bus s'))"
proof -
  have "vy_pcs s i = Close_subs [] \<and> vb_store (vy_bus s') = vb_store (vy_bus s)"
  proof (cases "vy_pcs s i")
    case (Close_subs subs)
    with assms(1,3) show ?thesis by (cases subs) (auto simp: step_defs closing_def)
  qed (use assms(1-3) in \<open>auto simp: step_defs closing_def split: if_splits\<close>)
  then have "si_closed (vb_store (vy_bus s) ! h)" if "h < length (vb_store (vy_bus s))" for h
    using registeredD(2) [OF assms(4) that, of i "{}"] by auto
  with \<open>vy_pcs s i = Close_subs [] \<and> vb_store (vy_bus s') = vb_store (vy_bus s)\<close> show ?thesis
    by (simp add: list_all_length)
qed

lemma close_inv_do:
  assumes "close_inv c n s" "vb_do l s = Some (e, s')"
  shows "close_inv c n s'"
proof -
  have inv: "registered s" "mutex_inv s" "vb_closed (vy_bus s)" "\<And>i. \<not> subscribing (vy_pcs s i)" "length (vb_store (vy_bus s)) = n"
    "closing (vy_pcs s c) \<or> list_all si_closed (vb_store (vy_bus s))"
    using assms(1) by (simp_all add: close_inv_def)
  note kept = registered_do [OF inv(1,2) assms(2)] mutex_step [OF inv(2) assms(2)]
  show ?thesis
  proof (cases "\<exists>i. l = Step i")
    case True
    then obtain i where step: "thread_step i s = Some (e, s')" using assms(2) by auto
    note other = thread_step_lock(1) [OF step] and closed = thread_step_closed [OF step inv(3,4)]
    have pcs: "vy_pcs s' j = vy_pcs s j" if "j \<noteq> i" for j using other that by (metis fun_upd_other)
    have "closing (vy_pcs s' c) \<or> list_all si_closed (vb_store (vy_bus s'))"
    proof (cases "list_all si_closed (vb_store (vy_bus s))")
      case True
      then show ?thesis using thread_step_open [OF step] closed inv(5) unfolding list_all_length by metis
    next
      case False
      with inv(6) have "closing (vy_pcs s c)" by simp
      with closing_ends [OF step _ _ inv(1)] pcs show ?thesis by (cases "c = i") auto
    qed
    moreover have "\<not> subscribing (vy_pcs s' j)" for j using closed pcs inv(4) by (cases "j = i") auto
    ultimately show ?thesis using kept closed inv(5) by (simp add: close_inv_def)
  next
    case False
    note other = vb_do_other [OF assms(2)]
    have start: "\<not> subscribing (call_start d)" for d by (cases d) (simp_all add: subscribing_def)
    have pcs: "\<not> subscribing (vy_pcs s' j)" "closing (vy_pcs s j) \<longrightarrow> closing (vy_pcs s' j)" for j
      using False other(6) inv(4) [of j] start
      by (cases "vy_pcs s' j = vy_pcs s j"; auto simp: closing_def split: if_splits)+
    have "list_all si_closed (vb_store (vy_bus s'))" if "list_all si_closed (vb_store (vy_bus s))"
      using that assms(2) False
      by (cases l)
        (auto simp: vb_update_def recv_poll_eq receiver_close_def split: if_splits vb_pc.splits list.splits
          intro!: typed_store_update)
    with kept pcs False other(4,5) inv show ?thesis by (auto simp: close_inv_def)
  qed
qed

lemma close_inv_steps: "vb_steps s ls es s' \<Longrightarrow> close_inv c n s \<Longrightarrow> close_inv c n s'"
  by (induction rule: vb_steps.induct) (auto intro: close_inv_do)

lemma registered_steps: "vb_steps s ls es s' \<Longrightarrow> registered s \<and> mutex_inv s \<Longrightarrow> registered s' \<and> mutex_inv s'"
  by (induction rule: vb_steps.induct) (auto intro: registered_do mutex_step)

lemma registered_init: "registered vy_init \<and> mutex_inv vy_init"
  by (simp add: registered_def mutex_inv_def vy_init_def vb_new_def)

text \<open>
  C15: \<^verbatim>\<open>close\<close> of the in-process bus closes every queue, whatever senders, receivers and other callers do at
  the same time, unless a \<^verbatim>\<open>subscribe\<close> is between its check of the closed flag and its registration when
  the flag is set: no queue is added any more, and once this \<^verbatim>\<open>close\<close> has returned every queue that was ever handed
  out is closed. A \<^verbatim>\<open>recv\<close> that starts on such a queue returns within three atomic steps of its own and never
  sleeps, whatever others do to the queue meanwhile. (A \<^verbatim>\<open>recv\<close> that has already looked at the flag of its queue when it
  is closed, and not yet begun to wait, is the one of \<open>recv_close_lost\<close>: it is not covered.)
\<close>

theorem virtual_close_complete:
  assumes "vb_steps vy_init ls0 es0 s0" "vy_pcs s0 c = Close_start" "\<not> vb_closed (vy_bus s0)"
    and "\<forall>i. \<not> subscribing (vy_pcs s0 i)" "vb_do (Step c) s0 = Some (e, s1)" "vb_steps s1 ls es s"
  shows "length (vb_store (vy_bus s)) = length (vb_store (vy_bus s0)) \<and>
    (closing (vy_pcs s c) \<or>
     list_all (\<lambda>q. si_closed q \<and> (\<forall>n k. recv_returns nt 3 \<lparr>rx_sub = q, rx_notify = n, rx_pc = Pop_next, rx_closers = k\<rparr>))
       (vb_store (vy_bus s)))"
proof -
  note inv0 = registered_steps [OF assms(1) registered_init]
  have "vy_pcs s1 = (vy_pcs s0)(c := Close_lock)" "vb_closed (vy_bus s1)" "vb_store (vy_bus s1) = vb_store (vy_bus s0)"
    using assms(2,3,5) by (auto simp: step_defs)
  with registered_do [OF _ _ assms(5)] mutex_step [OF _ assms(5)] inv0 assms(4)
  have "close_inv c (length (vb_store (vy_bus s0))) s1"
    by (simp add: close_inv_def closing_def subscribing_def)
  from close_inv_steps [OF assms(6) this] show ?thesis
    by (auto simp: close_inv_def list_all_iff intro!: closed_recv_returns)
qed

lemma vb_exec_append:
  "vb_exec (ls @ ms) s = (case vb_exec ls s of None \<Rightarrow> None
     | Some (es, t) \<Rightarrow> map_option (\<lambda>(fs, u). (es @ fs, u)) (vb_exec ms t))"
  by (induction ls arbitrary: s)
    (auto split: option.split simp: option.map_comp comp_def case_prod_unfold option.map_ident)

text \<open>A sender has passed its check when the flag is set: its frame is still delivered, and the queue then closed.\<close>

theorem virtual_close_complete_witness:
  "let f = default_frame\<lparr>f_id := 1\<rparr>;
       before = [Call 0 (OpSubscribe 0 [] default_options), Step 0, Step 0, Call 1 (OpSend (\<lambda>_. 0) f), Step 1, Step 1, Step 1,
                 Call 2 OpClose];
       after = replicate 5 (Step 1) @ replicate 3 (Step 2)
   in map_option (\<lambda>(es, s). (vy_pcs s 2, map si_queue (vb_store (vy_bus s)), map (\<lambda>q. fst (recv_poll q)) (vb_store (vy_bus s))))
        (vb_exec (before @ Step 2 # after) vy_init) =
        Some (Done (CloseReply (Ok ())), [[f]], [Ready (Some f)]) \<and>
      (\<exists>es s. vb_exec (before @ Step 2 # after) vy_init = Some (es, s) \<and>
         list_all (\<lambda>q. si_closed q \<and> recv_returns notify_example 3 (rx_init notify_example q)) (vb_store (vy_bus s)))"
proof -
  let ?f = "default_frame\<lparr>f_id := 1\<rparr>"
  let ?before = "[Call 0 (OpSubscribe 0 [] default_options), Step 0, Step 0, Call 1 (OpSend (\<lambda>_. 0) ?f), Step 1, Step 1, Step 1,
      Call 2 OpClose]" and ?after = "replicate 5 (Step 1) @ replicate 3 (Step 2)"
  have v: "validate_frame ?f = Ok ()"
    by (simp add: validate_frame_iff wf_frame_def wf_classic_def wf_id_def default_frame_def)
  obtain es0 s0 where s0: "vb_exec ?before vy_init = Some (es0, s0)" "vy_pcs s0 2 = Close_start" "\<not> vb_closed (vy_bus s0)"
    "\<forall>i. \<not> subscribing (vy_pcs s0 i)" "vy_pcs s0 1 = Send_lock (\<lambda>_. 0) ?f" "vy_lock s0 = None"
    "vb_store (vy_bus s0) = [sub_new 0 64 DropNewest 0]" "vb_subs (vy_bus s0) = [\<lparr>vs_filters = [], vs_inner = 0\<rparr>]"
    using v by (simp add: step_defs vy_init_def vb_new_def default_options_def chan_depth_def subscribing_def)
  obtain s1 where s1: "vb_do (Step 2) s0 = Some (Quiet, s1)" using s0(2,3) by (simp add: step_defs)
  obtain es s where s: "vb_exec ?after s1 = Some (es, s)" "vy_pcs s 2 = Done (CloseReply (Ok ()))"
    "map si_queue (vb_store (vy_bus s)) = [[?f]]" "map (\<lambda>q. fst (recv_poll q)) (vb_store (vy_bus s)) = [Ready (Some ?f)]"
    using s0 s1 by (auto simp: step_defs numeral_eq_Suc sub_new_def sub_push_def vsub_matches_def recv_poll_eq)
  have run: "vb_exec (?before @ Step 2 # ?after) vy_init = Some (es0 @ Quiet # es, s)"
    unfolding vb_exec_append [of ?before] s0(1) by (simp only: option.case prod.case vb_exec.simps s1 s(1) option.map)
  from virtual_close_complete [OF vb_steps_exec [OF s0(1)] s0(2-4) s1 vb_steps_exec [OF s(1)], where nt = notify_example] s(2)
  have "list_all (\<lambda>q. si_closed q \<and> recv_returns notify_example 3 (rx_init notify_example q)) (vb_store (vy_bus s))"
    by (cases "nt_new notify_example") (auto simp: closing_def list_all_iff rx_init_def)
  with run s show ?thesis unfolding Let_def by simp
qed

end
