(* ===== verification/Can_Virtual_Refine.thy ===== *)
theory Can_Virtual_Refine
  imports Can_Virtual_Steps
begin

text \<open>
  The two models of the in-process bus belong together: a call whose steps (\<open>Can_Virtual_Steps\<close>) are not
  interleaved with anything does what the operation of \<open>Can_Virtual\<close> does, and gives its answer.
\<close>

section \<open>A thread alone\<close>

definition alone :: "nat \<Rightarrow> vsys \<Rightarrow> vsys \<Rightarrow> bool" where
  "alone i s s' \<longleftrightarrow> (\<exists>n es. vb_exec (replicate n (Step i)) s = Some (es, s'))"

lemma alone_refl: "alone i s s"
  unfolding alone_def by (rule exI [of _ 0]) simp

lemma alone_eq: "s = s' \<Longrightarrow> alone i s s'"
  by (simp add: alone_refl)

lemma alone_step:
  assumes "thread_step i s = Some (e, m)" "alone i m s'"
  shows "alone i s s'"
proof -
  obtain n es where "vb_exec (replicate n (Step i)) m = Some (es, s')" using assms(2) by (auto simp: alone_def)
  then have "vb_exec (replicate (Suc n) (Step i)) s = Some (e # es, s')" using assms(1) by simp
  then show ?thesis unfolding alone_def by blast
qed

lemma alone_trans:
  assumes "alone i s m" "alone i m s'"
  shows "alone i s s'"
proof -
  obtain n es where "vb_exec (replicate n (Step i)) s = Some (es, m)" using assms(1) by (auto simp: alone_def)
  then show ?thesis
  proof (induction n arbitrary: s es)
    case (Suc n)
    then obtain e t fs where "thread_step i s = Some (e, t)" "vb_exec (replicate n (Step i)) t = Some (fs, m)"
      by (auto split: option.splits)
    with Suc.IH show ?case using alone_step by blast
  qed (use assms(2) in simp)
qed

text \<open>The state with another bus, lock and program counter of the thread.\<close>

definition moved :: "nat \<Rightarrow> vsys \<Rightarrow> virtual_bus \<Rightarrow> nat option \<Rightarrow> vb_pc \<Rightarrow> vsys" where
  "moved i s b l pc = s\<lparr>vy_bus := b, vy_lock := l, vy_pcs := (vy_pcs s)(i := pc)\<rparr>"

lemma moved_simps [simp]:
  "vy_bus (moved i s b l pc) = b" "vy_lock (moved i s b l pc) = l" "vy_pcs (moved i s b l pc) i = pc"
  "moved i (moved i s b l pc) b' l' pc' = moved i s b' l' pc'"
  by (simp_all add: moved_def)

lemma moved_updates [simp]:
  "moved i s b l pc\<lparr>vy_pcs := (vy_pcs (moved i s b l pc))(i := pc')\<rparr> = moved i s b l pc'"
  "moved i s b l pc\<lparr>vy_bus := b', vy_pcs := (vy_pcs (moved i s b l pc))(i := pc')\<rparr> = moved i s b' l pc'"
  "moved i s b l pc\<lparr>vy_lock := l', vy_pcs := (vy_pcs (moved i s b l pc))(i := pc')\<rparr> = moved i s b l' pc'"
  "moved i s b l pc\<lparr>vy_bus := b', vy_lock := l', vy_pcs := (vy_pcs (moved i s b l pc))(i := pc')\<rparr> = moved i s b' l' pc'"
  by (simp_all add: moved_def)

section \<open>The loops\<close>

lemma alone_gc:
  "alone i (moved i s b l (Send_gc clk f subs kept))
     (let live = kept @ filter (\<lambda>sub. \<not> si_closed (vb_store b ! vs_inner sub)) subs
      in moved i s (b\<lparr>vb_subs := live\<rparr>) l (Send_push clk f live 0 0))"
proof (induction subs arbitrary: kept)
  case Nil
  then show ?case by (intro alone_step [OF _ alone_refl]) (simp add: step_defs)
next
  case (Cons sub subs)
  let ?kept = "if si_closed (vb_store b ! vs_inner sub) then kept else kept @ [sub]"
  have "thread_step i (moved i s b l (Send_gc clk f (sub # subs) kept)) = Some (Quiet, moved i s b l (Send_gc clk f subs ?kept))"
    by (simp add: step_defs)
  from alone_step [OF this Cons.IH] show ?case
    by (cases "si_closed (vb_store b ! vs_inner sub)") (simp_all add: Let_def)
qed

lemma alone_push:
  "alone i (moved i s b l (Send_push clk f subs d r))
     (let ((d', r'), st) = broadcast_loop clk f subs (vb_store b) d r
      in moved i s (b\<lparr>vb_store := st\<rparr>) None (Send_delivered f d' r'))"
proof (induction subs arbitrary: b d r)
  case Nil
  then show ?case by (intro alone_step [OF _ alone_refl]) (simp add: step_defs)
next
  case (Cons sub subs)
  show ?case
  proof (cases "vsub_matches sub f")
    case False
    then have "thread_step i (moved i s b l (Send_push clk f (sub # subs) d r)) =
        Some (Quiet, moved i s b l (Send_push clk f subs d r))"
      by (simp add: step_defs)
    from alone_step [OF this Cons.IH] False show ?thesis by simp
  next
    case True
    let ?h = "vs_inner sub"
    obtain ok q where q: "sub_push (clk ?h) f (vb_store b ! ?h) = (ok, q)" by fastforce
    let ?b = "b\<lparr>vb_store := (vb_store b)[?h := q]\<rparr>"
    have "thread_step i (moved i s b l (Send_push clk f (sub # subs) d r)) = Some (Pushed ?h f,
        moved i s ?b l (Send_push clk f subs (if ok then d + 1 else d) (if ok then r else r + 1)))"
      using True q by (simp add: step_defs)
    from alone_step [OF this Cons.IH] True q show ?thesis by (cases ok) (simp_all add: Let_def)
  qed
qed

lemma alone_close:
  "alone i (moved i s b l (Close_subs subs))
     (moved i s (b\<lparr>vb_store := close_all (map vs_inner subs) (vb_store b), vb_subs := []\<rparr>) None (Done (CloseReply (Ok ()))))"
proof (induction subs arbitrary: b)
  case Nil
  then show ?case by (intro alone_step [OF _ alone_refl]) (simp add: step_defs)
next
  case (Cons sub subs)
  let ?b = "b\<lparr>vb_store := (vb_store b)[vs_inner sub := sub_close (vb_store b ! vs_inner sub)]\<rparr>"
  have "thread_step i (moved i s b l (Close_subs (sub # subs))) = Some (Quiet, moved i s ?b l (Close_subs subs))"
    by (simp add: step_defs)
  from alone_step [OF this Cons.IH] show ?case by simp
qed

section \<open>The calls\<close>

lemma alone_send:
  "alone i (moved i s b None (Send_start clk f))
     (moved i s (snd (vb_send clk f b)) None (Done (SendReply (fst (vb_send clk f b)))))"
proof (cases "vb_closed b \<or> \<not> is_ok (validate_frame f)")
  case True
  have "\<exists>e. vb_send clk f b = (Err e, count_error b) \<and>
    thread_step i (moved i s b None (Send_start clk f)) = Some (Quiet, moved i s b None (Send_error e))"
  proof (cases "vb_closed b")
    case False
    with True obtain e where "validate_frame f = Err e" by (cases "validate_frame f") auto
    with False show ?thesis by (simp add: vb_send_def step_defs)
  qed (simp add: vb_send_def step_defs)
  then obtain e where e: "vb_send clk f b = (Err e, count_error b)"
    "thread_step i (moved i s b None (Send_start clk f)) = Some (Quiet, moved i s b None (Send_error e))" by blast
  show ?thesis unfolding e(1)
    by (rule alone_step [OF e(2)], rule alone_step [OF _ alone_refl]) (simp add: step_defs)
next
  case False
  then have ok: "\<not> vb_closed b" "validate_frame f = Ok ()" by (auto simp: is_ok_iff)
  let ?b1 = "upd_counts (\<lambda>c. c\<lparr>bytes_written := bytes_written c + frame_len f\<rparr>) b"
  let ?b2 = "upd_counts (\<lambda>c. c\<lparr>write_count := write_count c + 1\<rparr>) ?b1"
  have start: "alone i (moved i s b None (Send_start clk f)) (moved i s ?b2 (Some i) (Send_gc clk f (vb_subs b) []))"
    by (rule alone_eq, (simp; fail) | rule alone_step, simp add: step_defs ok)+
  let ?b3 = "gc ?b2"
  have gc: "alone i (moved i s ?b2 (Some i) (Send_gc clk f (vb_subs b) [])) (moved i s ?b3 (Some i) (Send_push clk f (vb_subs ?b3) 0 0))"
    using alone_gc [of i s ?b2 "Some i" clk f "vb_subs b" "[]"] by (simp add: gc_def Let_def)
  obtain d r st where push: "broadcast_loop clk f (vb_subs ?b3) (vb_store ?b3) 0 0 = ((d, r), st)" by (metis prod.exhaust)
  let ?b4 = "?b3\<lparr>vb_store := st\<rparr>"
  have loop: "alone i (moved i s ?b3 (Some i) (Send_push clk f (vb_subs ?b3) 0 0)) (moved i s ?b4 None (Send_delivered f d r))"
    using alone_push [of i s ?b3 "Some i" clk f "vb_subs ?b3" 0 0] by (simp only: push prod.case Let_def)
  have "alone i (moved i s ?b4 None (Send_delivered f d r))
      (moved i s (upd_counts (\<lambda>c. c\<lparr>bytes_delivered := bytes_delivered c + frame_len f * d\<rparr>)
         (upd_counts (\<lambda>c. c\<lparr>drop_count := drop_count c + r\<rparr>)
         (upd_counts (\<lambda>c. c\<lparr>deliver_count := deliver_count c + d\<rparr>) ?b4))) None (Done (SendReply (Ok ()))))"
    by (rule alone_eq, (simp; fail) | rule alone_step, simp add: step_defs)+
  moreover have "vb_send clk f b = (Ok (), upd_counts (\<lambda>c. c\<lparr>bytes_delivered := bytes_delivered c + frame_len f * d\<rparr>)
         (upd_counts (\<lambda>c. c\<lparr>drop_count := drop_count c + r\<rparr>)
         (upd_counts (\<lambda>c. c\<lparr>deliver_count := deliver_count c + d\<rparr>) ?b4)))"
    using push ok by (simp add: vb_send_def broadcast_def frame_len_def Let_def gc_def)
  ultimately show ?thesis using alone_trans [OF start alone_trans [OF gc alone_trans [OF loop]]] by simp
qed

lemma alone_call:
  "alone i (moved i s b None (call_start c))
     (let (r, b') = bus_call vb_send vb_subscribe vb_close c b in moved i s b' None (Done r))"
proof (cases c)
  case (OpSend clk f)
  with alone_send [of i s b clk f] show ?thesis by (simp add: case_prod_unfold Let_def)
next
  case (OpSubscribe now fs opts)
  show ?thesis
  proof (cases "vb_closed b")
    case True
    with OpSubscribe show ?thesis by (intro alone_step [OF _ alone_refl]) (simp add: step_defs vb_subscribe_def)
  next
    case False
    let ?lock = "moved i s b None (Sub_lock fs (sub_new now (chan_depth opts 64) (back_pressure opts) (rate_limit_per_sec opts)))"
    have "thread_step i (moved i s b None (Sub_start now fs opts)) = Some (Quiet, ?lock)"
      using False by (simp add: step_defs)
    moreover have "thread_step i ?lock = Some (Quiet,
        moved i s (snd (vb_subscribe now fs opts b)) None (Done (SubscribeReply (fst (vb_subscribe now fs opts b)))))"
      using False by (simp add: step_defs vb_subscribe_def)
    ultimately have "alone i (moved i s b None (Sub_start now fs opts))
        (moved i s (snd (vb_subscribe now fs opts b)) None (Done (SubscribeReply (fst (vb_subscribe now fs opts b)))))"
      using alone_step alone_refl by metis
    with OpSubscribe show ?thesis by (simp add: case_prod_unfold Let_def)
  qed
next
  case OpClose
  show ?thesis
  proof (cases "vb_closed b")
    case True
    with OpClose show ?thesis by (intro alone_step [OF _ alone_refl]) (simp add: step_defs vb_close_def)
  next
    case False
    then have "alone i (moved i s b None Close_start) (moved i s (b\<lparr>vb_closed := True\<rparr>) (Some i) (Close_subs (vb_subs b)))"
      by - (rule alone_refl | rule alone_step, simp add: step_defs)+
    from alone_trans [OF this alone_close] False OpClose show ?thesis by (simp add: vb_close_def)
  qed
qed

text \<open>
  C12: A call that runs undisturbed is atomic: when the mutex is free and the thread has no other call, finitely
  many steps of this thread alone take it from the start of \<^verbatim>\<open>send\<close>, \<^verbatim>\<open>subscribe\<close> or \<^verbatim>\<open>close\<close> to its end, free the
  mutex, leave the bus as the operation of the sequential model does (counters, queues, subscriptions, flag)
  and give its answer.
\<close>

theorem virtual_steps_refine:
  assumes "vy_lock s = None" "vy_pcs s i = Idle"
  shows "\<exists>n es. vb_exec (Call i c # replicate n (Step i)) s =
    (let (r, b) = bus_call vb_send vb_subscribe vb_close c (vy_bus s)
     in Some (es, s\<lparr>vy_bus := b, vy_pcs := (vy_pcs s)(i := Done r)\<rparr>))"
proof -
  obtain r b where call: "bus_call vb_send vb_subscribe vb_close c (vy_bus s) = (r, b)" by fastforce
  have m: "moved i s b' None pc = s\<lparr>vy_bus := b', vy_pcs := (vy_pcs s)(i := pc)\<rparr>" for b' pc
    using assms(1) by (simp add: moved_def)
  obtain n es where n: "vb_exec (replicate n (Step i)) (moved i s (vy_bus s) None (call_start c)) = Some (es, moved i s b None (Done r))"
    using alone_call [of i s "vy_bus s" c] call by (auto simp: alone_def)
  have "vb_exec (Call i c # replicate n (Step i)) s = Some (Quiet # es, s\<lparr>vy_bus := b, vy_pcs := (vy_pcs s)(i := Done r)\<rparr>)"
    using n assms(2) by (simp add: m)
  then show ?thesis using call by auto
qed

theorem virtual_steps_refine_witness:
  "\<exists>n es. vb_exec (Call 3 OpClose # replicate n (Step 3)) vy_init =
    Some (es, vy_init\<lparr>vy_bus := vb_new\<lparr>vb_closed := True\<rparr>, vy_pcs := (\<lambda>_. Idle)(3 := Done (CloseReply (Ok ())))\<rparr>)"
  using virtual_steps_refine [of vy_init 3 OpClose] by (simp add: vy_init_def vb_close_def vb_new_def)

end
