(* ===== verification/Can_Mock.thy ===== *)
theory Can_Mock
  imports Can_Bus_Contract
begin

text \<open>
  The mock bus of \<^verbatim>\<open>src/mock/mod.rs\<close>: it records what is sent and delivers what a test injects. Its
  list of subscribers only grows, so the index in \<open>mb_subscribers\<close> is the handle of a receiver.
\<close>

section \<open>The code\<close>

record mock_bus =
  mb_sent :: "frame list"
  mb_closed :: bool
  mb_subscribers :: "sub_inner list"

definition mock_new :: mock_bus where
  "mock_new = \<lparr>mb_sent = [], mb_closed = False, mb_subscribers = []\<rparr>"

definition mock_inject :: "clock \<Rightarrow> frame \<Rightarrow> mock_bus \<Rightarrow> mock_bus" where
  "mock_inject clk f b = b\<lparr>mb_subscribers := deliver_all clk f 0 (mb_subscribers b)\<rparr>"

definition mock_sent_frames :: "mock_bus \<Rightarrow> frame list" where
  "mock_sent_frames b = mb_sent b"

definition mock_reset :: "mock_bus \<Rightarrow> mock_bus" where
  "mock_reset b = b\<lparr>mb_sent := []\<rparr>"

definition mock_send :: "frame \<Rightarrow> mock_bus \<Rightarrow> (can_error, unit) result \<times> mock_bus" where
  "mock_send f b = (if mb_closed b then (Err Closed, b) else (Ok (), b\<lparr>mb_sent := mb_sent b @ [f]\<rparr>))"

definition mock_subscribe ::
    "nat \<Rightarrow> can_filter list \<Rightarrow> subscriber_options \<Rightarrow> mock_bus \<Rightarrow> (can_error, nat) result \<times> mock_bus" where
  "mock_subscribe now filters opts b =
     (if mb_closed b then (Err Closed, b)
      else let inner = sub_new now (chan_depth opts 64) (back_pressure opts) (rate_limit_per_sec opts)
           in (Ok (length (mb_subscribers b)), b\<lparr>mb_subscribers := mb_subscribers b @ [inner]\<rparr>))"

definition mock_close :: "mock_bus \<Rightarrow> (can_error, unit) result \<times> mock_bus" where
  "mock_close b =
     (if mb_closed b then (Ok (), b)
      else (Ok (), b\<lparr>mb_closed := True, mb_subscribers := close_subs (mb_subscribers b)\<rparr>))"

definition mock_update :: "nat \<Rightarrow> (sub_inner \<Rightarrow> sub_inner) \<Rightarrow> mock_bus \<Rightarrow> mock_bus" where
  "mock_update h g b = b\<lparr>mb_subscribers := (mb_subscribers b)[h := g (mb_subscribers b ! h)]\<rparr>"

section \<open>The contracts\<close>

definition mock_inv :: "mock_bus \<Rightarrow> bool" where
  "mock_inv b \<longleftrightarrow> (mb_closed b \<longrightarrow> list_all si_closed (mb_subscribers b))"

lemma mock_inv_new [simp]: "mock_inv mock_new"
  by (simp add: mock_inv_def mock_new_def)

lemmas mock_defs = mock_inv_def mock_send_def mock_subscribe_def mock_close_def Let_def

lemma mock_call_simps [simp]:
  "mb_sent (snd (mock_send f b)) = (if mb_closed b then mb_sent b else mb_sent b @ [f])"
  "mb_closed (snd (mock_send f b)) = mb_closed b"
  "mb_sent (snd (mock_subscribe now fs opts b)) = mb_sent b"
  "mb_closed (snd (mock_subscribe now fs opts b)) = mb_closed b"
  "mb_sent (snd (mock_close b)) = mb_sent b" "mb_closed (snd (mock_close b))"
  by (simp_all add: mock_defs)

interpretation mbus: bus_lifecycle "\<lambda>clk. mock_send" mock_subscribe mock_close mb_closed mb_subscribers mock_inv
  by unfold_locales (auto simp: mock_defs list_all_length)

interpretation mports: bus_endpoints mock_inject mock_update mb_subscribers "\<lambda>b h f. True" mock_inv
proof unfold_locales
  fix b :: mock_bus and h and g :: "sub_inner \<Rightarrow> sub_inner"
  assume "mock_inv b" "si_closed (mb_subscribers b ! h) \<Longrightarrow> si_closed (g (mb_subscribers b ! h))"
  then show "mock_inv (mock_update h g b)"
    by (cases "mb_closed b") (simp_all add: mock_inv_def mock_update_def list_all_update list_all_length [symmetric],
      rule list_all_update, auto simp: list_all_length)
qed (auto simp: mock_inv_def mock_inject_def mock_update_def deliver_all_closed nth_deliver_all)

section \<open>Properties\<close>

text \<open>
  The mock bus keeps the life cycle of a bus, and its log holds exactly the frames sent while it
  was open, in order: what the test code sent before the first \<^verbatim>\<open>close\<close>, and nothing after it.
\<close>

theorem mock_lifecycle:
  "let (rs, b) = bus_run (\<lambda>clk. mock_send) mock_subscribe mock_close (cs @ OpClose # ds) mock_new
   in drop (length cs) rs = CloseReply (Ok ()) # map closed_reply ds \<and> list_all si_closed (mb_subscribers b) \<and>
      mock_sent_frames b = concat (map (\<lambda>c. case c of OpSend clk f \<Rightarrow> [f] | _ \<Rightarrow> []) (takeWhile (\<lambda>c. c \<noteq> OpClose) cs))"
proof -
  let ?run = "bus_run (\<lambda>clk. mock_send) mock_subscribe mock_close"
  let ?sent = "\<lambda>cs. concat (map (\<lambda>c. case c of OpSend clk f \<Rightarrow> [f] | _ \<Rightarrow> []) (takeWhile (\<lambda>c. c \<noteq> OpClose) cs))"
  have closed: "mb_closed b \<Longrightarrow> mb_sent (snd (?run cs b)) = mb_sent b" for cs b
  proof (induction cs arbitrary: b)
    case (Cons c cs)
    then show ?case by (cases c) (simp_all add: case_prod_unfold Let_def)
  qed simp
  have sent: "\<not> mb_closed b \<Longrightarrow> mb_sent (snd (?run cs b)) = mb_sent b @ ?sent cs" for cs b
  proof (induction cs arbitrary: b)
    case (Cons c cs)
    then show ?case by (cases c) (simp_all add: case_prod_unfold Let_def closed)
  qed simp
  have "takeWhile (\<lambda>c. c \<noteq> OpClose) (cs @ OpClose # ds) = takeWhile (\<lambda>c. c \<noteq> OpClose) cs"
    by (induction cs) simp_all
  moreover have "length (fst (?run cs b)) = length cs" for cs b
    by (induction cs arbitrary: b) (simp_all add: case_prod_unfold Let_def)
  ultimately show ?thesis
    using mbus.lifecycle(1) [OF mock_inv_new, where cs = cs and ds = ds]
      mbus.lifecycle(2) [OF mock_inv_new, where cs = cs and ds = ds] sent [of mock_new "cs @ OpClose # ds"]
    by (simp add: list_all_length case_prod_unfold Let_def mock_sent_frames_def mock_new_def)
qed

text \<open>
  A subscriber of the mock bus gets every injected frame whatever its filters: the filters given to
  \<^verbatim>\<open>subscribe\<close> are ignored, so the queue of a new subscription evolves as the one of an unfiltered
  subscriber of the in-process bus that is fed the same frames.
\<close>

theorem mock_private_queue:
  assumes "\<not> mb_closed b" "h = length (mb_subscribers b)"
  shows "mb_subscribers (fold (endpoint_step mock_inject mock_update) es
      (snd (mock_subscribe now filters opts b))) ! h =
    fold (queue_step (\<lambda>f. True) h) es
      (sub_new now (chan_depth opts 64) (back_pressure opts) (rate_limit_per_sec opts))"
proof -
  let ?b = "snd (mock_subscribe now filters opts b)"
  have "mock_inv ?b" "h < length (mb_subscribers ?b)"
    "mb_subscribers ?b ! h = sub_new now (chan_depth opts 64) (back_pressure opts) (rate_limit_per_sec opts)"
    using assms by (simp_all add: mock_defs)
  then show ?thesis using mports.private_queue [of ?b h es] by simp
qed

theorem mock_private_queue_witness:
  "map f_id (si_queue (mb_subscribers (fold (endpoint_step mock_inject mock_update)
     [Arrive (\<lambda>_. 1) (default_frame\<lparr>f_id := 0x300\<rparr>)]
     (snd (mock_subscribe 0 [\<lparr>flt_id = 1, flt_mask = 0x7FF\<rparr>] default_options mock_new))) ! 0)) = [0x300]"
  by (subst mock_private_queue)
    (simp_all add: mock_new_def sub_new_def default_options_def chan_depth_def sub_push_def rate_admit_def)

end
