(* ===== verification/Can_Isotp.thy ===== *)
theory Can_Isotp
  imports Can_Bus_Contract
begin

text \<open>
  ISO 15765-2 over a bus (\<^verbatim>\<open>src/isotp/mod.rs\<close>). The bus of a connection is a trait object; what the
  connection exchanges with it is the record \<open>link\<close>:

  \<^item> \<open>lk_inbox\<close> is what the receiver of the connection is going to deliver: a frame, or \<open>None\<close> for the
    end of the stream, after a delay counted from the moment somebody waits for it; an empty inbox is a
    peer that stays silent;
  \<^item> \<open>lk_fault n\<close> is the error with which the bus answers the \<open>n\<close>-th send of the connection, if it
    does, and \<open>lk_sends\<close> counts the sends;
  \<^item> \<open>lk_trace\<close> records, in order, the frames sent with success, the frames received and the pauses;
  \<^item> \<open>lk_waited\<close> is the total time spent in waiting for frames.

  The peer is arbitrary: every theorem holds for all inboxes unless it says otherwise. Durations are
  nanoseconds. The \<^verbatim>\<open>Context\<close> arguments of \<^verbatim>\<open>send\<close> and \<^verbatim>\<open>recv\<close> are ignored by the code and left out.
\<close>

section \<open>The code\<close>

definition TYPE_SF :: u8 where "TYPE_SF = 0x00"
definition TYPE_FF :: u8 where "TYPE_FF = 0x10"
definition TYPE_CF :: u8 where "TYPE_CF = 0x20"
definition TYPE_FC :: u8 where "TYPE_FC = 0x30"
definition FC_CTS :: u8 where "FC_CTS = 0x00"
definition FC_WAIT :: u8 where "FC_WAIT = 0x01"
definition FC_OVERFLOW :: u8 where "FC_OVERFLOW = 0x02"

lemmas pci_defs = TYPE_SF_def TYPE_FF_def TYPE_CF_def TYPE_FC_def FC_CTS_def FC_WAIT_def FC_OVERFLOW_def

definition millis :: "nat \<Rightarrow> nat" where "millis n = n * 1000000"
definition micros :: "nat \<Rightarrow> nat" where "micros n = n * 1000"

record iso_config =
  tx_id :: u32
  rx_id :: u32
  ext_ids :: bool
  block_size :: u8
  st_min :: u8
  iso_timeout :: nat

definition iso_default_config :: iso_config where
  "iso_default_config =
     \<lparr>tx_id = 0x7E0, rx_id = 0x7E8, ext_ids = False, block_size = 0, st_min = 0, iso_timeout = millis 250\<rparr>"

definition effective_timeout :: "iso_config \<Rightarrow> nat" where
  "effective_timeout cfg = (if iso_timeout cfg = 0 then millis 250 else iso_timeout cfg)"

datatype link_event = Sent frame | Got frame | Slept nat

record link =
  lk_inbox :: "(nat \<times> frame option) list"
  lk_fault :: "nat \<Rightarrow> can_error option"
  lk_sends :: nat
  lk_trace :: "link_event list"
  lk_waited :: nat

text \<open>\<^verbatim>\<open>timeout(tmo, self.rx.recv()).await.map_err(|_| Error::Timeout)?.ok_or(Error::Closed)?\<close>\<close>

definition link_recv :: "nat \<Rightarrow> link \<Rightarrow> (can_error, frame) result \<times> link" where
  "link_recv tmo l =
     (case lk_inbox l of
        [] \<Rightarrow> (Err Timeout, l\<lparr>lk_waited := lk_waited l + tmo\<rparr>)
      | (d, ev) # rest \<Rightarrow>
          if d > tmo then (Err Timeout, l\<lparr>lk_inbox := (d - tmo, ev) # rest, lk_waited := lk_waited l + tmo\<rparr>)
          else (case ev of
            None \<Rightarrow> (Err Closed, l\<lparr>lk_inbox := (0, None) # rest, lk_waited := lk_waited l + d\<rparr>)
          | Some f \<Rightarrow> (Ok f, l\<lparr>lk_inbox := rest, lk_waited := lk_waited l + d, lk_trace := lk_trace l @ [Got f]\<rparr>)))"

text \<open>\<^verbatim>\<open>self.bus.send(Context::background(), frame).await\<close>\<close>

definition link_send :: "frame \<Rightarrow> link \<Rightarrow> (can_error, unit) result \<times> link" where
  "link_send f l =
     (case lk_fault l (lk_sends l) of
        Some e \<Rightarrow> (Err e, l\<lparr>lk_sends := Suc (lk_sends l)\<rparr>)
      | None \<Rightarrow> (Ok (), l\<lparr>lk_sends := Suc (lk_sends l), lk_trace := lk_trace l @ [Sent f]\<rparr>))"

definition link_sleep :: "nat \<Rightarrow> link \<Rightarrow> link" where
  "link_sleep d l = l\<lparr>lk_trace := lk_trace l @ [Slept d]\<rparr>"

definition st_min_to_duration :: "u8 \<Rightarrow> nat" where
  "st_min_to_duration st =
     (if st \<le> 0x7F then millis (unat st)
      else if 0xF1 \<le> st \<and> st \<le> 0xF9 then micros (unat (st - 0xF0) * 100)
      else 0)"

definition make_frame :: "iso_config \<Rightarrow> bytes \<Rightarrow> frame" where
  "make_frame cfg bs = default_frame\<lparr>f_id := tx_id cfg, f_ext := ext_ids cfg, f_data := bs\<rparr>"

record iso_conn =
  ic_cfg :: iso_config
  ic_rx :: nat

definition iso_new ::
    "(can_filter list \<Rightarrow> subscriber_options \<Rightarrow> 'b \<Rightarrow> (can_error, nat) result \<times> 'b) \<Rightarrow> iso_config \<Rightarrow> 'b \<Rightarrow>
     (can_error, iso_conn) result \<times> 'b" where
  "iso_new subscribe cfg b =
     (if tx_id cfg = rx_id cfg then (Err (Other ''isotp: tx_id and rx_id must differ''), b)
      else case subscribe [\<lparr>flt_id = rx_id cfg, flt_mask = if ext_ids cfg then 0x1FFFFFFF else 0x7FF\<rparr>]
                  default_options b of
        (Err e, b) \<Rightarrow> (Err e, b)
      | (Ok rx, b) \<Rightarrow> (Ok \<lparr>ic_cfg = cfg, ic_rx = rx\<rparr>, b))"

definition send_single_frame :: "iso_config \<Rightarrow> bytes \<Rightarrow> link \<Rightarrow> (can_error, unit) result \<times> link" where
  "send_single_frame cfg payload l =
     link_send (make_frame cfg ((TYPE_SF OR of_nat (length payload)) # payload)) l"

definition wait_fc :: "nat \<Rightarrow> link \<Rightarrow> (can_error, bytes) result \<times> link" where
  "wait_fc tmo l =
     (case link_recv tmo l of
        (Err e, l) \<Rightarrow> (Err e, l)
      | (Ok f, l) \<Rightarrow>
          if length (f_data f) < 3 \<or> f_data f ! 0 AND 0xF0 \<noteq> TYPE_FC
          then (Err (Other ''isotp: malformed or truncated flow control frame''), l)
          else (Ok (f_data f), l))"

text \<open>\<open>wait_fc\<close> and the check for an overflow that follows each of its calls.\<close>

definition next_fc :: "nat \<Rightarrow> link \<Rightarrow> (can_error, bytes) result \<times> link" where
  "next_fc tmo l =
     (case wait_fc tmo l of
        (Err e, l) \<Rightarrow> (Err e, l)
      | (Ok fc, l) \<Rightarrow>
          if fc ! 0 AND 0x0F = FC_OVERFLOW then (Err (Other ''isotp: receiver overflow''), l)
          else (Ok fc, l))"

lemma link_recv_shrinks: "link_recv tmo l = (Ok f, l') \<Longrightarrow> length (lk_inbox l') < length (lk_inbox l)"
  by (auto simp: link_recv_def split: list.splits prod.splits if_splits option.splits)

lemma wait_fc_shrinks: "wait_fc tmo l = (Ok fc, l') \<Longrightarrow> length (lk_inbox l') < length (lk_inbox l)"
  by (auto simp: wait_fc_def dest: link_recv_shrinks split: prod.splits sum.splits if_splits)

lemma next_fc_shrinks: "next_fc tmo l = (Ok fc, l') \<Longrightarrow> length (lk_inbox l') < length (lk_inbox l)"
  by (auto simp: next_fc_def dest: wait_fc_shrinks split: prod.splits sum.splits if_splits)

text \<open>The inner loop: wait until the receiver no longer says \<open>WAIT\<close>; the flag is the reset of the block count.\<close>

function wait_loop :: "nat \<Rightarrow> bytes \<Rightarrow> u32 \<Rightarrow> link \<Rightarrow> (can_error, bytes \<times> u32) result \<times> link" where
  "wait_loop tmo fc block_count l =
     (if fc ! 0 AND 0x0F = FC_WAIT then
        case next_fc tmo l of
          (Err e, l) \<Rightarrow> (Err e, l)
        | (Ok fc, l) \<Rightarrow> wait_loop tmo fc 0 l
      else (Ok (fc, block_count), l))"
  by pat_completeness auto
termination
  by (relation "measure (\<lambda>(tmo, fc, bc, l). length (lk_inbox l))") (auto dest: next_fc_shrinks [OF sym])

declare wait_loop.simps [simp del]

text \<open>The loop over the consecutive frames.\<close>

function cf_loop ::
    "iso_config \<Rightarrow> bytes \<Rightarrow> u8 \<Rightarrow> u32 \<Rightarrow> bytes \<Rightarrow> link \<Rightarrow> (can_error, unit) result \<times> link" where
  "cf_loop cfg fc sn block_count payload l =
     (if payload = [] then (Ok (), l)
      else case wait_loop (effective_timeout cfg) fc block_count l of
        (Err e, l) \<Rightarrow> (Err e, l)
      | (Ok (fc, block_count), l) \<Rightarrow>
          let chunk_len = min (length payload) 7;
              cf = (TYPE_CF OR (sn AND 0x0F)) # take chunk_len payload
          in (case link_send (make_frame cfg cf) l of
            (Err e, l) \<Rightarrow> (Err e, l)
          | (Ok _, l) \<Rightarrow>
              let payload = drop chunk_len payload;
                  sn = sn + 1;
                  block_count = block_count + 1;
                  st = st_min_to_duration (fc ! 2);
                  l = (if st \<noteq> 0 then link_sleep st l else l);
                  bs = fc ! 1
              in if bs > 0 \<and> block_count \<ge> ucast bs \<and> payload \<noteq> [] then
                   case next_fc (effective_timeout cfg) l of
                     (Err e, l) \<Rightarrow> (Err e, l)
                   | (Ok fc, l) \<Rightarrow> cf_loop cfg fc sn 0 payload l
                 else cf_loop cfg fc sn block_count payload l))"
  by pat_completeness auto
termination
  by (relation "measure (\<lambda>(cfg, fc, sn, bc, payload, l). length payload)") auto

declare cf_loop.simps [simp del]

definition send_multi_frame :: "iso_config \<Rightarrow> bytes \<Rightarrow> link \<Rightarrow> (can_error, unit) result \<times> link" where
  "send_multi_frame cfg payload l =
     (let ff_len = length payload;
          first_chunk_len = min (length payload) 6;
          ff = (TYPE_FF OR of_nat (drop_bit 8 ff_len AND 0x0F)) # of_nat (ff_len AND 0xFF) #
               take first_chunk_len payload
      in case link_send (make_frame cfg ff) l of
        (Err e, l) \<Rightarrow> (Err e, l)
      | (Ok _, l) \<Rightarrow>
          (case next_fc (effective_timeout cfg) l of
             (Err e, l) \<Rightarrow> (Err e, l)
           | (Ok fc, l) \<Rightarrow> cf_loop cfg fc 1 0 (drop first_chunk_len payload) l))"

definition iso_send :: "iso_config \<Rightarrow> bytes \<Rightarrow> link \<Rightarrow> (can_error, unit) result \<times> link" where
  "iso_send cfg payload l =
     (if payload = [] then (Err (Other ''isotp: empty payload''), l)
      else if length payload > 4095 then (Err PayloadTooLarge, l)
      else if length payload \<le> 7 then send_single_frame cfg payload l
      else send_multi_frame cfg payload l)"

definition fc_frame :: "iso_config \<Rightarrow> frame" where
  "fc_frame cfg = make_frame cfg [TYPE_FC OR FC_CTS, block_size cfg, st_min cfg]"

text \<open>The loop of \<^verbatim>\<open>recv\<close> over the consecutive frames.\<close>

function recv_loop ::
    "iso_config \<Rightarrow> nat \<Rightarrow> bytes \<Rightarrow> u8 \<Rightarrow> u8 \<Rightarrow> link \<Rightarrow> (can_error, bytes) result \<times> link" where
  "recv_loop cfg len buf sn cf_in_block l =
     (if length buf < len then
        case link_recv (effective_timeout cfg) l of
          (Err e, l) \<Rightarrow> (Err e, l)
        | (Ok cf, l) \<Rightarrow>
            if f_data cf = [] then (Err (Other ''isotp: empty CF''), l)
            else if f_data cf ! 0 AND 0xF0 \<noteq> TYPE_CF then (Err (Other ''isotp: expected CF''), l)
            else
              let cf_sn = f_data cf ! 0 AND 0x0F
              in if cf_sn \<noteq> sn AND 0x0F then
                   (Err (Other (''isotp: SN mismatch (expected '' @ show_dec (unat (sn AND 0x0F)) @
                      '', got '' @ show_dec (unat cf_sn) @ '')'')), l)
                 else
                   let sn = sn + 1;
                       remaining = len - length buf;
                       chunk = drop 1 (f_data cf);
                       buf = buf @ take (min (length chunk) remaining) chunk;
                       cf_in_block = cf_in_block + 1
                   in if block_size cfg \<noteq> 0 \<and> cf_in_block = block_size cfg \<and> length buf < len then
                        case link_send (fc_frame cfg) l of
                          (Err e, l) \<Rightarrow> (Err e, l)
                        | (Ok _, l) \<Rightarrow> recv_loop cfg len buf sn 0 l
                      else recv_loop cfg len buf sn cf_in_block l
      else (Ok buf, l))"
  by pat_completeness auto

lemma link_send_inbox: "lk_inbox (snd (link_send f l)) = lk_inbox l"
  by (simp add: link_send_def split: option.splits)

termination recv_loop
proof (relation "measure (\<lambda>(cfg, len, buf, sn, k, l). length (lk_inbox l))", goal_cases)
  case 1
  show ?case by simp
next
  case (2 cfg len buf sn k l r l' a cf s rem ch b2 k2 p l'')
  then have "length (lk_inbox l') < length (lk_inbox l)" "lk_inbox l'' = lk_inbox l'"
    using link_recv_shrinks [of "effective_timeout cfg" l a l'] link_send_inbox [of "fc_frame cfg" l']
    by (simp_all add: prod_eq_iff)
  then show ?case by simp
next
  case (3 cfg len buf sn k l r l' a)
  then show ?case using link_recv_shrinks [of "effective_timeout cfg" l a l'] by (simp add: prod_eq_iff)
qed

declare recv_loop.simps [simp del]

definition iso_recv :: "iso_config \<Rightarrow> link \<Rightarrow> (can_error, bytes) result \<times> link" where
  "iso_recv cfg l =
     (case link_recv (effective_timeout cfg) l of
        (Err e, l) \<Rightarrow> (Err e, l)
      | (Ok first, l) \<Rightarrow>
          if f_data first = [] then (Err (Other ''isotp: empty first frame''), l)
          else
            let pci = f_data first ! 0 AND 0xF0
            in if pci = 0x00 then
                 let len = unat (f_data first ! 0 AND 0x0F)
                 in if len = 0 \<or> len > 7 \<or> len > length (f_data first) - 1
                    then (Err (Other ''isotp: invalid SF length''), l)
                    else (Ok (take len (drop 1 (f_data first))), l)
               else if pci = 0x10 then
                 if length (f_data first) < 2 then (Err (Other ''isotp: FF too short''), l)
                 else
                   let len = push_bit 8 (unat (f_data first ! 0 AND 0x0F)) OR unat (f_data first ! 1);
                       buf = drop 2 (f_data first)
                   in case link_send (fc_frame cfg) l of
                        (Err e, l) \<Rightarrow> (Err e, l)
                      | (Ok _, l) \<Rightarrow> recv_loop cfg len buf 1 0 l
               else (Err (Other (''isotp: unexpected frame type 0x'' @ pad_left 2 (show_hex (unat pci)))), l))"

end
