(* ===== verification/Can_Isotp_Send.thy ===== *)
theory Can_Isotp_Send
  imports Can_Isotp
begin

text \<open>
  What an ISO-TP sender puts on the bus (\<^verbatim>\<open>src/isotp/mod.rs\<close>), for any peer: the canonical
  segmentation of the payload or a prefix of it, under the credit of the flow-control frames received
  and with the pauses they ask for.
\<close>

section \<open>The segmentation\<close>

text \<open>
  What a payload looks like on the bus, as ISO 15765-2 has it: numbers instead of bit operations. The
  consecutive frames count modulo 16.
\<close>

function cf_segments :: "nat \<Rightarrow> bytes \<Rightarrow> bytes list" where
  "cf_segments n p =
     (if p = [] then [] else (of_nat (0x20 + n mod 16) # take 7 p) # cf_segments (Suc n) (drop 7 p))"
  by pat_completeness auto
termination by (relation "measure (\<lambda>(n, p). length p)") auto

declare cf_segments.simps [simp del]

definition segments :: "bytes \<Rightarrow> bytes list" where
  "segments payload =
     (if length payload \<le> 7 then [of_nat (length payload) # payload]
      else (of_nat (0x10 + length payload div 256) # of_nat (length payload mod 256) # take 6 payload) #
           cf_segments 1 (drop 6 payload))"

fun sent_frames :: "link_event list \<Rightarrow> frame list" where
  "sent_frames [] = []"
| "sent_frames (Sent f # es) = f # sent_frames es"
| "sent_frames (_ # es) = sent_frames es"

lemma sent_frames_append [simp]: "sent_frames (xs @ ys) = sent_frames xs @ sent_frames ys"
  by (induction xs rule: sent_frames.induct) simp_all

lemma cf_segments_Nil [simp]: "cf_segments n [] = []"
  by (simp add: cf_segments.simps)

lemma cf_segments_step:
  "p \<noteq> [] \<Longrightarrow> cf_segments n p = (of_nat (0x20 + n mod 16) # take 7 p) # cf_segments (Suc n) (drop 7 p)"
  by (simp add: cf_segments.simps [of n p])

lemma cf_segments_eq_Nil [simp]: "cf_segments n p = [] \<longleftrightarrow> p = []"
  by (cases "p = []") (simp_all add: cf_segments_step)

lemma cf_byte: "(TYPE_CF OR (of_nat n AND 0x0F) :: u8) = of_nat (0x20 + n mod 16)"
  using u8_nibbles(1) [of 2 "n mod 16"] by (simp add: pci_defs u8_low_nibble)

lemma cf_byte_parts:
  "(of_nat (0x20 + n mod 16) :: u8) AND 0xF0 = TYPE_CF"
  "(of_nat (0x20 + n mod 16) :: u8) AND 0x0F = of_nat n AND 0x0F"
  using u8_nibbles(2,3) [of 2 "n mod 16"] by (simp_all add: pci_defs u8_low_nibble)

lemma sf_byte: "n \<le> 7 \<Longrightarrow> (TYPE_SF OR of_nat n :: u8) = of_nat n"
  by (simp add: pci_defs)

lemma ff_bytes:
  assumes "n \<le> 4095"
  shows "(TYPE_FF OR of_nat (drop_bit 8 n AND 0x0F) :: u8) = of_nat (0x10 + n div 256)"
    and "(of_nat (0x10 + n div 256) :: u8) AND 0xF0 = 0x10"
    and "push_bit 8 (unat ((of_nat (0x10 + n div 256) :: u8) AND 0x0F)) OR unat (of_nat (n mod 256) :: u8) = n"
proof -
  have h: "n div 256 < 16" using assms by (simp add: less_mult_imp_div_less)
  then show "(TYPE_FF OR of_nat (drop_bit 8 n AND 0x0F) :: u8) = of_nat (0x10 + n div 256)"
    using u8_nibbles(1) [of 1 "n div 256"] by (simp add: pci_defs drop_bit_and_nibble)
  show "(of_nat (0x10 + n div 256) :: u8) AND 0xF0 = 0x10"
    using h u8_nibbles(2) [of 1 "n div 256"] by simp
  have "unat ((of_nat (0x10 + n div 256) :: u8) AND 0x0F) = n div 256"
    using h u8_nibbles(3) [of 1 "n div 256"] by (simp add: unat_of_nat)
  moreover have "unat (of_nat (n mod 256) :: u8) = n mod 256" by (simp add: unat_of_nat)
  ultimately show "push_bit 8 (unat ((of_nat (0x10 + n div 256) :: u8) AND 0x0F)) OR
      unat (of_nat (n mod 256) :: u8) = n"
    using push_bit_or_byte [of "n mod 256" "n div 256"] by simp
qed

text \<open>The segments carry the payload, and each fits a classic CAN frame.\<close>

lemma cf_segments_concat: "concat (map (drop 1) (cf_segments n p)) = p"
  by (induction n p rule: cf_segments.induct) (subst cf_segments.simps, simp)

lemma cf_segments_size: "s \<in> set (cf_segments n p) \<Longrightarrow> 2 \<le> length s \<and> length s \<le> 8"
proof (induction n p rule: cf_segments.induct)
  case (1 n p)
  then show ?case by (cases p) (auto simp: cf_segments_step)
qed

lemma segments_size: "s \<in> set (segments p) \<Longrightarrow> p \<noteq> [] \<Longrightarrow> 2 \<le> length s \<and> length s \<le> 8"
  by (auto simp: segments_def Suc_le_eq dest: cf_segments_size split: if_splits)

lemma ceiling_step: "0 < m \<Longrightarrow> Suc ((m - 7 + 6) div 7) = (m + 6) div (7 :: nat)"
proof (cases "m \<le> 7")
  case False
  assume "0 < m"
  from False have "m + 6 = (m - 7 + 6) + 7" by simp
  then show ?thesis by (simp only: div_add_self2)
next
  case True
  assume "0 < m"
  with True have "(m + 6) div 7 = 1" by (intro div_nat_eqI) simp_all
  with True show ?thesis by simp
qed

lemma length_cf_segments: "length (cf_segments n p) = (length p + 6) div 7"
proof (induction n p rule: cf_segments.induct)
  case (1 n p)
  show ?case
  proof (cases "p = []")
    case False
    then have "length (cf_segments n p) = Suc ((length p - 7 + 6) div 7)" "0 < length p"
      using 1 by (simp_all add: cf_segments_step)
    then show ?thesis by (simp only: ceiling_step)
  qed simp
qed

section \<open>What a connection does to its link\<close>

text \<open>
  \<open>run l es l'\<close>: the operation that took \<open>l\<close> to \<open>l'\<close> recorded the events \<open>es\<close> and did not touch the
  faults; the other components are read off the definitions where a proof needs them.
\<close>

definition run :: "link \<Rightarrow> link_event list \<Rightarrow> link \<Rightarrow> bool" where
  "run l es l' \<longleftrightarrow> lk_trace l' = lk_trace l @ es \<and> lk_fault l' = lk_fault l"

named_theorems link_runs \<open>what each step of a connection records\<close>

lemma run_refl: "run l [] l"
  by (simp add: run_def)

lemma run_trans: "run l es l' \<Longrightarrow> run l' es' l'' \<Longrightarrow> run l (es @ es') l''"
  by (simp add: run_def)

lemma run_link_recv_ok [link_runs]: "link_recv tmo l = (Ok f, l') \<Longrightarrow> run l [Got f] l'"
  by (auto simp: link_recv_def run_def split: list.splits prod.splits if_splits option.splits)

lemma run_link_recv_err [link_runs]: "link_recv tmo l = (Err e, l') \<Longrightarrow> run l [] l'"
  by (auto simp: link_recv_def run_def split: list.splits prod.splits if_splits option.splits)

lemma run_link_send_ok [link_runs]: "link_send f l = (Ok u, l') \<Longrightarrow> run l [Sent f] l'"
  by (auto simp: link_send_def run_def split: option.splits)

lemma run_link_send_err [link_runs]: "link_send f l = (Err e, l') \<Longrightarrow> run l [] l'"
  by (auto simp: link_send_def run_def split: option.splits)

lemma run_link_sleep: "run l [Slept d] (link_sleep d l)"
  by (simp add: link_sleep_def run_def)

section \<open>The sender obeys the flow control\<close>

text \<open>
  What a flow-control PDU grants: how many consecutive frames may follow (\<open>None\<close>: any number) and how
  long to pause after each. A PDU that says wait or overflow, or is malformed, grants nothing.
\<close>

definition fc_credit :: "bytes \<Rightarrow> nat option" where
  "fc_credit d =
     (if length d < 3 \<or> d ! 0 AND 0xF0 \<noteq> TYPE_FC \<or> d ! 0 AND 0x0F = FC_WAIT \<or> d ! 0 AND 0x0F = FC_OVERFLOW
      then Some 0 else if d ! 1 = 0 then None else Some (unat (d ! 1)))"

definition fc_pause :: "bytes \<Rightarrow> nat" where
  "fc_pause d = (if length d < 3 then 0 else st_min_to_duration (d ! 2))"

text \<open>A trace in which every frame is sent on credit and followed by the pause that was asked for.\<close>

fun obeys :: "nat option \<Rightarrow> nat \<Rightarrow> link_event list \<Rightarrow> bool" where
  "obeys credit pause [] = True"
| "obeys credit pause (Got f # es) = obeys (fc_credit (f_data f)) (fc_pause (f_data f)) es"
| "obeys credit pause (Slept d # es) = obeys credit pause es"
| "obeys credit pause (Sent f # es) =
     (credit \<noteq> Some 0 \<and> (pause = 0 \<or> es \<noteq> [] \<and> hd es = Slept pause) \<and>
      obeys (map_option (\<lambda>n. n - 1) credit) pause es)"

definition credit_left :: "bytes \<Rightarrow> u32 \<Rightarrow> nat option" where
  "credit_left fc bc = map_option (\<lambda>n. n - unat bc) (fc_credit fc)"

definition fc_ok :: "bytes \<Rightarrow> bool" where
  "fc_ok fc \<longleftrightarrow> 3 \<le> length fc \<and> fc ! 0 AND 0xF0 = TYPE_FC \<and> fc ! 0 AND 0x0F \<noteq> FC_OVERFLOW"

definition in_block :: "bytes \<Rightarrow> u32 \<Rightarrow> bool" where
  "in_block fc bc \<longleftrightarrow> fc ! 0 AND 0x0F = FC_WAIT \<or> fc ! 1 = 0 \<or> unat bc < unat (fc ! 1)"

lemma in_block_zero [simp]: "in_block fc 0"
  by (simp add: in_block_def unat_gt_0)

lemma credit_left_zero [simp]: "credit_left fc 0 = fc_credit fc"
  by (simp add: credit_left_def option.map_id [unfolded id_def])

lemma next_fc_ok:
  assumes "next_fc tmo l = (Ok fc, l')"
  shows "\<exists>f. run l [Got f] l' \<and> f_data f = fc" and "fc_ok fc"
  using assms
  by (auto simp: next_fc_def wait_fc_def fc_ok_def not_less dest: link_runs
      split: prod.splits sum.splits if_splits)

lemma next_fc_err:
  assumes "next_fc tmo l = (Err e, l')"
  shows "\<exists>es. run l es l' \<and> sent_frames es = [] \<and> obeys cr st es"
proof -
  have "run l [] l' \<or> (\<exists>f. run l [Got f] l')"
    using assms
    by (auto simp: next_fc_def wait_fc_def dest: link_runs split: prod.splits sum.splits if_splits)
  then show ?thesis by (elim disjE exE) (intro exI conjI, assumption, simp_all)+
qed

lemma wait_loop_ok:
  "wait_loop tmo fc bc l = (Ok (fc', bc'), l') \<Longrightarrow> fc_ok fc \<Longrightarrow> in_block fc bc \<Longrightarrow>
   fc_ok fc' \<and> in_block fc' bc' \<and> fc' ! 0 AND 0x0F \<noteq> FC_WAIT \<and>
   (\<exists>es. run l es l' \<and> sent_frames es = [] \<and>
      (\<forall>es'. obeys (credit_left fc' bc') (fc_pause fc') es' \<longrightarrow>
         obeys (credit_left fc bc) (fc_pause fc) (es @ es')))"
proof (induction tmo fc bc l rule: wait_loop.induct)
  case (1 tmo fc bc l)
  show ?case
  proof (cases "fc ! 0 AND 0x0F = FC_WAIT")
    case False
    with "1.prems" have "fc' = fc" "bc' = bc" "l' = l" by (simp_all add: wait_loop.simps [of tmo fc bc l])
    with False "1.prems" show ?thesis by (intro conjI exI [of _ "[]"]) (simp_all add: run_refl)
  next
    case True
    with "1.prems"(1) obtain fc2 l2 where n: "next_fc tmo l = (Ok fc2, l2)" "wait_loop tmo fc2 0 l2 = (Ok (fc', bc'), l')"
      by (auto simp: wait_loop.simps [of tmo fc bc l] split: prod.splits sum.splits)
    obtain f where f: "run l [Got f] l2" "f_data f = fc2" using next_fc_ok(1) [OF n(1)] by blast
    have IH: "fc_ok fc' \<and> in_block fc' bc' \<and> fc' ! 0 AND 0x0F \<noteq> FC_WAIT \<and>
       (\<exists>es. run l2 es l' \<and> sent_frames es = [] \<and>
          (\<forall>es'. obeys (credit_left fc' bc') (fc_pause fc') es' \<longrightarrow> obeys (fc_credit fc2) (fc_pause fc2) (es @ es')))"
      using "1.IH" [OF True n(1) [symmetric] refl n(2)] next_fc_ok(2) [OF n(1)] by simp
    then obtain es where es: "run l2 es l'" "sent_frames es = []"
      "\<forall>es'. obeys (credit_left fc' bc') (fc_pause fc') es' \<longrightarrow> obeys (fc_credit fc2) (fc_pause fc2) (es @ es')"
      by blast
    with f IH show ?thesis
      by (intro conjI exI [of _ "[Got f] @ es"]) (auto intro: run_trans [OF f(1) es(1), simplified])
  qed
qed

lemma wait_loop_err:
  "wait_loop tmo fc bc l = (Err e, l') \<Longrightarrow> \<exists>es. run l es l' \<and> sent_frames es = [] \<and> obeys cr st es"
proof (induction tmo fc bc l arbitrary: cr st rule: wait_loop.induct)
  case (1 tmo fc bc l)
  from "1.prems" have w: "fc ! 0 AND 0x0F = FC_WAIT"
    by (simp add: wait_loop.simps [of tmo fc bc l] split: if_splits)
  show ?case
  proof (cases "next_fc tmo l")
    case (Pair r l2)
    show ?thesis
    proof (cases r)
      case (Inl e2)
      with Pair w "1.prems" have "next_fc tmo l = (Err e, l')" by (simp add: wait_loop.simps [of tmo fc bc l])
      then show ?thesis by (rule next_fc_err)
    next
      case (Inr fc2)
      with Pair have n: "next_fc tmo l = (Ok fc2, l2)" by simp
      with w "1.prems" have "wait_loop tmo fc2 0 l2 = (Err e, l')" by (simp add: wait_loop.simps [of tmo fc bc l])
      from "1.IH" [OF w n [symmetric] refl this] obtain f es where
        "run l [Got f] l2" "run l2 es l'" "sent_frames es = []" "obeys (fc_credit (f_data f)) (fc_pause (f_data f)) es"
        using next_fc_ok(1) [OF n] by blast
      then show ?thesis using run_trans [of l "[Got f]" l2 es l'] by (intro exI [of _ "Got f # es"]) simp
    qed
  qed
qed

text \<open>One consecutive frame: after it and its pause, one frame of the credit is used up.\<close>

lemma obeys_cf:
  assumes "in_block fc bc" "fc_ok fc" "fc ! 0 AND 0x0F \<noteq> FC_WAIT"
    and "obeys (map_option (\<lambda>n. n - 1) (credit_left fc bc)) (fc_pause fc) es"
  shows "obeys (credit_left fc bc) (fc_pause fc)
    (Sent f # (if st_min_to_duration (fc ! 2) \<noteq> 0 then [Slept (st_min_to_duration (fc ! 2))] else []) @ es)"
  using assms
  by (auto simp: credit_left_def fc_credit_def fc_pause_def fc_ok_def in_block_def)

lemma credit_next:
  assumes "in_block fc bc" "fc_ok fc" "fc ! 0 AND 0x0F \<noteq> FC_WAIT"
    and "\<not> (fc ! 1 > 0 \<and> bc + 1 \<ge> ucast (fc ! 1))"
  shows "credit_left fc (bc + 1) = map_option (\<lambda>n. n - 1) (credit_left fc bc)" "in_block fc (bc + 1)"
proof -
  have "fc ! 1 = 0 \<or> unat (bc + 1) = Suc (unat bc) \<and> Suc (unat bc) < unat (fc ! 1)"
  proof (cases "fc ! 1 = 0")
    case False
    then have "bc + 1 < ucast (fc ! 1)" using assms(4) by (simp add: word_gt_0 not_le)
    then have lt: "unat (bc + 1) < unat (fc ! 1)" by (simp add: word_less_nat_alt unat_ucast_byte)
    have "unat bc < unat (fc ! 1)" using assms(1,3) False by (simp add: in_block_def)
    then have "unat (bc + 1) = Suc (unat bc)"
      using unat_less [of "fc ! 1"] by (simp add: unat_word_ariths)
    with lt show ?thesis by simp
  qed simp
  then show "credit_left fc (bc + 1) = map_option (\<lambda>n. n - 1) (credit_left fc bc)" "in_block fc (bc + 1)"
    using assms(2,3) by (auto simp: credit_left_def fc_credit_def fc_ok_def in_block_def)
qed

text \<open>What the loop has to deliver: the rest of the segments, or a prefix when it fails.\<close>

definition emits_segments :: "iso_config \<Rightarrow> (can_error, unit) result \<Rightarrow> link_event list \<Rightarrow> bytes list \<Rightarrow> bool" where
  "emits_segments cfg r es segs \<longleftrightarrow>
     prefix (sent_frames es) (map (make_frame cfg) segs) \<and>
     (r = Ok () \<longrightarrow> sent_frames es = map (make_frame cfg) segs)"

lemma emits_segments_nothing: "sent_frames es = [] \<Longrightarrow> emits_segments cfg (Err e) es segs"
  by (simp add: emits_segments_def)

lemma emits_segments_silent:
  "emits_segments cfg r es segs \<Longrightarrow> sent_frames es0 = [] \<Longrightarrow> emits_segments cfg r (es0 @ es) segs"
  by (simp add: emits_segments_def)

text \<open>
  \<open>transfer cfg fc bc segs l r l'\<close>: from \<open>l\<close>, under the flow control \<open>fc\<close> with \<open>bc\<close> frames of the
  block gone, the rest of a transfer of \<open>segs\<close> ends with \<open>r\<close> in \<open>l'\<close> as it should.
\<close>

definition transfer ::
    "iso_config \<Rightarrow> nat option \<Rightarrow> nat \<Rightarrow> bytes list \<Rightarrow> link \<Rightarrow> (can_error, unit) result \<Rightarrow> link \<Rightarrow> bool" where
  "transfer cfg credit pause segs l r l' \<longleftrightarrow>
     (\<exists>es. run l es l' \<and> obeys credit pause es \<and> emits_segments cfg r es segs)"

lemma transfer_fail: "run l es l' \<Longrightarrow> sent_frames es = [] \<Longrightarrow> obeys cr st es \<Longrightarrow> transfer cfg cr st segs l (Err e) l'"
  by (auto simp: transfer_def intro: emits_segments_nothing)

lemma transfer_done: "transfer cfg cr st [] l r l"
  by (auto simp: transfer_def run_refl emits_segments_def intro!: exI [of _ "[]"])

lemma transfer_silent:
  assumes "transfer cfg cr' st' segs l1 r l'" "run l es l1" "sent_frames es = []"
    and "\<And>es'. obeys cr' st' es' \<Longrightarrow> obeys cr st (es @ es')"
  shows "transfer cfg cr st segs l r l'"
  using assms unfolding transfer_def by (blast intro: run_trans emits_segments_silent)

lemma transfer_got:
  "transfer cfg (fc_credit (f_data f)) (fc_pause (f_data f)) segs l1 r l' \<Longrightarrow> run l [Got f] l1 \<Longrightarrow>
   transfer cfg cr st segs l r l'"
  by (rule transfer_silent [where es = "[Got f]"]) simp_all

definition paused :: "bytes \<Rightarrow> link \<Rightarrow> link" where
  "paused fc l = (if st_min_to_duration (fc ! 2) \<noteq> 0 then link_sleep (st_min_to_duration (fc ! 2)) l else l)"

lemma transfer_cf:
  assumes "transfer cfg (map_option (\<lambda>n. n - 1) (credit_left fc bc)) (fc_pause fc) segs (paused fc l2) r l'"
    and "link_send (make_frame cfg s) l = (Ok u, l2)" "in_block fc bc" "fc_ok fc" "fc ! 0 AND 0x0F \<noteq> FC_WAIT"
  shows "transfer cfg (credit_left fc bc) (fc_pause fc) (s # segs) l r l'"
proof -
  let ?d = "st_min_to_duration (fc ! 2)"
  let ?es = "Sent (make_frame cfg s) # (if ?d \<noteq> 0 then [Slept ?d] else [])"
  have "run l [Sent (make_frame cfg s)] l2" using assms(2) by (rule run_link_send_ok)
  moreover have "run l2 (if ?d \<noteq> 0 then [Slept ?d] else []) (paused fc l2)"
    by (simp add: paused_def run_link_sleep run_refl)
  ultimately have run: "run l ?es (paused fc l2)" using run_trans by fastforce
  obtain es where es: "run (paused fc l2) es l'" "emits_segments cfg r es segs"
    "obeys (map_option (\<lambda>n. n - 1) (credit_left fc bc)) (fc_pause fc) es"
    using assms(1) by (auto simp: transfer_def)
  have "emits_segments cfg r (?es @ es) (s # segs)" using es(2) by (simp add: emits_segments_def)
  moreover have "obeys (credit_left fc bc) (fc_pause fc) (?es @ es)"
    using obeys_cf [OF assms(3,4,5) es(3)] by simp
  ultimately show ?thesis using run_trans [OF run es(1)] by (auto simp: transfer_def)
qed

text \<open>The loop, cut at the end of one round.\<close>

definition cf_next :: "iso_config \<Rightarrow> bytes \<Rightarrow> u8 \<Rightarrow> u32 \<Rightarrow> bytes \<Rightarrow> link \<Rightarrow> (can_error, unit) result \<times> link" where
  "cf_next cfg fc sn block_count p l =
     (if fc ! 1 > 0 \<and> block_count \<ge> ucast (fc ! 1) \<and> p \<noteq> [] then
        case next_fc (effective_timeout cfg) l of
          (Err e, l) \<Rightarrow> (Err e, l)
        | (Ok fc, l) \<Rightarrow> cf_loop cfg fc sn 0 p l
      else cf_loop cfg fc sn block_count p l)"

lemma cf_loop_Nil [simp]: "cf_loop cfg fc sn bc [] l = (Ok (), l)"
  by (simp add: cf_loop.simps)

lemma cf_loop_step:
  assumes "p \<noteq> []"
  shows "cf_loop cfg fc (of_nat n) bc p l =
    (case wait_loop (effective_timeout cfg) fc bc l of
       (Err e, l) \<Rightarrow> (Err e, l)
     | (Ok (fc, bc), l) \<Rightarrow>
         (case link_send (make_frame cfg (of_nat (0x20 + n mod 16) # take 7 p)) l of
            (Err e, l) \<Rightarrow> (Err e, l)
          | (Ok _, l) \<Rightarrow> cf_next cfg fc (of_nat (Suc n)) (bc + 1) (drop 7 p) (paused fc l)))"
proof -
  have "take (min (length p) 7) p = take 7 p" "drop (min (length p) 7) p = drop 7 p"
    by (auto simp: min_def)
  then show ?thesis using assms
    by (subst cf_loop.simps)
      (simp add: Let_def cf_byte cf_next_def paused_def add.commute split: prod.split sum.split)
qed

lemma cf_next_transfer:
  assumes IH: "\<And>fc bc l. fc_ok fc \<Longrightarrow> in_block fc bc \<Longrightarrow> cf_loop cfg fc sn bc q l = (r, l') \<Longrightarrow>
      transfer cfg (credit_left fc bc) (fc_pause fc) segs l r l'"
    and segs: "q = [] \<Longrightarrow> segs = []"
    and fc: "fc_ok fc" "in_block fc bc" "fc ! 0 AND 0x0F \<noteq> FC_WAIT"
    and nx: "cf_next cfg fc sn (bc + 1) q l = (r, l')"
  shows "transfer cfg (map_option (\<lambda>n. n - 1) (credit_left fc bc)) (fc_pause fc) segs l r l'"
proof (cases "fc ! 1 > 0 \<and> bc + 1 \<ge> ucast (fc ! 1) \<and> q \<noteq> []")
  case True
  obtain x l4 where Pair: "next_fc (effective_timeout cfg) l = (x, l4)" by fastforce
  show ?thesis
  proof (cases x)
    case (Inl e)
    then show ?thesis using nx True Pair next_fc_err [of "effective_timeout cfg" l e l4]
      by (auto simp: cf_next_def intro: transfer_fail)
  next
    case (Inr fc2)
    then have nf: "next_fc (effective_timeout cfg) l = (Ok fc2, l4)" using Pair by simp
    from nx True nf have "cf_loop cfg fc2 sn 0 q l4 = (r, l')" by (simp add: cf_next_def)
    from IH [OF next_fc_ok(2) [OF nf] in_block_zero this] next_fc_ok(1) [OF nf]
    show ?thesis by (auto intro: transfer_got)
  qed
next
  case False
  then have loop: "cf_loop cfg fc sn (bc + 1) q l = (r, l')" using nx by (auto simp: cf_next_def)
  show ?thesis
  proof (cases "q = []")
    case True
    with loop segs show ?thesis by (simp add: transfer_done)
  next
    case more: False
    with False have "\<not> (fc ! 1 > 0 \<and> bc + 1 \<ge> ucast (fc ! 1))" by blast
    from credit_next [OF fc(2,1,3) this] IH [OF fc(1) _ loop] show ?thesis by simp
  qed
qed

lemma cf_loop_transfer:
  "fc_ok fc \<Longrightarrow> in_block fc bc \<Longrightarrow> cf_loop cfg fc (of_nat n) bc p l = (r, l') \<Longrightarrow>
     transfer cfg (credit_left fc bc) (fc_pause fc) (cf_segments n p) l r l'"
proof (induction "length p" arbitrary: n fc bc p l rule: less_induct)
  case less
  show ?case
  proof (cases "p = []")
    case True
    with less.prems show ?thesis by (simp add: transfer_done)
  next
    case False
    then have shorter: "length (drop 7 p) < length p" by simp
    have IH: "transfer cfg (credit_left fc bc) (fc_pause fc) (cf_segments (Suc n) (drop 7 p)) l r l'"
      if "fc_ok fc" "in_block fc bc" "cf_loop cfg fc (of_nat (Suc n)) bc (drop 7 p) l = (r, l')" for fc bc l
      using less.hyps [OF shorter that] .
    note next_round = cf_next_transfer [of cfg "of_nat (Suc n)" "drop 7 p" r l' "cf_segments (Suc n) (drop 7 p)", OF IH]
    show ?thesis
    proof (cases "wait_loop (effective_timeout cfg) fc bc l")
      case (Pair x l1)
      show ?thesis
      proof (cases x)
        case (Inl e)
        then show ?thesis
          using less.prems(3) False Pair wait_loop_err [of "effective_timeout cfg" fc bc l e l1]
          by (auto simp: cf_loop_step intro: transfer_fail)
      next
        case (Inr y)
        obtain fc1 bc1 where "y = (fc1, bc1)" by fastforce
        with Inr Pair have w: "wait_loop (effective_timeout cfg) fc bc l = (Ok (fc1, bc1), l1)" by simp
        note ok = wait_loop_ok [OF w less.prems(1,2)]
        have "transfer cfg (credit_left fc1 bc1) (fc_pause fc1) (cf_segments n p) l1 r l'"
          unfolding cf_segments_step [OF False]
        proof (cases "link_send (make_frame cfg (of_nat (0x20 + n mod 16) # take 7 p)) l1")
          case s: (Pair z l2)
          show "transfer cfg (credit_left fc1 bc1) (fc_pause fc1)
              ((of_nat (0x20 + n mod 16) # take 7 p) # cf_segments (Suc n) (drop 7 p)) l1 r l'"
          proof (cases z)
            case (Inl e)
            then show ?thesis using less.prems(3) False w s run_link_send_err
              by (auto simp: cf_loop_step intro!: transfer_fail [of l1 "[]"])
          next
            case (Inr u)
            then show ?thesis using less.prems(3) False w s ok next_round [of fc1 bc1 "paused fc1 l2"]
              by (intro transfer_cf [of cfg fc1 bc1 _ l2]) (simp_all add: cf_loop_step)
          qed
        qed
        then show ?thesis using ok by (blast intro: transfer_silent)
      qed
    qed
  qed
qed

section \<open>The whole send\<close>

lemma send_multi_unfold:
  assumes "7 < length p" "length p \<le> 4095"
  shows "send_multi_frame cfg p l =
    (case link_send (make_frame cfg (of_nat (0x10 + length p div 256) # of_nat (length p mod 256) # take 6 p)) l of
       (Err e, l) \<Rightarrow> (Err e, l)
     | (Ok _, l) \<Rightarrow>
         (case next_fc (effective_timeout cfg) l of
            (Err e, l) \<Rightarrow> (Err e, l)
          | (Ok fc, l) \<Rightarrow> cf_loop cfg fc 1 0 (drop 6 p) l))"
  using assms(1) ff_bytes(1) [OF assms(2)]
  by (simp add: send_multi_frame_def Let_def nat_and_mask(2) min_def)

lemma send_multi_trace:
  assumes "send_multi_frame cfg p l = (r, l')" "7 < length p" "length p \<le> 4095"
  shows "\<exists>es. run l es l' \<and> emits_segments cfg r es (segments p) \<and>
    (es = [] \<or> (\<exists>es'. es = Sent (make_frame cfg (hd (segments p))) # es' \<and> obeys (Some 0) 0 es'))"
proof -
  let ?ff = "of_nat (0x10 + length p div 256) # of_nat (length p mod 256) # take 6 p"
  have segs: "segments p = ?ff # cf_segments 1 (drop 6 p)" using assms(2) by (simp add: segments_def)
  note mult = send_multi_unfold [OF assms(2,3), of cfg l]
  obtain x l1 where s: "link_send (make_frame cfg ?ff) l = (x, l1)" by fastforce
  show ?thesis
  proof (cases x)
    case (Inl e)
    then show ?thesis
      using assms(1) mult s by (intro exI [of _ "[]"]) (auto simp: emits_segments_nothing dest: link_runs)
  next
    case (Inr u)
    have run1: "run l [Sent (make_frame cfg ?ff)] l1" using s Inr run_link_send_ok by blast
    have "\<exists>cr st. transfer cfg (Some 0) 0 (cf_segments 1 (drop 6 p)) l1 r l'"
    proof (cases "next_fc (effective_timeout cfg) l1")
      case (Pair y l2)
      show ?thesis
      proof (cases y)
        case (Inl e)
        then show ?thesis
          using assms(1) mult s Inr Pair next_fc_err [of "effective_timeout cfg" l1 e l2]
          by (auto intro: transfer_fail)
      next
        case y: (Inr fc)
        with Pair have nf: "next_fc (effective_timeout cfg) l1 = (Ok fc, l2)" by simp
        have "cf_loop cfg fc (of_nat 1) 0 (drop 6 p) l2 = (r, l')" using assms(1) mult s Inr nf by simp
        from cf_loop_transfer [OF next_fc_ok(2) [OF nf] in_block_zero this] next_fc_ok(1) [OF nf]
        show ?thesis by (auto intro: transfer_got)
      qed
    qed
    then obtain es where es: "run l1 es l'" "obeys (Some 0) 0 es" "emits_segments cfg r es (cf_segments 1 (drop 6 p))"
      by (auto simp: transfer_def)
    have "emits_segments cfg r (Sent (make_frame cfg ?ff) # es) (segments p)"
      using es(3) by (simp add: segs emits_segments_def)
    then show ?thesis using run_trans [OF run1 es(1)] es(2) segs
      by (intro exI [of _ "Sent (make_frame cfg ?ff) # es"]) simp
  qed
qed

lemma send_single_trace:
  assumes "send_single_frame cfg p l = (r, l')" "length p \<le> 7"
  shows "\<exists>es. run l es l' \<and> emits_segments cfg r es (segments p)"
proof -
  have segs: "segments p = [of_nat (length p) # p]" using assms(2) by (simp add: segments_def)
  show ?thesis
  proof (cases r)
    case (Inl e)
    then show ?thesis
      using assms by (intro exI [of _ "[]"]) (auto simp: send_single_frame_def emits_segments_nothing dest: link_runs)
  next
    case (Inr u)
    then have "run l [Sent (make_frame cfg (of_nat (length p) # p))] l'"
      using assms by (auto simp: send_single_frame_def sf_byte dest: link_runs)
    then show ?thesis using segs by (auto simp: emits_segments_def)
  qed
qed

lemma iso_send_trace:
  assumes "iso_send cfg p l = (r, l')" "p \<noteq> []" "length p \<le> 4095"
  shows "\<exists>es. run l es l' \<and> emits_segments cfg r es (segments p)"
  using assms send_single_trace [of cfg p l r l'] send_multi_trace [of cfg p l r l']
  by (cases "length p \<le> 7") (auto simp: iso_send_def not_le)

end
