(* ===== verification/Can_Isotp_Recv.thy ===== *)
theory Can_Isotp_Recv
  imports Can_Isotp_Send
begin

text \<open>
  What an ISO-TP receiver makes of the frames it gets (\<^verbatim>\<open>src/isotp/mod.rs\<close>): it reassembles the
  canonical segmentation, asking for the blocks of its configuration, and the sender completes
  against exactly those flow-control frames. The properties of the transport close the theory.
\<close>

section \<open>The receiver reassembles the segmentation\<close>

text \<open>An inbox that holds the frames with the given data, each in time.\<close>

definition arrives :: "nat \<Rightarrow> bytes list \<Rightarrow> (nat \<times> frame option) list \<Rightarrow> bool" where
  "arrives tmo segs evs \<longleftrightarrow> list_all2 (\<lambda>s (d, x). d \<le> tmo \<and> (\<exists>f. x = Some f \<and> f_data f = s)) segs evs"

lemma arrives_Nil [simp]: "arrives tmo [] evs \<longleftrightarrow> evs = []"
  by (simp add: arrives_def)

lemma arrives_ConsE:
  assumes "arrives tmo (s # segs) evs"
  obtains d f evs' where "evs = (d, Some f) # evs'" "d \<le> tmo" "f_data f = s" "arrives tmo segs evs'"
  using assms by (auto simp: arrives_def list_all2_Cons1)

lemma link_recv_arrives:
  assumes "arrives tmo (s # segs) evs" "lk_inbox l = evs @ rest"
  obtains f l' evs' where "link_recv tmo l = (Ok f, l')" "f_data f = s" "arrives tmo segs evs'"
    "lk_inbox l' = evs' @ rest" "lk_fault l' = lk_fault l" "run l [Got f] l'"
proof -
  obtain d f evs' where e: "evs = (d, Some f) # evs'" "d \<le> tmo" "f_data f = s" "arrives tmo segs evs'"
    using assms(1) by (rule arrives_ConsE)
  define l' where "l' = l\<lparr>lk_inbox := evs' @ rest, lk_waited := lk_waited l + d, lk_trace := lk_trace l @ [Got f]\<rparr>"
  have "link_recv tmo l = (Ok f, l')" using e assms(2) by (simp add: link_recv_def l'_def)
  moreover have "run l [Got f] l'" by (simp add: run_def l'_def)
  ultimately show thesis using that e by (simp add: l'_def)
qed

text \<open>A bus without faults takes every frame.\<close>

definition no_fault :: "link \<Rightarrow> bool" where
  "no_fault l \<longleftrightarrow> lk_fault l = (\<lambda>_. None)"

lemma link_send_no_fault:
  assumes "no_fault l"
  obtains l' where "link_send f l = (Ok (), l')" "no_fault l'" "lk_inbox l' = lk_inbox l" "run l [Sent f] l'"
proof -
  have "link_send f l = (Ok (), snd (link_send f l))" "no_fault (snd (link_send f l))"
    using assms by (simp_all add: link_send_def no_fault_def)
  moreover have "run l [Sent f] (snd (link_send f l))" using run_link_send_ok calculation(1) .
  ultimately show thesis using that link_send_inbox by blast
qed

text \<open>
  How many flow-control frames \<open>n\<close> further consecutive frames call for, with \<open>cnt\<close> frames of the
  current block of \<open>bs\<close> gone.
\<close>

definition fc_due :: "nat \<Rightarrow> nat \<Rightarrow> nat \<Rightarrow> nat" where
  "fc_due bs cnt n = (if bs = 0 \<or> n = 0 then 0 else (cnt + n - 1) div bs)"

lemma fc_due_step:
  assumes "cnt < bs \<or> bs = 0"
  shows "fc_due bs cnt (Suc n) =
    (if bs \<noteq> 0 \<and> Suc cnt = bs \<and> n \<noteq> 0 then Suc (fc_due bs 0 n) else fc_due bs (Suc cnt) n)"
proof (cases "bs \<noteq> 0 \<and> Suc cnt = bs \<and> n \<noteq> 0")
  case True
  then have "cnt + n = (n - 1) + bs" and "bs \<noteq> 0" by auto
  have "(n - 1 + bs) div bs = Suc ((n - 1) div bs)"
    using div_add_self2 [OF \<open>bs \<noteq> 0\<close>, of "n - 1"] by (simp only: Suc_eq_plus1)
  with \<open>cnt + n = (n - 1) + bs\<close> have "(cnt + n) div bs = Suc ((n - 1) div bs)" by (simp only:)
  with True show ?thesis by (simp add: fc_due_def)
qed (use assms in \<open>auto simp: fc_due_def\<close>)

text \<open>One consecutive frame with the expected number, on a bus without faults.\<close>

definition block_ends :: "iso_config \<Rightarrow> u8 \<Rightarrow> bool" where
  "block_ends cfg k \<longleftrightarrow> block_size cfg \<noteq> 0 \<and> Suc (unat k) = unat (block_size cfg)"

lemma recv_loop_step:
  assumes "length buf < len" "link_recv (effective_timeout cfg) l = (Ok f, l1)"
    and "f_data f = b # c" "b AND 0xF0 = TYPE_CF" "b AND 0x0F = of_nat n AND 0x0F"
    and "length buf + length c \<le> len"
  shows "recv_loop cfg len buf (of_nat n) k l =
    (if block_size cfg \<noteq> 0 \<and> k + 1 = block_size cfg \<and> length buf + length c < len then
       (case link_send (fc_frame cfg) l1 of
          (Err e, l) \<Rightarrow> (Err e, l)
        | (Ok _, l) \<Rightarrow> recv_loop cfg len (buf @ c) (of_nat (Suc n)) 0 l)
     else recv_loop cfg len (buf @ c) (of_nat (Suc n)) (k + 1) l1)"
proof -
  have "take (min (length c) (len - length buf)) c = c" using assms(6) by simp
  then show ?thesis
    using assms by (subst recv_loop.simps) (simp add: Let_def add.commute split: sum.split prod.split)
qed

lemma block_ends_iff:
  assumes "unat k < unat (block_size cfg) \<or> block_size cfg = 0"
  shows "block_size cfg \<noteq> 0 \<and> k + 1 = block_size cfg \<longleftrightarrow> block_ends cfg k"
    and "\<not> block_ends cfg k \<Longrightarrow> unat (k + 1) < unat (block_size cfg) \<or> block_size cfg = 0"
    and "block_size cfg \<noteq> 0 \<Longrightarrow> unat (k + 1) = Suc (unat k) \<or> block_ends cfg k"
proof -
  have "block_size cfg = 0 \<or> k + 1 = block_size cfg \<and> Suc (unat k) = unat (block_size cfg) \<or>
      unat (k + 1) = Suc (unat k) \<and> Suc (unat k) < unat (block_size cfg)"
  proof (cases "block_size cfg = 0")
    case False
    then have "Suc (unat k) \<le> unat (block_size cfg)" "unat (block_size cfg) < 256"
      using assms unat_less [of "block_size cfg"] by simp_all
    then have "unat (k + 1) = Suc (unat k)" by (simp add: unat_word_ariths)
    with \<open>Suc (unat k) \<le> unat (block_size cfg)\<close> show ?thesis by (auto simp: word_unat_eq_iff le_less)
  qed simp
  then show "block_size cfg \<noteq> 0 \<and> k + 1 = block_size cfg \<longleftrightarrow> block_ends cfg k"
    "\<not> block_ends cfg k \<Longrightarrow> unat (k + 1) < unat (block_size cfg) \<or> block_size cfg = 0"
    "block_size cfg \<noteq> 0 \<Longrightarrow> unat (k + 1) = Suc (unat k) \<or> block_ends cfg k"
    by (auto simp: block_ends_def)
qed

text \<open>The flow control frames that are due, round by round.\<close>

lemma fc_due_round:
  assumes "unat k < unat (block_size cfg) \<or> block_size cfg = 0"
    and fc: "fc \<longleftrightarrow> block_ends cfg k \<and> 0 < m" and k': "k' = (if fc then 0 else k + 1)"
  shows "fc_due (unat (block_size cfg)) (unat k) (Suc m) =
      (if fc then 1 else 0) + fc_due (unat (block_size cfg)) (unat k') m"
    and "0 < m \<Longrightarrow> unat k' < unat (block_size cfg) \<or> block_size cfg = 0"
proof -
  have due: "fc_due (unat (block_size cfg)) (unat k) (Suc m) =
      (if fc then Suc (fc_due (unat (block_size cfg)) 0 m) else fc_due (unat (block_size cfg)) (Suc (unat k)) m)"
    using fc_due_step [of "unat k" "unat (block_size cfg)" m] assms(1) by (auto simp: fc block_ends_def unat_eq_0)
  show "fc_due (unat (block_size cfg)) (unat k) (Suc m) =
      (if fc then 1 else 0) + fc_due (unat (block_size cfg)) (unat k') m"
  proof (cases "block_size cfg = 0 \<or> m = 0 \<or> fc")
    case True
    with due show ?thesis by (auto simp: fc_due_def k')
  next
    case False
    then have "\<not> fc" "unat (k + 1) = Suc (unat k)" using block_ends_iff(3) [OF assms(1)] fc by auto
    then show ?thesis by (simp only: due k' if_False add_0)
  qed
  show "0 < m \<Longrightarrow> unat k' < unat (block_size cfg) \<or> block_size cfg = 0"
    using block_ends_iff(2) [OF assms(1)] by (auto simp: fc k' unat_gt_0)
qed

lemma recv_loop_round:
  assumes "length buf < len" "link_recv (effective_timeout cfg) l = (Ok f, l1)" "no_fault l1"
    and "f_data f = b # c" "b AND 0xF0 = TYPE_CF" "b AND 0x0F = of_nat n AND 0x0F"
    and "length buf + length c \<le> len" "unat k < unat (block_size cfg) \<or> block_size cfg = 0"
  defines "fc \<equiv> block_ends cfg k \<and> length buf + length c < len"
  shows "\<exists>l2. recv_loop cfg len buf (of_nat n) k l =
      recv_loop cfg len (buf @ c) (of_nat (Suc n)) (if fc then 0 else k + 1) l2 \<and> no_fault l2 \<and>
      lk_inbox l2 = lk_inbox l1 \<and> run l (Got f # (if fc then [Sent (fc_frame cfg)] else [])) l2"
proof -
  note step = recv_loop_step [OF assms(1,2,4-7), of k]
  have got: "run l [Got f] l1" using assms(2) by (rule run_link_recv_ok)
  obtain l2 where s: "link_send (fc_frame cfg) l1 = (Ok (), l2)" "no_fault l2" "lk_inbox l2 = lk_inbox l1"
    "run l1 [Sent (fc_frame cfg)] l2" using assms(3) by (rule link_send_no_fault)
  show ?thesis
  proof (cases fc)
    case True
    then show ?thesis using step block_ends_iff(1) [OF assms(8)] s run_trans [OF got s(4)]
      by (intro exI [of _ l2]) (auto simp: fc_def)
  next
    case False
    then show ?thesis using step block_ends_iff(1) [OF assms(8)] got assms(3)
      by (intro exI [of _ l1]) (auto simp: fc_def)
  qed
qed

lemma recv_loop_segments:
  "arrives (effective_timeout cfg) (cf_segments n p) evs \<Longrightarrow> lk_inbox l = evs @ rest \<Longrightarrow> no_fault l \<Longrightarrow>
   length buf + length p = len \<Longrightarrow> unat k < unat (block_size cfg) \<or> block_size cfg = 0 \<Longrightarrow>
   \<exists>l' es. recv_loop cfg len buf (of_nat n) k l = (Ok (buf @ p), l') \<and> lk_inbox l' = rest \<and> run l es l' \<and>
     sent_frames es = replicate (fc_due (unat (block_size cfg)) (unat k) (length (cf_segments n p))) (fc_frame cfg)"
proof (induction n p arbitrary: evs l buf k rule: cf_segments.induct)
  case (1 n p)
  let ?bs = "unat (block_size cfg)" and ?q = "drop 7 p"
  show ?case
  proof (cases "p = []")
    case True
    with "1.prems" show ?thesis
      by (intro exI [of _ l] exI [of _ "[]"]) (simp add: recv_loop.simps fc_due_def run_refl)
  next
    case False
    let ?fc = "block_ends cfg k \<and> length buf + length (take 7 p) < len" and ?nq = "length (cf_segments (Suc n) ?q)"
    note segs = cf_segments_step [OF False, of n]
    obtain f l1 evs' where f: "link_recv (effective_timeout cfg) l = (Ok f, l1)"
      "f_data f = of_nat (0x20 + n mod 16) # take 7 p"
      "arrives (effective_timeout cfg) (cf_segments (Suc n) ?q) evs'" "lk_inbox l1 = evs' @ rest"
      "lk_fault l1 = lk_fault l" using "1.prems"(1,2) unfolding segs by (rule link_recv_arrives)
    have len: "length buf < len" "length buf + length (take 7 p) \<le> len" "length (buf @ take 7 p) + length ?q = len"
      "length buf + length (take 7 p) < len \<longleftrightarrow> ?q \<noteq> []" "(buf @ take 7 p) @ ?q = buf @ p"
      using "1.prems"(4) False by (auto simp: min_def not_le)
    have "no_fault l1" using "1.prems"(3) f(5) by (simp add: no_fault_def)
    from recv_loop_round [OF len(1) f(1) this f(2) cf_byte_parts len(2) "1.prems"(5)] obtain l2 where
      l2: "recv_loop cfg len buf (of_nat n) k l =
          recv_loop cfg len (buf @ take 7 p) (of_nat (Suc n)) (if ?fc then 0 else k + 1) l2"
        "no_fault l2" "lk_inbox l2 = lk_inbox l1" "run l (Got f # (if ?fc then [Sent (fc_frame cfg)] else [])) l2" by blast
    let ?k = "if ?fc then 0 else k + 1"
    have "?fc \<longleftrightarrow> block_ends cfg k \<and> 0 < ?nq" using len(4) by simp
    note due = fc_due_round [OF "1.prems"(5) this refl]
    show ?thesis
    proof (cases "?q = []")
      case True
      then have nfc: "\<not> ?fc" and "\<not> length (buf @ take 7 p) < len" using len(3,4) by auto
      then have "recv_loop cfg len (buf @ take 7 p) (of_nat (Suc n)) ?k l2 = (Ok (buf @ p), l2)"
        using True len(5) by (simp add: recv_loop.simps)
      moreover have "evs' = []" using f(3) True by simp
      ultimately show ?thesis using l2 f(4) due(1) nfc True
        by (intro exI [of _ l2] exI [of _ "[Got f]"]) (auto simp: segs fc_due_def)
    next
      case False
      with due(2) have "unat ?k < ?bs \<or> block_size cfg = 0" by simp
      from "1.IH" [OF \<open>p \<noteq> []\<close> f(3) _ l2(2) len(3) this] l2(3) f(4) obtain l' es where
        r: "recv_loop cfg len (buf @ take 7 p) (of_nat (Suc n)) ?k l2 = (Ok (buf @ p), l')" "lk_inbox l' = rest"
          "run l2 es l'" "sent_frames es = replicate (fc_due ?bs (unat ?k) ?nq) (fc_frame cfg)"
        unfolding len(5) by metis
      with due(1) show ?thesis
        using l2(1) run_trans [OF l2(4) r(3)]
        by (intro exI [of _ l'] exI [of _ "(Got f # (if ?fc then [Sent (fc_frame cfg)] else [])) @ es"]) (simp add: segs)
    qed
  qed
qed

text \<open>The flow-control frames that a whole payload calls for.\<close>

definition fc_total :: "u8 \<Rightarrow> bytes \<Rightarrow> nat" where
  "fc_total bs p = (if length p \<le> 7 then 0 else Suc (fc_due (unat bs) 0 (length (cf_segments 1 (drop 6 p)))))"

lemma recv_single:
  assumes "link_recv (effective_timeout cfg) l = (Ok f, l1)" "f_data f = of_nat (length p) # p"
    and "p \<noteq> []" "length p \<le> 7"
  shows "iso_recv cfg l = (Ok p, l1)"
proof -
  let ?b = "of_nat (length p) :: u8"
  have b: "?b AND 0xF0 = 0" "?b AND 0x0F = of_nat (length p)"
    using u8_nibbles(2,3) [of 0 "length p"] assms(4) by simp_all
  have "unat ?b = length p" using assms(4) by (simp add: unat_of_nat)
  then show ?thesis using assms b by (simp add: iso_recv_def Let_def)
qed

lemma recv_first_frame:
  assumes "link_recv (effective_timeout cfg) l = (Ok f, l1)" "f_data f = a # b # c"
    and "a AND 0xF0 = 0x10" "push_bit 8 (unat (a AND 0x0F)) OR unat b = len"
  shows "iso_recv cfg l =
    (case link_send (fc_frame cfg) l1 of
       (Err e, l) \<Rightarrow> (Err e, l)
     | (Ok _, l) \<Rightarrow> recv_loop cfg len c 1 0 l)"
  using assms by (simp add: iso_recv_def Let_def split: prod.split sum.split)

lemma recv_first:
  assumes "link_recv (effective_timeout cfg) l = (Ok f, l1)"
    and "f_data f = of_nat (0x10 + length p div 256) # of_nat (length p mod 256) # take 6 p" "length p \<le> 4095"
  shows "iso_recv cfg l =
    (case link_send (fc_frame cfg) l1 of
       (Err e, l) \<Rightarrow> (Err e, l)
     | (Ok _, l) \<Rightarrow> recv_loop cfg (length p) (take 6 p) 1 0 l)"
  using recv_first_frame [OF assms(1,2) ff_bytes(2,3) [OF assms(3)]] .

lemma iso_recv_segments:
  assumes "arrives (effective_timeout cfg) (segments p) evs" "lk_inbox l = evs @ rest" "no_fault l"
    and "p \<noteq> []" "length p \<le> 4095"
  shows "\<exists>l' es. iso_recv cfg l = (Ok p, l') \<and> lk_inbox l' = rest \<and> run l es l' \<and>
    sent_frames es = replicate (fc_total (block_size cfg) p) (fc_frame cfg)"
proof (cases "length p \<le> 7")
  case True
  then have "segments p = [of_nat (length p) # p]" by (simp add: segments_def)
  from link_recv_arrives [OF assms(1) [unfolded this] assms(2)] obtain f l1 evs' where
    "link_recv (effective_timeout cfg) l = (Ok f, l1)" "f_data f = of_nat (length p) # p"
    "arrives (effective_timeout cfg) [] evs'" "lk_inbox l1 = evs' @ rest" "run l [Got f] l1" by metis
  then show ?thesis using recv_single [of cfg l f l1 p] assms(4) True
    by (intro exI [of _ l1] exI [of _ "[Got f]"]) (simp add: fc_total_def)
next
  case False
  then have segs: "segments p = (of_nat (0x10 + length p div 256) # of_nat (length p mod 256) # take 6 p) #
      cf_segments 1 (drop 6 p)" by (simp add: segments_def)
  from link_recv_arrives [OF assms(1) [unfolded segs] assms(2)] obtain f l1 evs' where
    f: "link_recv (effective_timeout cfg) l = (Ok f, l1)"
      "f_data f = of_nat (0x10 + length p div 256) # of_nat (length p mod 256) # take 6 p"
      "arrives (effective_timeout cfg) (cf_segments 1 (drop 6 p)) evs'" "lk_inbox l1 = evs' @ rest"
      "lk_fault l1 = lk_fault l" "run l [Got f] l1" by metis
  have "no_fault l1" using assms(3) f(5) by (simp add: no_fault_def)
  then obtain l2 where s: "link_send (fc_frame cfg) l1 = (Ok (), l2)" "no_fault l2" "lk_inbox l2 = lk_inbox l1"
    "run l1 [Sent (fc_frame cfg)] l2" by (rule link_send_no_fault)
  have len: "length (take 6 p) + length (drop 6 p) = length p" by simp
  have "unat (0 :: u8) < unat (block_size cfg) \<or> block_size cfg = 0" by (simp add: unat_gt_0)
  from recv_loop_segments [OF f(3) _ s(2) len this, of rest] s(3) f(4) obtain l' es where
    r: "recv_loop cfg (length p) (take 6 p) (of_nat 1) 0 l2 = (Ok p, l')" "lk_inbox l' = rest" "run l2 es l'"
      "sent_frames es = replicate (fc_due (unat (block_size cfg)) 0 (length (cf_segments 1 (drop 6 p)))) (fc_frame cfg)"
    by (metis append_take_drop_id unat_0)
  show ?thesis
    using recv_first [OF f(1,2) assms(5)] s(1) r run_trans [OF f(6) run_trans [OF s(4) r(3)]] False
    by (intro exI [of _ l'] exI [of _ "[Got f] @ [Sent (fc_frame cfg)] @ es"]) (simp add: fc_total_def)
qed

section \<open>The sender completes against such a receiver\<close>

definition cts :: "u8 \<Rightarrow> u8 \<Rightarrow> bytes" where
  "cts bs st = [0x30, bs, st]"

lemma cts_facts:
  "fc_ok (cts bs st)" "cts bs st ! 0 AND 0x0F \<noteq> FC_WAIT" "cts bs st ! 1 = bs" "cts bs st ! Suc 0 = bs" "cts bs st ! 2 = st"
  by (simp_all add: fc_ok_def cts_def pci_defs)

lemma fc_frame_data: "f_data (fc_frame cfg) = cts (block_size cfg) (st_min cfg)"
  by (simp add: fc_frame_def make_frame_def cts_def pci_defs)

lemma next_fc_arrives:
  assumes "arrives tmo (cts bs st # segs) evs" "lk_inbox l = evs @ rest"
  obtains l' evs' where "next_fc tmo l = (Ok (cts bs st), l')" "arrives tmo segs evs'" "lk_inbox l' = evs' @ rest"
    "lk_fault l' = lk_fault l"
proof -
  from link_recv_arrives [OF assms] obtain f l' evs' where
    "link_recv tmo l = (Ok f, l')" "f_data f = cts bs st" "arrives tmo segs evs'" "lk_inbox l' = evs' @ rest"
    "lk_fault l' = lk_fault l" by metis
  moreover then have "next_fc tmo l = (Ok (cts bs st), l')"
    by (simp add: next_fc_def wait_fc_def cts_def pci_defs)
  ultimately show thesis using that by blast
qed

lemma wait_loop_cts: "wait_loop tmo (cts bs st) bc l = (Ok (cts bs st, bc), l)"
  using cts_facts(2) by (subst wait_loop.simps) simp

lemma paused_simps [simp]: "lk_inbox (paused fc l) = lk_inbox l" "no_fault (paused fc l) = no_fault l"
  by (simp_all add: paused_def link_sleep_def no_fault_def)

text \<open>The end of a round, with and without a new flow-control frame.\<close>

lemma cf_next_fc:
  assumes "bs \<noteq> 0" "Suc (unat bc) = unat bs" "q \<noteq> []" "no_fault l"
    and "arrives (effective_timeout cfg) (cts bs st # segs) evs" "lk_inbox l = evs @ rest"
  shows "\<exists>l' evs'. cf_next cfg (cts bs st) sn (bc + 1) q l = cf_loop cfg (cts bs st) sn 0 q l' \<and>
    arrives (effective_timeout cfg) segs evs' \<and> lk_inbox l' = evs' @ rest \<and> no_fault l'"
proof -
  from next_fc_arrives [OF assms(5,6)] obtain l' evs' where
    n: "next_fc (effective_timeout cfg) l = (Ok (cts bs st), l')" "arrives (effective_timeout cfg) segs evs'"
      "lk_inbox l' = evs' @ rest" "lk_fault l' = lk_fault l" by blast
  have "unat (bc + 1) = unat bs"
    using assms(2) unat_less [of bs] by (simp add: unat_word_ariths)
  then have "bs > 0 \<and> bc + 1 \<ge> ucast bs \<and> q \<noteq> []"
    using assms(1,3) by (simp add: word_le_nat_alt word_gt_0)
  then show ?thesis using n assms(4)
    by (intro exI [of _ l'] exI [of _ evs']) (simp add: cf_next_def cts_facts no_fault_def)
qed

lemma cf_next_same:
  assumes "unat bc < unat bs \<or> bs = 0" "\<not> (bs \<noteq> 0 \<and> Suc (unat bc) = unat bs \<and> q \<noteq> [])"
  shows "cf_next cfg (cts bs st) sn (bc + 1) q l = cf_loop cfg (cts bs st) sn (bc + 1) q l"
    and "q \<noteq> [] \<Longrightarrow> bs = 0 \<or> unat (bc + 1) = Suc (unat bc) \<and> unat (bc + 1) < unat bs"
proof -
  have bc1: "bs = 0 \<or> unat (bc + 1) = Suc (unat bc) \<and> Suc (unat bc) \<le> unat bs"
    using assms(1) unat_less [of bs] by (auto simp: unat_word_ariths)
  then show "cf_next cfg (cts bs st) sn (bc + 1) q l = cf_loop cfg (cts bs st) sn (bc + 1) q l"
    using assms(2) by (auto simp: cf_next_def cts_facts word_le_nat_alt word_gt_0)
  show "q \<noteq> [] \<Longrightarrow> bs = 0 \<or> unat (bc + 1) = Suc (unat bc) \<and> unat (bc + 1) < unat bs"
    using bc1 assms(2) by auto
qed

lemma cf_loop_completes:
  "arrives (effective_timeout cfg) (replicate (fc_due (unat bs) (unat bc) (length (cf_segments n p))) (cts bs st)) evs \<Longrightarrow>
   lk_inbox l = evs @ rest \<Longrightarrow> no_fault l \<Longrightarrow> unat bc < unat bs \<or> bs = 0 \<Longrightarrow>
   \<exists>l'. cf_loop cfg (cts bs st) (of_nat n) bc p l = (Ok (), l') \<and> lk_inbox l' = rest"
proof (induction n p arbitrary: bc l evs rule: cf_segments.induct)
  case (1 n p)
  show ?case
  proof (cases "p = []")
    case True
    with "1.prems" show ?thesis by (simp add: fc_due_def)
  next
    case False
    let ?q = "drop 7 p" and ?nq = "length (cf_segments (Suc n) (drop 7 p))"
    let ?fc = "bs \<noteq> 0 \<and> Suc (unat bc) = unat bs \<and> ?q \<noteq> []"
    obtain l1 where s: "link_send (make_frame cfg (of_nat (0x20 + n mod 16) # take 7 p)) l = (Ok (), l1)"
      "no_fault l1" "lk_inbox l1 = lk_inbox l" using "1.prems"(3) by (rule link_send_no_fault)
    let ?l = "paused (cts bs st) l1"
    have l: "no_fault ?l" "lk_inbox ?l = evs @ rest" using s "1.prems"(2) by simp_all
    have loop: "cf_loop cfg (cts bs st) (of_nat n) bc p l = cf_next cfg (cts bs st) (of_nat (Suc n)) (bc + 1) ?q ?l"
      by (simp only: cf_loop_step [OF False] wait_loop_cts s(1) sum.case prod.case)
    have due: "fc_due (unat bs) (unat bc) (length (cf_segments n p)) =
      (if ?fc then Suc (fc_due (unat bs) 0 ?nq) else fc_due (unat bs) (Suc (unat bc)) ?nq)"
      using fc_due_step [of "unat bc" "unat bs" ?nq] "1.prems"(4) by (simp add: cf_segments_step [OF False] unat_eq_0)
    show ?thesis
    proof (cases ?fc)
      case True
      then have "fc_due (unat bs) (unat bc) (length (cf_segments n p)) = Suc (fc_due (unat bs) 0 ?nq)"
        using due by simp
      with "1.prems"(1) have "arrives (effective_timeout cfg)
          (cts bs st # replicate (fc_due (unat bs) 0 ?nq) (cts bs st)) evs" by simp
      from cf_next_fc [OF _ _ _ l(1) this l(2), of bc ?q "of_nat (Suc n)"] True obtain l2 evs' where
        n: "cf_next cfg (cts bs st) (of_nat (Suc n)) (bc + 1) ?q ?l = cf_loop cfg (cts bs st) (of_nat (Suc n)) 0 ?q l2"
          "arrives (effective_timeout cfg) (replicate (fc_due (unat bs) 0 ?nq) (cts bs st)) evs'"
          "lk_inbox l2 = evs' @ rest" "no_fault l2" by blast
      from "1.IH" [OF False _ n(3,4), of 0] n(2) True show ?thesis by (simp only: loop n(1) unat_0 unat_gt_0) simp
    next
      case F: False
      note same = cf_next_same [OF "1.prems"(4) F]
      show ?thesis
      proof (cases "?q = []")
        case True
        then have "fc_due (unat bs) (Suc (unat bc)) ?nq = 0" by (simp add: fc_due_def)
        with "1.prems"(1) due F have "evs = []" by (simp only: if_False replicate_0 arrives_Nil)
        with l show ?thesis unfolding loop same(1) unfolding True by simp
      next
        case q: False
        have "fc_due (unat bs) (unat bc) (length (cf_segments n p)) = fc_due (unat bs) (unat (bc + 1)) ?nq"
          using F same(2) [OF q] due by (auto simp: fc_due_def)
        with "1.prems"(1) have a: "arrives (effective_timeout cfg)
            (replicate (fc_due (unat bs) (unat (bc + 1)) ?nq) (cts bs st)) evs" by simp
        from "1.IH" [OF False a l(2,1)] same(2) [OF q] show ?thesis unfolding loop same(1) by blast
      qed
    qed
  qed
qed

text \<open>The whole send against a receiver with block size \<open>bs\<close>.\<close>

lemma iso_send_completes:
  assumes "arrives (effective_timeout cfg) (replicate (fc_total bs p) (cts bs st)) evs" "lk_inbox l = evs @ rest"
    and "no_fault l" "p \<noteq> []" "length p \<le> 4095"
  shows "\<exists>l'. iso_send cfg p l = (Ok (), l') \<and> lk_inbox l' = rest"
proof (cases "length p \<le> 7")
  case True
  obtain l' where "link_send (make_frame cfg (of_nat (length p) # p)) l = (Ok (), l')" "lk_inbox l' = lk_inbox l"
    using assms(3) by (rule link_send_no_fault)
  then show ?thesis
    using assms True by (simp add: iso_send_def send_single_frame_def sf_byte fc_total_def)
next
  case False
  let ?ff = "of_nat (0x10 + length p div 256) # of_nat (length p mod 256) # take 6 p"
  obtain l1 where s: "link_send (make_frame cfg ?ff) l = (Ok (), l1)" "no_fault l1" "lk_inbox l1 = lk_inbox l"
    using assms(3) by (rule link_send_no_fault)
  have total: "fc_total bs p = Suc (fc_due (unat bs) 0 (length (cf_segments 1 (drop 6 p))))"
    using False by (simp add: fc_total_def)
  with assms(1) have "arrives (effective_timeout cfg)
      (cts bs st # replicate (fc_due (unat bs) 0 (length (cf_segments 1 (drop 6 p)))) (cts bs st)) evs" by simp
  from next_fc_arrives [OF this, of l1 rest] s(3) assms(2) obtain l2 evs' where
    n: "next_fc (effective_timeout cfg) l1 = (Ok (cts bs st), l2)"
      "arrives (effective_timeout cfg) (replicate (fc_due (unat bs) 0 (length (cf_segments 1 (drop 6 p)))) (cts bs st)) evs'"
      "lk_inbox l2 = evs' @ rest" "lk_fault l2 = lk_fault l1" by metis
  have "no_fault l2" using n(4) s(2) by (simp add: no_fault_def)
  from cf_loop_completes [OF _ n(3) this, of cfg bs 0 1] n(2) obtain l' where
    "cf_loop cfg (cts bs st) 1 0 (drop 6 p) l2 = (Ok (), l')" "lk_inbox l' = rest"
    by (auto simp: unat_gt_0)
  then show ?thesis
    using False assms(4,5) send_multi_unfold [of p cfg l] s(1) n(1) by (simp add: iso_send_def not_le)
qed

section \<open>Properties\<close>

text \<open>
  C6: Whatever the peer sends, when and for how long, and whichever sends the bus refuses: what an
  ISO-TP sender puts on the bus for a payload of 1 to 4095 bytes is a prefix of the canonical
  segmentation of ISO 15765-2 (single frame, or first frame with the 12-bit length followed by
  consecutive frames numbered modulo 16), under its own identifier, and the whole segmentation when it
  reports success.
\<close>

theorem isotp_send_segments:
  assumes "p \<noteq> []" "length p \<le> 4095"
  shows "let (r, l') = iso_send cfg p l;
             out = sent_frames (drop (length (lk_trace l)) (lk_trace l'))
         in prefix out (map (make_frame cfg) (segments p)) \<and>
            (r = Ok () \<longrightarrow> out = map (make_frame cfg) (segments p))"
proof -
  obtain r l' where s: "iso_send cfg p l = (r, l')" by fastforce
  from iso_send_trace [OF s assms] show ?thesis by (auto simp: s run_def emits_segments_def)
qed

theorem isotp_send_segments_witness:
  "sent_frames (lk_trace (snd (iso_send iso_default_config [1, 2]
     \<lparr>lk_inbox = [], lk_fault = (\<lambda>_. None), lk_sends = 0, lk_trace = [], lk_waited = 0\<rparr>))) =
   [make_frame iso_default_config [2, 1, 2]]"
proof -
  let ?l = "\<lparr>lk_inbox = [], lk_fault = (\<lambda>_. None), lk_sends = 0, lk_trace = [], lk_waited = 0\<rparr>"
  have "fst (iso_send iso_default_config [1, 2] ?l) = Ok ()"
    by (simp add: iso_send_def send_single_frame_def link_send_def)
  then show ?thesis
    using isotp_send_segments [of "[1, 2]" iso_default_config ?l]
    by (simp add: case_prod_unfold Let_def segments_def)
qed

text \<open>
  C7: Whatever the peer does, an ISO-TP sender obeys the flow control: after its first frame it sends a
  consecutive frame only on the credit of the last flow-control frame it received (none before the
  first one, none while the receiver says wait, at most the block size, any number if that is zero),
  and after each it pauses for the separation time that frame asked for.
\<close>

theorem isotp_sender_obeys:
  assumes "7 < length p" "length p \<le> 4095"
  shows "let (r, l') = iso_send cfg p l; es = drop (length (lk_trace l)) (lk_trace l')
         in es = [] \<or> hd es = Sent (make_frame cfg (hd (segments p))) \<and> obeys (Some 0) 0 (tl es)"
proof -
  obtain r l' where s: "iso_send cfg p l = (r, l')" by fastforce
  then have "send_multi_frame cfg p l = (r, l')" using assms by (auto simp: iso_send_def split: if_splits)
  from send_multi_trace [OF this assms] show ?thesis by (auto simp: s run_def)
qed

theorem isotp_sender_obeys_witness:
  "let (r, l') = iso_send iso_default_config [1, 2, 3, 4, 5, 6, 7, 8]
         \<lparr>lk_inbox = [(5, Some (default_frame\<lparr>f_data := [0x31, 0, 0]\<rparr>))], lk_fault = (\<lambda>_. None), lk_sends = 0,
          lk_trace = [], lk_waited = 0\<rparr>
   in lk_trace l' = [] \<or> obeys (Some 0) 0 (tl (lk_trace l'))"
  using isotp_sender_obeys [of "[1, 2, 3, 4, 5, 6, 7, 8]" iso_default_config
      "\<lparr>lk_inbox = [(5, Some (default_frame\<lparr>f_data := [0x31, 0, 0]\<rparr>))], lk_fault = (\<lambda>_. None), lk_sends = 0,
        lk_trace = [], lk_waited = 0\<rparr>"]
  by (auto simp: case_prod_unfold Let_def)

text \<open>
  C2: Two ISO-TP connections with any configurations transfer every payload of 1 to 4095 bytes: when
  each gets the frames the other sends, each within its timeout and on a bus that accepts them, the
  sender reports success, the receiver returns the payload, the frames that the sender sends are the
  ones the receiver read and the flow-control frames that the receiver sends are the ones the sender
  read; what else is queued on either side stays queued.
\<close>

theorem isotp_roundtrip:
  assumes "p \<noteq> []" "length p \<le> 4095" "no_fault ls" "no_fault lr"
    and "fcs = replicate (fc_total (block_size rcfg) p) (fc_frame rcfg)"
    and "list_all2 (\<lambda>f ev. fst ev \<le> effective_timeout scfg \<and> snd ev = Some f) fcs s_evs" "lk_inbox ls = s_evs @ s_rest"
    and "list_all2 (\<lambda>s ev. fst ev \<le> effective_timeout rcfg \<and> snd ev = Some (make_frame scfg s)) (segments p) r_evs"
    and "lk_inbox lr = r_evs @ r_rest"
  shows "let (rs, ls') = iso_send scfg p ls; (rr, lr') = iso_recv rcfg lr
         in rs = Ok () \<and> rr = Ok p \<and> lk_inbox ls' = s_rest \<and> lk_inbox lr' = r_rest \<and>
            sent_frames (drop (length (lk_trace ls)) (lk_trace ls')) = map (make_frame scfg) (segments p) \<and>
            sent_frames (drop (length (lk_trace lr)) (lk_trace lr')) = fcs"
proof -
  have "arrives (effective_timeout scfg) (replicate (fc_total (block_size rcfg) p) (cts (block_size rcfg) (st_min rcfg))) s_evs"
    using assms(6) unfolding assms(5) arrives_def
    by (auto simp: list_all2_conv_all_nth fc_frame_data split: prod.splits)
  from iso_send_completes [OF this assms(7,3,1,2)] obtain ls' where
    ls: "iso_send scfg p ls = (Ok (), ls')" "lk_inbox ls' = s_rest" by blast
  from iso_send_trace [OF ls(1) assms(1,2)] have
    "sent_frames (drop (length (lk_trace ls)) (lk_trace ls')) = map (make_frame scfg) (segments p)"
    by (auto simp: run_def emits_segments_def)
  moreover have "arrives (effective_timeout rcfg) (segments p) r_evs"
    unfolding arrives_def using assms(8)
    by (rule list_all2_mono) (auto simp: make_frame_def)
  from iso_recv_segments [OF this assms(9,4,1,2)] obtain lr' es where
    "iso_recv rcfg lr = (Ok p, lr')" "lk_inbox lr' = r_rest" "run lr es lr'" "sent_frames es = fcs"
    using assms(5) by blast
  ultimately show ?thesis using ls by (simp add: run_def)
qed


theorem isotp_roundtrip_witness:
  "let l = \<lparr>lk_inbox = [], lk_fault = (\<lambda>_. None), lk_sends = 0, lk_trace = [], lk_waited = 0\<rparr>;
       scfg = iso_default_config; rcfg = iso_default_config\<lparr>tx_id := 0x7E8, rx_id := 0x7E0\<rparr>;
       p = [1, 2, 3, 4, 5, 6, 7, 8]
   in fst (iso_send scfg p (l\<lparr>lk_inbox := [(3, Some (fc_frame rcfg))]\<rparr>)) = Ok () \<and>
      fst (iso_recv rcfg (l\<lparr>lk_inbox := map (\<lambda>s. (2, Some (make_frame scfg s)))
        [[0x10, 8, 1, 2, 3, 4, 5, 6], [0x21, 7, 8]]\<rparr>)) = Ok p"
proof -
  let ?l = "\<lparr>lk_inbox = [], lk_fault = (\<lambda>_. None), lk_sends = 0, lk_trace = [], lk_waited = 0\<rparr>"
  let ?r = "iso_default_config\<lparr>tx_id := 0x7E8, rx_id := 0x7E0\<rparr>" and ?p = "[1, 2, 3, 4, 5, 6, 7, 8 :: u8]"
  let ?segs = "[[0x10, 8, 1, 2, 3, 4, 5, 6], [0x21, 7, 8 :: u8]]"
  have segs: "segments ?p = ?segs"
    by (simp add: segments_def cf_segments_step)
  have total: "fc_total (block_size iso_default_config) ?p = 1"
    by (simp add: fc_total_def fc_due_def iso_default_config_def)
  have tmo: "effective_timeout iso_default_config = 250000000" "effective_timeout ?r = 250000000"
    by (simp_all add: effective_timeout_def iso_default_config_def millis_def)
  show ?thesis
    using isotp_roundtrip [of ?p "?l\<lparr>lk_inbox := [(3, Some (fc_frame ?r))]\<rparr>"
        "?l\<lparr>lk_inbox := map (\<lambda>s. (2, Some (make_frame iso_default_config s))) ?segs\<rparr>" "[fc_frame ?r]" ?r
        iso_default_config "[(3, Some (fc_frame ?r))]" "[]"
        "map (\<lambda>s. (2, Some (make_frame iso_default_config s))) ?segs" "[]"]
    by (simp add: segs total tmo no_fault_def case_prod_unfold Let_def)
qed

end
