(* ===== verification/Can_Isotp_Sound.thy ===== *)
theory Can_Isotp_Sound
  imports Can_Isotp_Recv Can_Virtual
begin

text \<open>
  What an ISO-TP receiver may conclude from a success, for any peer (\<^verbatim>\<open>src/isotp/mod.rs\<close>), the limits
  of that conclusion, the time a reception may take, and a connection on the in-process bus.
\<close>

section \<open>What was received\<close>

fun got_data :: "link_event list \<Rightarrow> bytes list" where
  "got_data [] = []"
| "got_data (Got f # es) = f_data f # got_data es"
| "got_data (_ # es) = got_data es"

lemma got_data_append [simp]: "got_data (xs @ ys) = got_data xs @ got_data ys"
  by (induction xs rule: got_data.induct) simp_all

text \<open>Consecutive frames with the numbers \<open>n\<close>, \<open>n + 1\<close>, \<open>\<dots>\<close> modulo 16.\<close>

fun numbered :: "nat \<Rightarrow> bytes list \<Rightarrow> bool" where
  "numbered n [] = True"
| "numbered n (c # cs) = (c \<noteq> [] \<and> hd c = of_nat (0x20 + n mod 16) \<and> numbered (Suc n) cs)"

lemma cf_byte_unique:
  assumes "(b :: u8) AND 0xF0 = TYPE_CF" "b AND 0x0F = of_nat n AND 0x0F"
  shows "b = of_nat (0x20 + n mod 16)"
proof -
  have "b = b AND mask 8" by (rule bit_word_eqI) (simp add: bit_simps)
  then have "b = b AND (0xF0 OR 0x0F)" by (simp add: mask_eq_exp_minus_1)
  also have "\<dots> = TYPE_CF OR (of_nat n AND 0x0F)"
    using assms by (simp only: bit.conj_disj_distrib)
  finally show ?thesis by (simp only: cf_byte)
qed

text \<open>One round of the loop, when the whole loop succeeds.\<close>

lemma recv_loop_ok_round:
  assumes "recv_loop cfg len buf (of_nat n) k l = (Ok p, l')" "length buf < len"
  obtains c es k' l2 where "run l es l2" "got_data es = [of_nat (0x20 + n mod 16) # c]"
    "recv_loop cfg len (buf @ take (len - length buf) c) (of_nat (Suc n)) k' l2 = (Ok p, l')"
    "length (lk_inbox l2) < length (lk_inbox l)"
proof -
  note unf = recv_loop.simps [of cfg len buf "of_nat n" k l]
  from assms unf obtain cf l1 where r: "link_recv (effective_timeout cfg) l = (Ok cf, l1)"
    by (auto split: prod.splits sum.splits)
  with assms unf have ok: "f_data cf \<noteq> []" "f_data cf ! 0 AND 0xF0 = TYPE_CF"
    "f_data cf ! 0 AND 0x0F = of_nat n AND 0x0F"
    by (auto simp: Let_def split: if_splits)
  obtain b c where bc: "f_data cf = b # c" using ok(1) by (cases "f_data cf") auto
  then have b: "b = of_nat (0x20 + n mod 16)" using ok(2,3) by (intro cf_byte_unique) simp_all
  have got: "run l [Got cf] l1" using r by (rule run_link_recv_ok)
  have shrink: "length (lk_inbox l1) < length (lk_inbox l)" using r by (rule link_recv_shrinks)
  let ?buf = "buf @ take (len - length buf) c" and ?k = "k + 1"
  let ?fc = "block_size cfg \<noteq> 0 \<and> ?k = block_size cfg \<and> length ?buf < len"
  have take: "take (min (length c) (len - length buf)) c = take (len - length buf) c" by (simp add: min_def)
  have loop: "recv_loop cfg len buf (of_nat n) k l =
      (if ?fc then case link_send (fc_frame cfg) l1 of
          (Err e, l) \<Rightarrow> (Err e, l)
        | (Ok _, l) \<Rightarrow> recv_loop cfg len ?buf (of_nat (Suc n)) 0 l
       else recv_loop cfg len ?buf (of_nat (Suc n)) ?k l1)"
    using assms(2) r ok by (simp add: unf bc Let_def take add.commute split: prod.split sum.split)
  show thesis
  proof (cases ?fc)
    case True
    with assms(1) loop obtain u l2 where s: "link_send (fc_frame cfg) l1 = (Ok u, l2)"
      "recv_loop cfg len ?buf (of_nat (Suc n)) 0 l2 = (Ok p, l')"
      by (auto split: prod.splits sum.splits)
    show thesis
      using that [OF run_trans [OF got run_link_send_ok [OF s(1)]] _ s(2)] shrink link_send_inbox [of "fc_frame cfg" l1] s(1)
      by (simp add: bc b)
  next
    case False
    have "recv_loop cfg len ?buf (of_nat (Suc n)) ?k l1 = (Ok p, l')"
      using assms(1) unfolding loop if_not_P [OF False] .
    from that [OF got _ this shrink] show thesis by (simp add: bc b)
  qed
qed

lemma recv_loop_sound:
  "recv_loop cfg len buf (of_nat n) k l = (Ok p, l') \<Longrightarrow>
   \<exists>es. run l es l' \<and> numbered n (got_data es) \<and> len \<le> length p \<and>
     p = buf @ take (len - length buf) (concat (map tl (got_data es)))"
proof (induction "length (lk_inbox l)" arbitrary: buf n k l rule: less_induct)
  case less
  show ?case
  proof (cases "length buf < len")
    case False
    with less.prems have "p = buf" "l' = l" by (simp_all add: recv_loop.simps [of cfg len buf])
    with False show ?thesis by (intro exI [of _ "[]"]) (simp add: run_refl)
  next
    case True
    obtain c es k' l2 where r: "run l es l2" "got_data es = [of_nat (0x20 + n mod 16) # c]"
      "recv_loop cfg len (buf @ take (len - length buf) c) (of_nat (Suc n)) k' l2 = (Ok p, l')"
      "length (lk_inbox l2) < length (lk_inbox l)"
      using recv_loop_ok_round [OF less.prems True] .
    from less.hyps [OF r(4,3)] obtain es' where e: "run l2 es' l'" "numbered (Suc n) (got_data es')" "len \<le> length p"
      "p = (buf @ take (len - length buf) c) @
        take (len - length (buf @ take (len - length buf) c)) (concat (map tl (got_data es')))" by blast
    have split: "take (len - length buf) (c @ xs) =
        take (len - length buf) c @ take (len - length (buf @ take (len - length buf) c)) xs" for xs :: bytes
      by (cases "length c \<le> len - length buf") simp_all
    have "concat (map tl (got_data (es @ es'))) = c @ concat (map tl (got_data es'))"
      using r(2) by simp
    then have "p = buf @ take (len - length buf) (concat (map tl (got_data (es @ es'))))"
      using e(4) by (simp only: split append_assoc)
    moreover have "numbered n (got_data (es @ es'))" using e(2) r(2) by simp
    ultimately show ?thesis using e(3) run_trans [OF r(1) e(1)] by blast
  qed
qed

text \<open>The declared length of a first frame.\<close>

definition declared_len :: "bytes \<Rightarrow> nat" where
  "declared_len d = 256 * (unat (d ! 0) mod 16) + unat (d ! 1)"

lemma unat_low_nibble: "unat ((b :: u8) AND 0x0F) = unat b mod 16"
  using u8_low_nibble [of "unat b"] by (simp add: unat_of_nat)

lemma declared_len_eq: "push_bit 8 (unat (d ! 0 AND 0x0F)) OR unat ((d ! 1) :: u8) = declared_len d"
  using unat_less [of "d ! 1"] by (simp only: unat_low_nibble declared_len_def) (simp add: push_bit_or_byte)

section \<open>How long a reception takes\<close>

definition in_time :: "nat \<Rightarrow> link \<Rightarrow> link \<Rightarrow> nat \<Rightarrow> bool" where
  "in_time tmo l l' k \<longleftrightarrow>
     (\<exists>es. run l es l' \<and> lk_waited l' \<le> lk_waited l + tmo * (length (got_data es) + k))"

lemma in_time_recv:
  "link_recv tmo l = (Ok f, l') \<Longrightarrow> in_time tmo l l' 0"
  "link_recv tmo l = (Err e, l') \<Longrightarrow> in_time tmo l l' 1"
proof -
  assume r: "link_recv tmo l = (Ok f, l')"
  then have "lk_waited l' \<le> lk_waited l + tmo"
    by (auto simp: link_recv_def split: list.splits prod.splits if_splits option.splits)
  with run_link_recv_ok [OF r] show "in_time tmo l l' 0"
    unfolding in_time_def by (intro exI [of _ "[Got f]"]) simp
next
  assume r: "link_recv tmo l = (Err e, l')"
  then have "lk_waited l' \<le> lk_waited l + tmo"
    by (auto simp: link_recv_def split: list.splits prod.splits if_splits option.splits)
  with run_link_recv_err [OF r] show "in_time tmo l l' 1"
    unfolding in_time_def by (intro exI [of _ "[]"]) simp
qed

lemma in_time_refl: "in_time tmo l l k"
  unfolding in_time_def by (intro exI [of _ "[]"]) (simp add: run_refl)

lemma in_time_send: "in_time tmo l (snd (link_send f l)) 0"
proof -
  have "lk_waited (snd (link_send f l)) = lk_waited l" by (simp add: link_send_def split: option.split)
  moreover have "run l [] (snd (link_send f l)) \<or> run l [Sent f] (snd (link_send f l))"
    by (simp add: link_send_def run_def split: option.split)
  ultimately show ?thesis
    unfolding in_time_def
    by (elim disjE) (intro exI [of _ "[]"], simp, intro exI [of _ "[Sent f]"], simp)
qed

lemma in_time_trans: "in_time tmo l l' 0 \<Longrightarrow> in_time tmo l' l'' k \<Longrightarrow> in_time tmo l l'' k"
proof -
  assume "in_time tmo l l' 0" "in_time tmo l' l'' k"
  then obtain es es' where e: "run l es l'" "lk_waited l' \<le> lk_waited l + tmo * length (got_data es)"
    "run l' es' l''" "lk_waited l'' \<le> lk_waited l' + tmo * (length (got_data es') + k)"
    by (auto simp: in_time_def)
  then have "lk_waited l'' \<le> lk_waited l + tmo * (length (got_data (es @ es')) + k)"
    by (simp add: algebra_simps)
  with run_trans [OF e(1,3)] show ?thesis unfolding in_time_def by blast
qed

lemma in_time_one: "in_time tmo l l' 0 \<Longrightarrow> in_time tmo l l' 1"
  using in_time_trans in_time_refl by blast

lemma recv_loop_continues:
  assumes "length buf < len" "link_recv (effective_timeout cfg) l = (Ok cf, l1)"
  obtains l2 where "l2 = l1 \<or> l2 = snd (link_send (fc_frame cfg) l1)"
    "snd (recv_loop cfg len buf sn k l) = l2 \<or>
     (\<exists>buf' sn' k'. recv_loop cfg len buf sn k l = recv_loop cfg len buf' sn' k' l2)"
proof -
  obtain A B C D e1 e2 e3 buf' sn' where
    "recv_loop cfg len buf sn k l =
      (if A then (Err e1, l1) else if B then (Err e2, l1) else if C then (Err e3, l1)
       else if D then case link_send (fc_frame cfg) l1 of
              (Err e, l) \<Rightarrow> (Err e, l)
            | (Ok _, l) \<Rightarrow> recv_loop cfg len buf' sn' 0 l
       else recv_loop cfg len buf' sn' (k + 1) l1)"
    by (rule that, subst recv_loop.simps)
      (simp only: assms if_True sum.case prod.case Let_def)
  then have "snd (recv_loop cfg len buf sn k l) = l1 \<or>
      recv_loop cfg len buf sn k l = (case link_send (fc_frame cfg) l1 of
              (Err e, l) \<Rightarrow> (Err e, l)
            | (Ok _, l) \<Rightarrow> recv_loop cfg len buf' sn' 0 l) \<or>
      recv_loop cfg len buf sn k l = recv_loop cfg len buf' sn' (k + 1) l1"
    by (simp split: if_split_asm)
  moreover have "snd (case link_send (fc_frame cfg) l1 of (Err e, l) \<Rightarrow> (Err e, l)
        | (Ok _, l) \<Rightarrow> recv_loop cfg len buf' sn' 0 l) = snd (link_send (fc_frame cfg) l1) \<or>
      (case link_send (fc_frame cfg) l1 of (Err e, l) \<Rightarrow> (Err e, l)
        | (Ok _, l) \<Rightarrow> recv_loop cfg len buf' sn' 0 l) = recv_loop cfg len buf' sn' 0 (snd (link_send (fc_frame cfg) l1))"
    by (simp split: prod.split sum.split)
  ultimately consider "snd (recv_loop cfg len buf sn k l) = l1"
    | "snd (recv_loop cfg len buf sn k l) = snd (link_send (fc_frame cfg) l1)"
    | "recv_loop cfg len buf sn k l = recv_loop cfg len buf' sn' 0 (snd (link_send (fc_frame cfg) l1))"
    | "recv_loop cfg len buf sn k l = recv_loop cfg len buf' sn' (k + 1) l1" by argo
  then show thesis
    using that [of l1] that [of "snd (link_send (fc_frame cfg) l1)"] by cases blast+
qed

lemma recv_loop_in_time: "in_time (effective_timeout cfg) l (snd (recv_loop cfg len buf sn k l)) 1"
proof (induction "length (lk_inbox l)" arbitrary: buf sn k l rule: less_induct)
  case less
  show ?case
  proof (cases "length buf < len")
    case False
    then show ?thesis by (simp add: recv_loop.simps [of cfg len buf] in_time_refl)
  next
    case True
    obtain r l1 where r: "link_recv (effective_timeout cfg) l = (r, l1)" by fastforce
    show ?thesis
    proof (cases r)
      case (Inl e)
      with r True in_time_recv(2) show ?thesis by (simp add: recv_loop.simps [of cfg len buf])
    next
      case (Inr cf)
      with r have rc: "link_recv (effective_timeout cfg) l = (Ok cf, l1)" by simp
      obtain l2 where
        l2: "l2 = l1 \<or> l2 = snd (link_send (fc_frame cfg) l1)"
          "snd (recv_loop cfg len buf sn k l) = l2 \<or>
           (\<exists>buf' sn' k'. recv_loop cfg len buf sn k l = recv_loop cfg len buf' sn' k' l2)"
        by (rule recv_loop_continues [OF True rc])
      have t: "in_time (effective_timeout cfg) l l2 0"
        using l2(1) in_time_recv(1) [OF rc]
          in_time_trans [OF in_time_recv(1) [OF rc] in_time_send [of "effective_timeout cfg" l1 "fc_frame cfg"]]
        by (elim disjE) (simp_all only:)
      have "length (lk_inbox l2) < length (lk_inbox l)"
        using l2(1) link_recv_shrinks [OF rc] link_send_inbox [of "fc_frame cfg" l1] by auto
      note IH = less.hyps [OF this]
      from l2(2) show ?thesis
      proof
        assume "snd (recv_loop cfg len buf sn k l) = l2"
        with in_time_one [OF t] show ?thesis by simp
      next
        assume "\<exists>buf' sn' k'. recv_loop cfg len buf sn k l = recv_loop cfg len buf' sn' k' l2"
        then show ?thesis using in_time_trans [OF t IH] by metis
      qed
    qed
  qed
qed

lemma iso_recv_in_time: "in_time (effective_timeout cfg) l (snd (iso_recv cfg l)) 1"
proof -
  obtain r l1 where r: "link_recv (effective_timeout cfg) l = (r, l1)" by fastforce
  show ?thesis
  proof (cases r)
    case (Inl e)
    with r in_time_recv(2) show ?thesis by (simp add: iso_recv_def)
  next
    case (Inr f)
    with r have rc: "link_recv (effective_timeout cfg) l = (Ok f, l1)" by simp
    note t = in_time_one [OF in_time_recv(1) [OF rc]]
    obtain s l2 where s: "link_send (fc_frame cfg) l1 = (s, l2)" by fastforce
    have t2: "in_time (effective_timeout cfg) l l2 0"
      using in_time_trans [OF in_time_recv(1) [OF rc] in_time_send [of _ l1 "fc_frame cfg"]] s by simp
    have "in_time (effective_timeout cfg) l (snd (recv_loop cfg n b 1 0 l2)) 1" for n b
      by (rule in_time_trans [OF t2 recv_loop_in_time])
    then show ?thesis
      using t in_time_one [OF t2] by (simp add: iso_recv_def rc s Let_def split: sum.split)
  qed
qed

text \<open>A first frame starts the loop.\<close>

lemma iso_recv_first:
  assumes "link_recv (effective_timeout cfg) l = (Ok f, l1)" "2 \<le> length (f_data f)" "f_data f ! 0 AND 0xF0 = 0x10"
    and "link_send (fc_frame cfg) l1 = (Ok u, l2)"
  shows "iso_recv cfg l = recv_loop cfg (declared_len (f_data f)) (drop 2 (f_data f)) 1 0 l2"
  using assms declared_len_eq [of "f_data f"] by (auto simp: iso_recv_def Let_def)

lemma iso_recv_Ok_cases:
  assumes "iso_recv cfg l = (Ok p, l')"
  obtains (single) f where "run l [Got f] l'" "f_data f \<noteq> []" "f_data f ! 0 AND 0xF0 = 0"
      "p = take (unat (f_data f ! 0) mod 16) (tl (f_data f))" "length p = unat (f_data f ! 0) mod 16"
      "1 \<le> length p" "length p \<le> 7"
    | (multi) f es where "run l (Got f # Sent (fc_frame cfg) # es) l'" "2 \<le> length (f_data f)"
      "f_data f ! 0 AND 0xF0 = 0x10" "numbered 1 (got_data es)" "declared_len (f_data f) \<le> length p"
      "p = drop 2 (f_data f) @
        take (declared_len (f_data f) - (length (f_data f) - 2)) (concat (map tl (got_data es)))"
proof -
  obtain r l1 where r: "link_recv (effective_timeout cfg) l = (r, l1)" by fastforce
  with assms obtain f where f: "r = Ok f" by (cases r) (auto simp: iso_recv_def)
  with r have rc: "link_recv (effective_timeout cfg) l = (Ok f, l1)" by simp
  have got: "run l [Got f] l1" using rc by (rule run_link_recv_ok)
  have ne: "f_data f \<noteq> []" using assms rc by (auto simp: iso_recv_def)
  have "f_data f ! 0 AND 0xF0 = 0 \<or> f_data f ! 0 AND 0xF0 = 0x10"
    using assms rc ne by (auto simp: iso_recv_def Let_def split: if_splits)
  then show thesis
  proof
    assume sf: "f_data f ! 0 AND 0xF0 = 0"
    then have "l' = l1" "p = take (unat (f_data f ! 0) mod 16) (tl (f_data f))"
      "unat (f_data f ! 0) mod 16 \<noteq> 0" "unat (f_data f ! 0) mod 16 \<le> 7"
      "unat (f_data f ! 0) mod 16 \<le> length (f_data f) - 1"
      using assms rc ne by (auto simp: iso_recv_def Let_def unat_low_nibble drop_Suc split: if_splits)
    with got ne sf show thesis by (intro single) (auto simp: Suc_le_eq)
  next
    assume ff: "f_data f ! 0 AND 0xF0 = 0x10"
    have two: "2 \<le> length (f_data f)" using assms rc ne ff by (auto simp: iso_recv_def Let_def split: if_splits)
    obtain s l2 where s: "link_send (fc_frame cfg) l1 = (s, l2)" by fastforce
    with assms rc ne ff two obtain u where "s = Ok u" by (cases s) (auto simp: iso_recv_def Let_def)
    with s have s: "link_send (fc_frame cfg) l1 = (Ok u, l2)" by simp
    have "recv_loop cfg (declared_len (f_data f)) (drop 2 (f_data f)) (of_nat 1) 0 l2 = (Ok p, l')"
      using iso_recv_first [OF rc two ff s] assms by simp
    from recv_loop_sound [OF this] obtain es where
      e: "run l2 es l'" "numbered 1 (got_data es)" "declared_len (f_data f) \<le> length p"
        "p = drop 2 (f_data f) @ take (declared_len (f_data f) - length (drop 2 (f_data f))) (concat (map tl (got_data es)))"
      by blast
    have "run l (Got f # Sent (fc_frame cfg) # es) l'"
      using run_trans [OF got run_trans [OF run_link_send_ok [OF s] e(1)]] by simp
    from multi [OF this two ff e(2,3) e(4) [unfolded length_drop]] show thesis .
  qed
qed

section \<open>Properties\<close>

text \<open>
  C24: Whatever the peer sends, a payload that \<^verbatim>\<open>recv\<close> returns is what the frames it read carry: either
  one single frame of 1 to 7 bytes, or a first frame and then consecutive frames numbered 1, 2, \<open>\<dots>\<close>
  modulo 16 with nothing else in between, whose data fill the payload up to the declared length.
\<close>

theorem isotp_recv_sound:
  assumes "iso_recv cfg l = (Ok p, l')"
  shows "let got = got_data (drop (length (lk_trace l)) (lk_trace l')); d = hd got; n = unat (d ! 0) mod 16
    in got = [d] \<and> d ! 0 AND 0xF0 = 0 \<and> p = take n (tl d) \<and> length p = n \<and> n \<in> {1..7} \<or>
       d ! 0 AND 0xF0 = 0x10 \<and> numbered 1 (tl got) \<and> declared_len d \<le> length p \<and>
         p = drop 2 d @ take (declared_len d - (length d - 2)) (concat (map tl (tl got)))"
  using assms
proof (cases rule: iso_recv_Ok_cases)
  case (single f)
  then show ?thesis by (auto simp: run_def Let_def)
next
  case (multi f es)
  then show ?thesis by (simp add: run_def Let_def)
qed

theorem isotp_recv_sound_witness:
  "numbered 1 (tl (got_data (lk_trace (snd (iso_recv iso_default_config
     \<lparr>lk_inbox = map (\<lambda>d. (1, Some (default_frame\<lparr>f_data := d\<rparr>))) [[0x10, 8, 1, 2, 3, 4, 5, 6], [0x21, 7, 8]],
      lk_fault = (\<lambda>_. None), lk_sends = 0, lk_trace = [], lk_waited = 0\<rparr>)))))"
proof -
  let ?l = "\<lparr>lk_inbox = map (\<lambda>d. (1, Some (default_frame\<lparr>f_data := d\<rparr>))) [[0x10, 8, 1, 2, 3, 4, 5, 6], [0x21, 7, 8]],
      lk_fault = (\<lambda>_. None), lk_sends = 0, lk_trace = [], lk_waited = 0\<rparr>"
  have run: "iso_recv iso_default_config ?l =
    (Ok [1, 2, 3, 4, 5, 6, 7, 8], \<lparr>lk_inbox = [], lk_fault = (\<lambda>_. None), lk_sends = 1,
      lk_trace = [Got (default_frame\<lparr>f_data := [0x10, 8, 1, 2, 3, 4, 5, 6]\<rparr>), Sent (fc_frame iso_default_config),
        Got (default_frame\<lparr>f_data := [0x21, 7, 8]\<rparr>)], lk_waited = 2\<rparr>)"
    by (simp add: iso_recv_def link_recv_def link_send_def recv_loop.simps effective_timeout_def
        iso_default_config_def millis_def Let_def pci_defs push_bit_or_byte)
  from isotp_recv_sound [OF run] show ?thesis unfolding run by (simp add: Let_def)
qed

text \<open>
  The declared length does not bound what \<^verbatim>\<open>recv\<close> returns: a first frame that carries more bytes
  than it declares is returned with all of them, at once and as a success.
\<close>

theorem isotp_recv_overlong:
  assumes "lk_inbox l = (d, Some f) # rest" "d \<le> effective_timeout cfg" "no_fault l"
    and "2 \<le> length (f_data f)" "f_data f ! 0 AND 0xF0 = 0x10" "declared_len (f_data f) \<le> length (f_data f) - 2"
  shows "fst (iso_recv cfg l) = Ok (drop 2 (f_data f))"
proof -
  have rc: "link_recv (effective_timeout cfg) l =
      (Ok f, l\<lparr>lk_inbox := rest, lk_waited := lk_waited l + d, lk_trace := lk_trace l @ [Got f]\<rparr>)"
    using assms(1,2) by (simp add: link_recv_def)
  then have "no_fault (l\<lparr>lk_inbox := rest, lk_waited := lk_waited l + d, lk_trace := lk_trace l @ [Got f]\<rparr>)"
    using assms(3) by (simp add: no_fault_def)
  then obtain l2 where s: "link_send (fc_frame cfg)
      (l\<lparr>lk_inbox := rest, lk_waited := lk_waited l + d, lk_trace := lk_trace l @ [Got f]\<rparr>) = (Ok (), l2)"
    by (rule link_send_no_fault)
  show ?thesis
    using iso_recv_first [OF rc assms(4,5) s] assms(6) by (simp add: recv_loop.simps)
qed

theorem isotp_recv_overlong_witness:
  "fst (iso_recv iso_default_config
     \<lparr>lk_inbox = [(1, Some (default_frame\<lparr>f_data := [0x10, 3, 1, 2, 3, 4, 5, 6]\<rparr>))], lk_fault = (\<lambda>_. None),
      lk_sends = 0, lk_trace = [], lk_waited = 0\<rparr>) = Ok [1, 2, 3, 4, 5, 6]"
  using isotp_recv_overlong [of "\<lparr>lk_inbox = [(1, Some (default_frame\<lparr>f_data := [0x10, 3, 1, 2, 3, 4, 5, 6]\<rparr>))],
      lk_fault = (\<lambda>_. None), lk_sends = 0, lk_trace = [], lk_waited = 0\<rparr>" 1
      "default_frame\<lparr>f_data := [0x10, 3, 1, 2, 3, 4, 5, 6]\<rparr>" "[]" iso_default_config]
  by (simp add: effective_timeout_def iso_default_config_def millis_def no_fault_def declared_len_def)

text \<open>
  A reception never waits longer than its timeout for one frame: the whole time spent in \<^verbatim>\<open>recv\<close> is
  at most the timeout times one more than the number of frames read.
\<close>

theorem isotp_recv_time:
  "let l' = snd (iso_recv cfg l); n = length (got_data (drop (length (lk_trace l)) (lk_trace l')))
   in lk_waited l' \<le> lk_waited l + effective_timeout cfg * (n + 1)"
  using iso_recv_in_time [of cfg l] by (auto simp: in_time_def run_def Let_def)

lemma recv_loop_empty_cfs:
  assumes "length buf < len"
  shows "lk_inbox l = map (\<lambda>i. (effective_timeout cfg, Some (default_frame\<lparr>f_data := [of_nat (0x20 + i mod 16)]\<rparr>)))
      [j..<j + n] \<Longrightarrow> no_fault l \<Longrightarrow>
    fst (recv_loop cfg len buf (of_nat j) k l) = Err Timeout \<and>
    lk_waited (snd (recv_loop cfg len buf (of_nat j) k l)) = lk_waited l + effective_timeout cfg * (n + 1)"
proof (induction n arbitrary: j k l)
  case 0
  then show ?case using assms by (simp add: recv_loop.simps link_recv_def)
next
  case (Suc n)
  let ?f = "default_frame\<lparr>f_data := [of_nat (0x20 + j mod 16)]\<rparr>"
  let ?evs = "map (\<lambda>i. (effective_timeout cfg, Some (default_frame\<lparr>f_data := [of_nat (0x20 + i mod 16)]\<rparr>)))
    [Suc j..<Suc j + n]"
  let ?l1 = "l\<lparr>lk_inbox := ?evs, lk_waited := lk_waited l + effective_timeout cfg, lk_trace := lk_trace l @ [Got ?f]\<rparr>"
  have "lk_inbox l = (effective_timeout cfg, Some ?f) # ?evs"
  proof -
    have "[j..<j + Suc n] = j # [Suc j..<Suc j + n]" by (simp add: upt_conv_Cons del: upt_Suc)
    then show ?thesis using Suc.prems(1) by (simp only: list.map)
  qed
  then have rc: "link_recv (effective_timeout cfg) l = (Ok ?f, ?l1)" by (simp add: link_recv_def)
  have nf: "no_fault ?l1" using Suc.prems(2) by (simp add: no_fault_def)
  have data: "f_data ?f = of_nat (0x20 + j mod 16) # []" by simp
  note step = recv_loop_step [OF assms rc data cf_byte_parts, of k]
  obtain l2 where s: "link_send (fc_frame cfg) ?l1 = (Ok (), l2)" "no_fault l2" "lk_inbox l2 = lk_inbox ?l1"
    using nf by (rule link_send_no_fault)
  moreover have "lk_waited l2 = lk_waited ?l1" using s(1) nf by (auto simp: link_send_def no_fault_def)
  ultimately show ?case
    using step assms Suc.IH [of l2 "Suc j" 0] Suc.IH [of ?l1 "Suc j" "k + 1"] nf
    by (simp add: algebra_simps)
qed

text \<open>
  The number of frames, and with it the time, has no bound: for every \<open>n\<close> there is a peer that
  keeps \<^verbatim>\<open>recv\<close> busy with \<open>n\<close> consecutive frames that carry no data, each just in time, so that it
  still waits after \<open>n + 1\<close> times the timeout.
\<close>

theorem isotp_recv_unbounded:
  assumes "evs = (0, Some (default_frame\<lparr>f_data := [0x10, 100, 1, 2, 3, 4, 5, 6]\<rparr>)) #
      map (\<lambda>i. (effective_timeout cfg, Some (default_frame\<lparr>f_data := [of_nat (0x20 + i mod 16)]\<rparr>))) [1..<1 + n]"
  shows "let (r, l') = iso_recv cfg \<lparr>lk_inbox = evs, lk_fault = (\<lambda>_. None), lk_sends = 0, lk_trace = [], lk_waited = 0\<rparr>
         in r = Err Timeout \<and> lk_waited l' = effective_timeout cfg * (n + 1)"
proof -
  let ?f = "default_frame\<lparr>f_data := [0x10, 100, 1, 2, 3, 4, 5, 6 :: u8]\<rparr>"
  let ?l = "\<lparr>lk_inbox = evs, lk_fault = (\<lambda>_. None), lk_sends = 0, lk_trace = [], lk_waited = 0\<rparr>"
  let ?l1 = "?l\<lparr>lk_inbox := tl evs, lk_trace := [Got ?f]\<rparr>"
  have rc: "link_recv (effective_timeout cfg) ?l = (Ok ?f, ?l1)" by (simp add: link_recv_def assms)
  define l2 where "l2 = ?l1\<lparr>lk_sends := 1, lk_trace := [Got ?f, Sent (fc_frame cfg)]\<rparr>"
  have s: "link_send (fc_frame cfg) ?l1 = (Ok (), l2)" by (simp add: link_send_def l2_def)
  have "iso_recv cfg ?l = recv_loop cfg 100 [1, 2, 3, 4, 5, 6] (of_nat 1) 0 l2"
    using iso_recv_first [OF rc _ _ s] by (simp add: declared_len_def)
  then show ?thesis
    using recv_loop_empty_cfs [of "[1, 2, 3, 4, 5, 6]" 100 l2 cfg 1 n 0]
    by (simp add: case_prod_unfold Let_def l2_def assms no_fault_def)
qed

theorem isotp_recv_unbounded_witness:
  "lk_waited (snd (iso_recv iso_default_config \<lparr>lk_inbox =
     (0, Some (default_frame\<lparr>f_data := [0x10, 100, 1, 2, 3, 4, 5, 6]\<rparr>)) #
       map (\<lambda>i. (effective_timeout iso_default_config, Some (default_frame\<lparr>f_data := [of_nat (0x20 + i mod 16)]\<rparr>)))
         [1..<1 + 39], lk_fault = (\<lambda>_. None), lk_sends = 0, lk_trace = [], lk_waited = 0\<rparr>)) = millis 10000"
proof -
  have "effective_timeout iso_default_config * 40 = millis 10000"
    by (simp add: effective_timeout_def iso_default_config_def millis_def)
  with isotp_recv_unbounded [OF refl, of iso_default_config 39] show ?thesis
    by (simp only: case_prod_unfold Let_def) simp
qed

text \<open>
  A connection on the in-process bus is fed by its identifier alone: its queue takes a frame sent on
  the bus exactly if the frame is valid and its identifier agrees with the configured one under the
  mask of the address length. The frame's own address length is not looked at, so a connection with
  11-bit identifiers also takes extended frames whose low 11 bits agree.
\<close>

theorem isotp_connection_filter:
  assumes "vb_inv b" "\<not> vb_closed b" "tx_id cfg \<noteq> rx_id cfg" "msk = (if ext_ids cfg then 0x1FFFFFFF else 0x7FF)"
  shows "let (r, b') = iso_new (vb_subscribe now) cfg b; h = length (vb_store b); q = vb_store b' ! h;
             q' = vb_store (snd (vb_send clk f b')) ! h
         in r = Ok \<lparr>ic_cfg = cfg, ic_rx = h\<rparr> \<and> si_queue q = [] \<and>
            si_queue q' = (if wf_frame f \<and> f_id f AND msk = rx_id cfg AND msk then [f] else [])"
proof -
  let ?flt = "[\<lparr>flt_id = rx_id cfg, flt_mask = msk\<rparr>]" and ?h = "length (vb_store b)"
  let ?b' = "snd (vb_subscribe now ?flt default_options b)"
  have new: "iso_new (vb_subscribe now) cfg b = (Ok \<lparr>ic_cfg = cfg, ic_rx = ?h\<rparr>, ?b')"
    using assms by (simp add: iso_new_def vb_subscribe_def Let_def)
  note q = subscribed_queue [OF assms(2,1) refl refl, of now ?flt default_options]
  have "vb_store (snd (vb_send clk f ?b')) ! ?h =
      queue_step (vb_accepts ?b' ?h) ?h (Arrive clk f) (vb_store ?b' ! ?h)"
    by (rule vports.deliver_store [OF q(1,2)])
  then have "vb_store (snd (vb_send clk f ?b')) ! ?h =
      queue_step (\<lambda>f. wf_frame f \<and> f_id f AND msk = rx_id cfg AND msk) ?h (Arrive clk f) (sub_new now 64 DropNewest 0)"
    unfolding q(3,4) by (simp add: filter_matches_def chan_depth_def default_options_def)
  moreover have "vb_store ?b' ! ?h = sub_new now 64 DropNewest 0"
    unfolding q(3) by (simp add: chan_depth_def default_options_def)
  ultimately show ?thesis
    unfolding new Let_def prod.case by (simp add: sub_new_def sub_push_def rate_admit_def)
qed

theorem isotp_connection_filter_witness:
  "let (r, b') = iso_new (vb_subscribe 0) iso_default_config vb_new
   in si_queue (vb_store (snd (vb_send (\<lambda>_. 1) (default_frame\<lparr>f_id := 0x127E8, f_ext := True\<rparr>) b')) ! 0) =
      [default_frame\<lparr>f_id := 0x127E8, f_ext := True\<rparr>]"
  using isotp_connection_filter [of vb_new iso_default_config "0x7FF", where now = 0 and clk = "\<lambda>_. 1" and
      f = "default_frame\<lparr>f_id := 0x127E8, f_ext := True\<rparr>"]
  by (simp add: vb_new_def iso_default_config_def case_prod_unfold Let_def wf_frame_def wf_classic_def wf_id_def
      default_frame_def vb_inv_new [unfolded vb_new_def])

end
