(* ===== verification/Can_Isotp_Steps.thy ===== *)
theory Can_Isotp_Steps
  imports Can_Isotp_Recv Can_Virtual
begin

text \<open>
  \<^verbatim>\<open>send\<close> and \<^verbatim>\<open>recv\<close> of an ISO-TP connection (\<^verbatim>\<open>src/isotp/mod.rs\<close>) as tasks: what is left of the call between two
  of its accesses to the bus. A task says what it needs next (send a frame, wait for one, sleep) and goes on
  with the answer, so that two tasks can take turns on one bus. Run without interruption against a \<open>link\<close>, a
  task does what \<open>iso_send\<close> and \<open>iso_recv\<close> do.
\<close>

section \<open>Tasks\<close>

datatype need = Need_send frame | Need_recv nat | Need_sleep nat | Need_nothing

record 's bus_task =
  tk_need :: "'s \<Rightarrow> need"
  tk_sent :: "'s \<Rightarrow> (can_error, unit) result \<Rightarrow> 's"
  tk_got :: "'s \<Rightarrow> (can_error, frame) result \<Rightarrow> 's"
  tk_slept :: "'s \<Rightarrow> 's"

text \<open>One access of a task to the link of its connection.\<close>

definition link_step :: "'s bus_task \<Rightarrow> 's \<times> link \<Rightarrow> 's \<times> link" where
  "link_step tk x =
     (let (pc, l) = x
      in case tk_need tk pc of
        Need_send f \<Rightarrow> (let (r, l) = link_send f l in (tk_sent tk pc r, l))
      | Need_recv tmo \<Rightarrow> (let (r, l) = link_recv tmo l in (tk_got tk pc r, l))
      | Need_sleep d \<Rightarrow> (tk_slept tk pc, link_sleep d l)
      | Need_nothing \<Rightarrow> (pc, l))"

definition leads_to :: "'s bus_task \<Rightarrow> 's \<times> link \<Rightarrow> 's \<times> link \<Rightarrow> bool" where
  "leads_to tk x y \<longleftrightarrow> (\<exists>n. (link_step tk ^^ n) x = y)"

lemma leads_to_refl [simp]: "leads_to tk x x"
  unfolding leads_to_def by (rule exI [of _ 0]) simp

lemma leads_to_trans: "leads_to tk x y \<Longrightarrow> leads_to tk y z \<Longrightarrow> leads_to tk x z"
  unfolding leads_to_def by (metis comp_apply funpow_add)

lemma leads_to_step: "leads_to tk (link_step tk x) y \<Longrightarrow> leads_to tk x y"
  unfolding leads_to_def by (metis comp_apply funpow_Suc_right)

lemma leads_to_next: "link_step tk x = y \<Longrightarrow> leads_to tk x y"
  using leads_to_step [of tk x y] by simp

text \<open>One access of a task to the in-process bus, with the receiver \<open>h\<close> of its connection; none while it waits.\<close>

definition task_step :: "'s bus_task \<Rightarrow> nat \<Rightarrow> clock \<Rightarrow> 's \<Rightarrow> virtual_bus \<Rightarrow> ('s \<times> virtual_bus) option" where
  "task_step tk h clk pc b =
     (case tk_need tk pc of
        Need_send f \<Rightarrow> (let (r, b) = vb_send clk f b in Some (tk_sent tk pc r, b))
      | Need_recv tmo \<Rightarrow>
          (case fst (recv_poll (vb_store b ! h)) of
             Pending \<Rightarrow> None
           | Ready None \<Rightarrow> Some (tk_got tk pc (Err Closed), b)
           | Ready (Some f) \<Rightarrow> Some (tk_got tk pc (Ok f), vb_update h (\<lambda>q. snd (recv_poll q)) b))
      | Need_sleep d \<Rightarrow> Some (tk_slept tk pc, b)
      | Need_nothing \<Rightarrow> None)"

text \<open>The timer of a wait runs out; \<^verbatim>\<open>timeout\<close> looks at the queue first.\<close>

definition task_timeout :: "'s bus_task \<Rightarrow> nat \<Rightarrow> 's \<Rightarrow> virtual_bus \<Rightarrow> 's option" where
  "task_timeout tk h pc b =
     (case tk_need tk pc of
        Need_recv tmo \<Rightarrow> if fst (recv_poll (vb_store b ! h)) = Pending then Some (tk_got tk pc (Err Timeout)) else None
      | _ \<Rightarrow> None)"

section \<open>The code: send\<close>

text \<open>
  \<open>Tx_single\<close> and \<open>Tx_first\<close> are about to send the only or the first frame of the payload. \<open>Tx_await\<close> waits
  for a flow control frame, whether the first one, one after a \<open>WAIT\<close> or one at the end of a block: all three continue at
  the head of the loop with a block count of 0. \<open>Tx_cf\<close> is about to send a consecutive frame, \<open>Tx_pause\<close>
  sleeps after one. The sequence number and the rest of the payload come last.
\<close>

datatype tx_pc =
    Tx_single bytes
  | Tx_first bytes
  | Tx_await u8 bytes
  | Tx_cf bytes u32 u8 bytes
  | Tx_pause nat bytes u32 u8 bytes
  | Tx_done "(can_error, unit) result"

definition tx_start :: "bytes \<Rightarrow> tx_pc" where
  "tx_start payload =
     (if payload = [] then Tx_done (Err (Other ''isotp: empty payload''))
      else if length payload > 4095 then Tx_done (Err PayloadTooLarge)
      else if length payload \<le> 7 then Tx_single payload
      else Tx_first payload)"

text \<open>The head of the loop: the test for the end of the payload and the test for \<open>WAIT\<close>.\<close>

definition tx_head :: "bytes \<Rightarrow> u32 \<Rightarrow> u8 \<Rightarrow> bytes \<Rightarrow> tx_pc" where
  "tx_head fc block_count sn payload =
     (if payload = [] then Tx_done (Ok ())
      else if fc ! 0 AND 0x0F = FC_WAIT then Tx_await sn payload
      else Tx_cf fc block_count sn payload)"

text \<open>The end of a round, after the pause.\<close>

definition tx_round_end :: "bytes \<Rightarrow> u32 \<Rightarrow> u8 \<Rightarrow> bytes \<Rightarrow> tx_pc" where
  "tx_round_end fc block_count sn payload =
     (let bs = fc ! 1
      in if bs > 0 \<and> block_count \<ge> ucast bs \<and> payload \<noteq> [] then Tx_await sn payload
         else tx_head fc block_count sn payload)"

definition tx_need :: "iso_config \<Rightarrow> tx_pc \<Rightarrow> need" where
  "tx_need cfg pc =
     (case pc of
        Tx_single payload \<Rightarrow> Need_send (make_frame cfg ((TYPE_SF OR of_nat (length payload)) # payload))
      | Tx_first payload \<Rightarrow>
          (let ff_len = length payload
           in Need_send (make_frame cfg ((TYPE_FF OR of_nat (drop_bit 8 ff_len AND 0x0F)) # of_nat (ff_len AND 0xFF) #
                take (min (length payload) 6) payload)))
      | Tx_await sn payload \<Rightarrow> Need_recv (effective_timeout cfg)
      | Tx_cf fc bc sn payload \<Rightarrow>
          Need_send (make_frame cfg ((TYPE_CF OR (sn AND 0x0F)) # take (min (length payload) 7) payload))
      | Tx_pause d fc bc sn payload \<Rightarrow> Need_sleep d
      | Tx_done r \<Rightarrow> Need_nothing)"

definition tx_sent :: "iso_config \<Rightarrow> tx_pc \<Rightarrow> (can_error, unit) result \<Rightarrow> tx_pc" where
  "tx_sent cfg pc r =
     (case r of
        Err e \<Rightarrow> Tx_done (Err e)
      | Ok _ \<Rightarrow>
          (case pc of
             Tx_first payload \<Rightarrow> Tx_await 1 (drop (min (length payload) 6) payload)
           | Tx_cf fc block_count sn payload \<Rightarrow>
               let payload = drop (min (length payload) 7) payload;
                   sn = sn + 1;
                   block_count = block_count + 1;
                   st = st_min_to_duration (fc ! 2)
               in if st \<noteq> 0 then Tx_pause st fc block_count sn payload
                  else tx_round_end fc block_count sn payload
           | _ \<Rightarrow> Tx_done (Ok ())))"

text \<open>\<open>wait_fc\<close> and the check for an overflow.\<close>

definition tx_got :: "iso_config \<Rightarrow> tx_pc \<Rightarrow> (can_error, frame) result \<Rightarrow> tx_pc" where
  "tx_got cfg pc r =
     (case pc of
        Tx_await sn payload \<Rightarrow>
          (case r of
             Err e \<Rightarrow> Tx_done (Err e)
           | Ok f \<Rightarrow>
               if length (f_data f) < 3 \<or> f_data f ! 0 AND 0xF0 \<noteq> TYPE_FC
               then Tx_done (Err (Other ''isotp: malformed or truncated flow control frame''))
               else if f_data f ! 0 AND 0x0F = FC_OVERFLOW then Tx_done (Err (Other ''isotp: receiver overflow''))
               else tx_head (f_data f) 0 sn payload)
      | _ \<Rightarrow> pc)"

definition tx_slept :: "tx_pc \<Rightarrow> tx_pc" where
  "tx_slept pc = (case pc of Tx_pause d fc bc sn payload \<Rightarrow> tx_round_end fc bc sn payload | _ \<Rightarrow> pc)"

definition tx_task :: "iso_config \<Rightarrow> tx_pc bus_task" where
  "tx_task cfg = \<lparr>tk_need = tx_need cfg, tk_sent = tx_sent cfg, tk_got = tx_got cfg, tk_slept = tx_slept\<rparr>"

section \<open>The code: recv\<close>

text \<open>
  \<open>Rcv_first\<close> waits for the first frame, \<open>Rcv_fc\<close> is about to send a flow control frame, after the first frame
  or at the end of a block, \<open>Rcv_cf\<close> waits for a consecutive frame.
\<close>

datatype rcv_pc =
    Rcv_first
  | Rcv_fc nat bytes u8
  | Rcv_cf nat bytes u8 u8
  | Rcv_done "(can_error, bytes) result"

definition rcv_head :: "nat \<Rightarrow> bytes \<Rightarrow> u8 \<Rightarrow> u8 \<Rightarrow> rcv_pc" where
  "rcv_head len buf sn cf_in_block = (if length buf < len then Rcv_cf len buf sn cf_in_block else Rcv_done (Ok buf))"

definition rcv_need :: "iso_config \<Rightarrow> rcv_pc \<Rightarrow> need" where
  "rcv_need cfg pc =
     (case pc of
        Rcv_first \<Rightarrow> Need_recv (effective_timeout cfg)
      | Rcv_fc len buf sn \<Rightarrow> Need_send (make_frame cfg [TYPE_FC OR FC_CTS, block_size cfg, st_min cfg])
      | Rcv_cf len buf sn k \<Rightarrow> Need_recv (effective_timeout cfg)
      | Rcv_done r \<Rightarrow> Need_nothing)"

definition rcv_sent :: "iso_config \<Rightarrow> rcv_pc \<Rightarrow> (can_error, unit) result \<Rightarrow> rcv_pc" where
  "rcv_sent cfg pc r =
     (case pc of
        Rcv_fc len buf sn \<Rightarrow> (case r of Err e \<Rightarrow> Rcv_done (Err e) | Ok _ \<Rightarrow> rcv_head len buf sn 0)
      | _ \<Rightarrow> pc)"

definition rcv_got_first :: "frame \<Rightarrow> rcv_pc" where
  "rcv_got_first first =
     (if f_data first = [] then Rcv_done (Err (Other ''isotp: empty first frame''))
      else
        let pci = f_data first ! 0 AND 0xF0
        in if pci = 0x00 then
             let len = unat (f_data first ! 0 AND 0x0F)
             in if len = 0 \<or> len > 7 \<or> len > length (f_data first) - 1
                then Rcv_done (Err (Other ''isotp: invalid SF length''))
                else Rcv_done (Ok (take len (drop 1 (f_data first))))
           else if pci = 0x10 then
             if length (f_data first) < 2 then Rcv_done (Err (Other ''isotp: FF too short''))
             else Rcv_fc (push_bit 8 (unat (f_data first ! 0 AND 0x0F)) OR unat (f_data first ! 1)) (drop 2 (f_data first)) 1
           else Rcv_done (Err (Other (''isotp: unexpected frame type 0x'' @ pad_left 2 (show_hex (unat pci))))))"

definition rcv_got_cf :: "iso_config \<Rightarrow> nat \<Rightarrow> bytes \<Rightarrow> u8 \<Rightarrow> u8 \<Rightarrow> frame \<Rightarrow> rcv_pc" where
  "rcv_got_cf cfg len buf sn cf_in_block cf =
     (if f_data cf = [] then Rcv_done (Err (Other ''isotp: empty CF''))
      else if f_data cf ! 0 AND 0xF0 \<noteq> TYPE_CF then Rcv_done (Err (Other ''isotp: expected CF''))
      else
        let cf_sn = f_data cf ! 0 AND 0x0F
        in if cf_sn \<noteq> sn AND 0x0F then
             Rcv_done (Err (Other (''isotp: SN mismatch (expected '' @ show_dec (unat (sn AND 0x0F)) @
               '', got '' @ show_dec (unat cf_sn) @ '')'')))
           else
             let sn = sn + 1;
                 remaining = len - length buf;
                 chunk = drop 1 (f_data cf);
                 buf = buf @ take (min (length chunk) remaining) chunk;
                 cf_in_block = cf_in_block + 1
             in if block_size cfg \<noteq> 0 \<and> cf_in_block = block_size cfg \<and> length buf < len then Rcv_fc len buf sn
                else rcv_head len buf sn cf_in_block)"

definition rcv_got :: "iso_config \<Rightarrow> rcv_pc \<Rightarrow> (can_error, frame) result \<Rightarrow> rcv_pc" where
  "rcv_got cfg pc r =
     (case r of
        Err e \<Rightarrow> Rcv_done (Err e)
      | Ok f \<Rightarrow>
          (case pc of
             Rcv_first \<Rightarrow> rcv_got_first f
           | Rcv_cf len buf sn k \<Rightarrow> rcv_got_cf cfg len buf sn k f
           | _ \<Rightarrow> pc))"

definition rcv_task :: "iso_config \<Rightarrow> rcv_pc bus_task" where
  "rcv_task cfg = \<lparr>tk_need = rcv_need cfg, tk_sent = rcv_sent cfg, tk_got = rcv_got cfg, tk_slept = (\<lambda>pc. pc)\<rparr>"

section \<open>The tasks are the operations\<close>

lemmas tx_simps = link_step_def tx_task_def tx_need_def tx_sent_def tx_got_def tx_slept_def Let_def
lemmas rcv_simps = link_step_def rcv_task_def rcv_need_def rcv_sent_def rcv_got_def Let_def

lemma tx_await_ok:
  assumes "next_fc (effective_timeout cfg) l = (Ok fc, l')"
  shows "leads_to (tx_task cfg) (Tx_await sn p, l) (tx_head fc 0 sn p, l')"
  using assms
  by (intro leads_to_next)
    (auto simp: tx_simps next_fc_def wait_fc_def split: prod.splits sum.splits if_splits)

lemma tx_await_err:
  assumes "next_fc (effective_timeout cfg) l = (Err e, l')"
  shows "leads_to (tx_task cfg) (Tx_await sn p, l) (Tx_done (Err e), l')"
  using assms
  by (intro leads_to_next)
    (auto simp: tx_simps next_fc_def wait_fc_def split: prod.splits sum.splits if_splits)

lemma tx_wait_loop:
  assumes "p \<noteq> []"
  shows "case wait_loop (effective_timeout cfg) fc bc l of
      (Err e, l') \<Rightarrow> leads_to (tx_task cfg) (tx_head fc bc sn p, l) (Tx_done (Err e), l')
    | (Ok (fc', bc'), l') \<Rightarrow> leads_to (tx_task cfg) (tx_head fc bc sn p, l) (Tx_cf fc' bc' sn p, l')"
proof (induction "effective_timeout cfg" fc bc l rule: wait_loop.induct)
  case (1 fc bc l)
  show ?case
  proof (cases "fc ! 0 AND 0x0F = FC_WAIT")
    case False
    then show ?thesis using assms by (simp add: wait_loop.simps [of _ fc bc l] tx_head_def)
  next
    case True
    then have head: "tx_head fc bc sn p = Tx_await sn p" using assms by (simp add: tx_head_def)
    show ?thesis
    proof (cases "next_fc (effective_timeout cfg) l")
      case (Pair r l2)
      show ?thesis
      proof (cases r)
        case (Inl e)
        with Pair True tx_await_err [of cfg l e l2 sn p] show ?thesis
          by (simp add: wait_loop.simps [of _ fc bc l] head)
      next
        case (Inr fc2)
        with Pair have n: "next_fc (effective_timeout cfg) l = (Ok fc2, l2)" by simp
        have w: "wait_loop (effective_timeout cfg) fc bc l = wait_loop (effective_timeout cfg) fc2 0 l2"
          using True n by (simp add: wait_loop.simps [of _ fc bc l])
        have here: "leads_to (tx_task cfg) (tx_head fc bc sn p, l) (tx_head fc2 0 sn p, l2)"
          unfolding head using n by (rule tx_await_ok)
        from "1.hyps" [OF True n [symmetric] refl] show ?thesis
          unfolding w by (auto split: prod.splits sum.splits intro: leads_to_trans [OF here])
      qed
    qed
  qed
qed

text \<open>One consecutive frame.\<close>

lemma tx_cf_step:
  "link_step (tx_task cfg) (Tx_cf fc bc sn p, l) =
    (case link_send (make_frame cfg ((TYPE_CF OR (sn AND 0x0F)) # take (min (length p) 7) p)) l of
       (Err e, l) \<Rightarrow> (Tx_done (Err e), l)
     | (Ok _, l) \<Rightarrow>
         if st_min_to_duration (fc ! 2) \<noteq> 0
         then (Tx_pause (st_min_to_duration (fc ! 2)) fc (bc + 1) (sn + 1) (drop (min (length p) 7) p), l)
         else (tx_round_end fc (bc + 1) (sn + 1) (drop (min (length p) 7) p), l))"
  by (simp add: tx_simps split: sum.split prod.split)

lemma tx_cf_ok:
  assumes "link_send (make_frame cfg ((TYPE_CF OR (sn AND 0x0F)) # take (min (length p) 7) p)) l = (Ok u, l')"
  shows "leads_to (tx_task cfg) (Tx_cf fc bc sn p, l)
    (tx_round_end fc (bc + 1) (sn + 1) (drop (min (length p) 7) p), paused fc l')"
proof (cases "st_min_to_duration (fc ! 2) = 0")
  case True
  then show ?thesis using assms by (intro leads_to_next) (simp add: tx_cf_step paused_def)
next
  case False
  let ?pause = "Tx_pause (st_min_to_duration (fc ! 2)) fc (bc + 1) (sn + 1) (drop (min (length p) 7) p)"
  have "leads_to (tx_task cfg) (Tx_cf fc bc sn p, l) (?pause, l')"
    using assms False by (intro leads_to_next) (simp add: tx_cf_step)
  moreover have "leads_to (tx_task cfg) (?pause, l')
      (tx_round_end fc (bc + 1) (sn + 1) (drop (min (length p) 7) p), paused fc l')"
    using False by (intro leads_to_next) (simp add: tx_simps paused_def)
  ultimately show ?thesis by (rule leads_to_trans)
qed

text \<open>What the loop of the sender does from a wait for flow control; from the end of a round it is \<open>cf_next\<close>.\<close>

definition tx_awaited :: "iso_config \<Rightarrow> u8 \<Rightarrow> bytes \<Rightarrow> link \<Rightarrow> (can_error, unit) result \<times> link" where
  "tx_awaited cfg sn q l =
     (case next_fc (effective_timeout cfg) l of
        (Err e, l) \<Rightarrow> (Err e, l)
      | (Ok fc, l) \<Rightarrow> cf_loop cfg fc sn 0 q l)"

lemma cf_loop_general:
  assumes "p \<noteq> []"
  shows "cf_loop cfg fc sn bc p l =
    (case wait_loop (effective_timeout cfg) fc bc l of
       (Err e, l) \<Rightarrow> (Err e, l)
     | (Ok (fc, bc), l) \<Rightarrow>
         (case link_send (make_frame cfg ((TYPE_CF OR (sn AND 0x0F)) # take (min (length p) 7) p)) l of
            (Err e, l) \<Rightarrow> (Err e, l)
          | (Ok _, l) \<Rightarrow> cf_next cfg fc (sn + 1) (bc + 1) (drop (min (length p) 7) p) (paused fc l)))"
  using assms
  by (subst cf_loop.simps)
    (simp only: Let_def paused_def cf_next_def if_False cong: sum.case_cong prod.case_cong if_cong)

text \<open>Both are what the task does, given that it does so from the head of the loop.\<close>

abbreviation tx_ends :: "iso_config \<Rightarrow> tx_pc \<Rightarrow> link \<Rightarrow> (can_error, unit) result \<times> link \<Rightarrow> bool" where
  "tx_ends cfg pc l y \<equiv> leads_to (tx_task cfg) (pc, l) (Tx_done (fst y), snd y)"

lemma tx_await_task:
  assumes loop: "\<And>fc l. tx_ends cfg (tx_head fc 0 sn q) l (cf_loop cfg fc sn 0 q l)"
  shows "tx_ends cfg (Tx_await sn q) l (tx_awaited cfg sn q l)"
proof -
  obtain n l' where n: "next_fc (effective_timeout cfg) l = (n, l')" by fastforce
  show ?thesis
  proof (cases n)
    case (Inl e)
    with n tx_await_err [of cfg l e l' sn q] show ?thesis by (simp add: tx_awaited_def)
  next
    case (Inr fc)
    with n leads_to_trans [OF tx_await_ok loop] show ?thesis by (simp add: tx_awaited_def)
  qed
qed

lemma tx_round_end_task:
  assumes loop: "\<And>fc bc l. tx_ends cfg (tx_head fc bc sn q) l (cf_loop cfg fc sn bc q l)"
  shows "tx_ends cfg (tx_round_end fc bc sn q) l (cf_next cfg fc sn bc q l)"
proof (cases "fc ! 1 > 0 \<and> bc \<ge> ucast (fc ! 1) \<and> q \<noteq> []")
  case True
  then have "tx_round_end fc bc sn q = Tx_await sn q" "cf_next cfg fc sn bc q l = tx_awaited cfg sn q l"
    unfolding tx_round_end_def cf_next_def tx_awaited_def Let_def by (simp_all only: if_True simp_thms)
  then show ?thesis using tx_await_task [OF loop] by simp
next
  case False
  then have "tx_round_end fc bc sn q = tx_head fc bc sn q" "cf_next cfg fc sn bc q l = cf_loop cfg fc sn bc q l"
    unfolding tx_round_end_def cf_next_def tx_awaited_def Let_def by (simp_all only: if_False simp_thms)
  then show ?thesis using loop by simp
qed

lemma tx_cf_loop: "tx_ends cfg (tx_head fc bc sn p) l (cf_loop cfg fc sn bc p l)"
proof (induction "length p" arbitrary: fc bc sn p l rule: less_induct)
  case less
  show ?case
  proof (cases "p = []")
    case True
    then show ?thesis by (simp add: tx_head_def cf_loop.simps)
  next
    case False
    let ?f = "make_frame cfg ((TYPE_CF OR (sn AND 0x0F)) # take (min (length p) 7) p)"
      and ?q = "drop (min (length p) 7) p"
    note wait = tx_wait_loop [OF False, where cfg = cfg and fc = fc and bc = bc and l = l and sn = sn]
    obtain r l1 where w: "wait_loop (effective_timeout cfg) fc bc l = (r, l1)" by fastforce
    show ?thesis
    proof (cases r)
      case (Inl e)
      with w wait show ?thesis by (simp add: cf_loop_general [OF False])
    next
      case (Inr x)
      obtain fc1 bc1 where x: "x = (fc1, bc1)" by fastforce
      with w Inr wait have cf: "leads_to (tx_task cfg) (tx_head fc bc sn p, l) (Tx_cf fc1 bc1 sn p, l1)" by simp
      obtain s l2 where s: "link_send ?f l1 = (s, l2)" by fastforce
      have "tx_ends cfg (Tx_cf fc1 bc1 sn p) l1 (cf_loop cfg fc sn bc p l)"
      proof (cases s)
        case (Inl e)
        with w \<open>r = Inr x\<close> x s show ?thesis
          by (intro leads_to_next) (simp add: tx_cf_step cf_loop_general [OF False])
      next
        case (Inr u)
        have "length ?q < length p" using False by simp
        with leads_to_trans [OF tx_cf_ok tx_round_end_task [OF less]] w \<open>r = Inr x\<close> x s Inr
        show ?thesis by (simp add: cf_loop_general [OF False])
      qed
      from leads_to_trans [OF cf this] show ?thesis .
    qed
  qed
qed

text \<open>\<open>iso_send\<close> and its task.\<close>

lemma tx_task_done: "link_step (tx_task cfg) (Tx_done r, l) = (Tx_done r, l)"
  by (simp add: tx_simps)

lemma tx_refines_send:
  "leads_to (tx_task cfg) (tx_start p, l) (Tx_done (fst (iso_send cfg p l)), snd (iso_send cfg p l))"
proof -
  consider "p = [] \<or> length p > 4095" | "p \<noteq> []" "length p \<le> 7" | "7 < length p" "length p \<le> 4095" by linarith
  then show ?thesis
  proof cases
    case 1
    then show ?thesis by (auto simp: iso_send_def tx_start_def)
  next
    case 2
    then show ?thesis
      by (intro leads_to_next)
        (auto simp: iso_send_def tx_start_def send_single_frame_def tx_simps split: sum.split prod.split)
  next
    case 3
    let ?ff = "make_frame cfg ((TYPE_FF OR of_nat (drop_bit 8 (length p) AND 0x0F)) # of_nat (length p AND 0xFF) #
      take (min (length p) 6) p)" and ?q = "drop (min (length p) 6) p"
    have p: "p \<noteq> []" "\<not> length p > 4095" "\<not> length p \<le> 7" using 3 by auto
    obtain s l1 where s: "link_send ?ff l = (s, l1)" by fastforce
    have send: "iso_send cfg p l = (case s of Err e \<Rightarrow> (Err e, l1) | Ok _ \<Rightarrow> tx_awaited cfg 1 ?q l1)"
      using p s by (simp add: iso_send_def send_multi_frame_def tx_awaited_def Let_def split: sum.split)
    have first: "leads_to (tx_task cfg) (tx_start p, l)
        (case s of Err e \<Rightarrow> (Tx_done (Err e), l1) | Ok _ \<Rightarrow> (Tx_await 1 ?q, l1))"
      using p s by (intro leads_to_next) (simp add: tx_start_def tx_simps split: sum.split)
    show ?thesis
    proof (cases s)
      case (Inl e)
      with first send show ?thesis by simp
    next
      case (Inr u)
      with first have "leads_to (tx_task cfg) (tx_start p, l) (Tx_await 1 ?q, l1)" by simp
      from leads_to_trans [OF this tx_await_task [OF tx_cf_loop]] Inr send show ?thesis by simp
    qed
  qed
qed

text \<open>The same for the receiver.\<close>

lemma rcv_cf_step:
  "link_step (rcv_task cfg) (Rcv_cf len buf sn k, l) =
    (case link_recv (effective_timeout cfg) l of
       (Err e, l) \<Rightarrow> (Rcv_done (Err e), l)
     | (Ok f, l) \<Rightarrow> (rcv_got_cf cfg len buf sn k f, l))"
  by (simp add: rcv_simps split: sum.split prod.split)

lemma rcv_fc_step:
  "link_step (rcv_task cfg) (Rcv_fc len buf sn, l) =
    (case link_send (fc_frame cfg) l of
       (Err e, l) \<Rightarrow> (Rcv_done (Err e), l)
     | (Ok _, l) \<Rightarrow> (rcv_head len buf sn 0, l))"
  by (simp add: rcv_simps fc_frame_def split: sum.split prod.split)

text \<open>What the loop does next, from where a task of it stands.\<close>

definition rcv_rest :: "iso_config \<Rightarrow> rcv_pc \<Rightarrow> link \<Rightarrow> (can_error, bytes) result \<times> link" where
  "rcv_rest cfg pc l =
     (case pc of
        Rcv_first \<Rightarrow> iso_recv cfg l
      | Rcv_fc len buf sn \<Rightarrow>
          (case link_send (fc_frame cfg) l of
             (Err e, l) \<Rightarrow> (Err e, l)
           | (Ok _, l) \<Rightarrow> recv_loop cfg len buf sn 0 l)
      | Rcv_cf len buf sn k \<Rightarrow> recv_loop cfg len buf sn k l
      | Rcv_done r \<Rightarrow> (r, l))"

lemma rcv_rest_head: "rcv_rest cfg (rcv_head len buf sn k) l = recv_loop cfg len buf sn k l"
  by (simp add: rcv_rest_def rcv_head_def recv_loop.simps [of cfg len buf sn k l])

lemma rcv_rest_got_cf:
  assumes "length buf < len"
  shows "recv_loop cfg len buf sn k l =
    (case link_recv (effective_timeout cfg) l of
       (Err e, l) \<Rightarrow> (Err e, l)
     | (Ok f, l) \<Rightarrow> rcv_rest cfg (rcv_got_cf cfg len buf sn k f) l)"
proof (cases "link_recv (effective_timeout cfg) l")
  case (Pair r l')
  show ?thesis
  proof (cases r)
    case (Inl e)
    with Pair assms show ?thesis by (subst recv_loop.simps) simp
  next
    case (Inr f)
    with Pair assms show ?thesis
      by (subst recv_loop.simps)
        (simp add: rcv_got_cf_def rcv_rest_head Let_def, simp add: rcv_rest_def split: prod.split sum.split)
  qed
qed

abbreviation rcv_ends :: "iso_config \<Rightarrow> rcv_pc \<Rightarrow> link \<Rightarrow> (can_error, bytes) result \<times> link \<Rightarrow> bool" where
  "rcv_ends cfg pc l y \<equiv> leads_to (rcv_task cfg) (pc, l) (Rcv_done (fst y), snd y)"

lemma rcv_fc_task:
  assumes head: "\<And>l'. lk_inbox l' = lk_inbox l \<Longrightarrow> rcv_ends cfg (rcv_head len buf sn 0) l' (recv_loop cfg len buf sn 0 l')"
  shows "rcv_ends cfg (Rcv_fc len buf sn) l (rcv_rest cfg (Rcv_fc len buf sn) l)"
proof -
  obtain s l' where s: "link_send (fc_frame cfg) l = (s, l')" by fastforce
  show ?thesis
  proof (cases s)
    case (Inl e)
    with s show ?thesis by (intro leads_to_next) (simp add: rcv_fc_step rcv_rest_def)
  next
    case (Inr u)
    have "leads_to (rcv_task cfg) (Rcv_fc len buf sn, l) (rcv_head len buf sn 0, l')"
      using s Inr by (intro leads_to_next) (simp add: rcv_fc_step)
    moreover have "lk_inbox l' = lk_inbox l" using link_send_inbox [of "fc_frame cfg" l] s by simp
    ultimately show ?thesis using leads_to_trans [OF _ head] s Inr by (simp add: rcv_rest_def)
  qed
qed

lemma rcv_got_cf_cases:
  obtains e where "rcv_got_cf cfg len buf sn k f = Rcv_done e"
    | buf' where "rcv_got_cf cfg len buf sn k f = Rcv_fc len buf' (sn + 1)"
    | buf' where "rcv_got_cf cfg len buf sn k f = rcv_head len buf' (sn + 1) (k + 1)"
proof -
  have "(\<exists>e. rcv_got_cf cfg len buf sn k f = Rcv_done e) \<or>
      (\<exists>buf'. rcv_got_cf cfg len buf sn k f = Rcv_fc len buf' (sn + 1)) \<or>
      (\<exists>buf'. rcv_got_cf cfg len buf sn k f = rcv_head len buf' (sn + 1) (k + 1))"
    unfolding rcv_got_cf_def Let_def by (simp; metis)
  then show thesis using that by blast
qed

lemma rcv_head_task: "rcv_ends cfg (rcv_head len buf sn k) l (recv_loop cfg len buf sn k l)"
proof (induction "length (lk_inbox l)" arbitrary: buf sn k l rule: less_induct)
  case less
  show ?case
  proof (cases "length buf < len")
    case False
    then show ?thesis by (simp add: rcv_head_def recv_loop.simps)
  next
    case True
    then have pc: "rcv_head len buf sn k = Rcv_cf len buf sn k" by (simp add: rcv_head_def)
    obtain r l1 where r: "link_recv (effective_timeout cfg) l = (r, l1)" by fastforce
    show ?thesis
    proof (cases r)
      case (Inl e)
      with r show ?thesis by (intro leads_to_next) (simp add: pc rcv_cf_step rcv_rest_got_cf [OF True])
    next
      case (Inr f)
      let ?pc = "rcv_got_cf cfg len buf sn k f"
      have here: "leads_to (rcv_task cfg) (rcv_head len buf sn k, l) (?pc, l1)"
        using r Inr by (intro leads_to_next) (simp add: pc rcv_cf_step)
      have rest: "recv_loop cfg len buf sn k l = rcv_rest cfg ?pc l1" using r Inr by (simp add: rcv_rest_got_cf [OF True])
      have head: "rcv_ends cfg (rcv_head len buf' sn' k') l' (recv_loop cfg len buf' sn' k' l')"
        if "lk_inbox l' = lk_inbox l1" for buf' sn' k' l'
        using less [of l'] link_recv_shrinks [of _ l f l1] r Inr that by simp
      have "rcv_ends cfg ?pc l1 (rcv_rest cfg ?pc l1)"
      proof (cases rule: rcv_got_cf_cases [of cfg len buf sn k f])
        case 1
        then show ?thesis by (simp add: rcv_rest_def)
      next
        case 2
        then show ?thesis using rcv_fc_task [OF head] by simp
      next
        case 3
        then show ?thesis using head [OF refl] by (simp add: rcv_rest_head)
      qed
      from leads_to_trans [OF here this] show ?thesis unfolding rest .
    qed
  qed
qed

lemma iso_recv_rest:
  "iso_recv cfg l =
    (case link_recv (effective_timeout cfg) l of
       (Err e, l) \<Rightarrow> (Err e, l)
     | (Ok f, l) \<Rightarrow> rcv_rest cfg (rcv_got_first f) l)"
  by (simp add: iso_recv_def rcv_got_first_def rcv_rest_def Let_def split: prod.split sum.split)

lemma rcv_refines_recv:
  "leads_to (rcv_task cfg) (Rcv_first, l) (Rcv_done (fst (iso_recv cfg l)), snd (iso_recv cfg l))"
proof -
  obtain r l1 where r: "link_recv (effective_timeout cfg) l = (r, l1)" by fastforce
  show ?thesis
  proof (cases r)
    case (Inl e)
    with r show ?thesis by (intro leads_to_next) (simp add: rcv_simps iso_recv_rest)
  next
    case (Inr f)
    have here: "leads_to (rcv_task cfg) (Rcv_first, l) (rcv_got_first f, l1)"
      using r Inr by (intro leads_to_next) (simp add: rcv_simps)
    have rest: "iso_recv cfg l = rcv_rest cfg (rcv_got_first f) l1" using r Inr by (simp add: iso_recv_rest)
    have "(\<exists>e. rcv_got_first f = Rcv_done e) \<or> (\<exists>len buf. rcv_got_first f = Rcv_fc len buf 1)"
      by (simp add: rcv_got_first_def Let_def)
    then have "rcv_ends cfg (rcv_got_first f) l1 (rcv_rest cfg (rcv_got_first f) l1)"
      using rcv_fc_task [OF rcv_head_task] by (auto simp: rcv_rest_def [of cfg "Rcv_done r" for r])
    from leads_to_trans [OF here this] show ?thesis unfolding rest .
  qed
qed

text \<open>
  C5: The tasks are the operations: run without interruption against any link, the sending task that \<^verbatim>\<open>send\<close> starts comes to its
  end with the result and the link that \<open>iso_send\<close> returns, and the receiving task with those of \<open>iso_recv\<close>, for every
  payload, every configuration and every behaviour of the peer.
\<close>

theorem isotp_tasks_refine:
  "leads_to (tx_task cfg) (tx_start p, l) (Tx_done (fst (iso_send cfg p l)), snd (iso_send cfg p l)) \<and>
   leads_to (rcv_task cfg) (Rcv_first, l) (Rcv_done (fst (iso_recv cfg l)), snd (iso_recv cfg l))"
  by (intro conjI tx_refines_send rcv_refines_recv)

end
