(* ===== verification/Can_Virtual_Port.thy ===== *)
theory Can_Virtual_Port
  imports Can_Virtual
begin

text \<open>
  What a protocol on the in-process bus (\<^verbatim>\<open>src/virtual_bus/mod.rs\<close>) relies on: a subscription is a queue of
  frames that takes what its filters let through, and every operation of the bus and of its receivers
  changes that queue in the obvious way. \<open>vb_port b h acc pol cap q\<close>: on the open bus \<open>b\<close> the open subscription \<open>h\<close>, which
  wants the valid frames of \<open>acc\<close>, holds the frames \<open>q\<close>.
\<close>

definition vb_port ::
    "virtual_bus \<Rightarrow> nat \<Rightarrow> (frame \<Rightarrow> bool) \<Rightarrow> back_pressure \<Rightarrow> nat \<Rightarrow> frame list \<Rightarrow> bool" where
  "vb_port b h acc pol cap q \<longleftrightarrow>
     vb_inv b \<and> \<not> vb_closed b \<and> h < length (vb_store b) \<and> vb_accepts b h = (\<lambda>f. wf_frame f \<and> acc f) \<and>
     si_queue (vb_store b ! h) = q \<and> si_capacity (vb_store b ! h) = cap \<and> si_policy (vb_store b ! h) = pol \<and>
     unlimited (vb_store b ! h) \<and> \<not> si_closed (vb_store b ! h)"

definition wants :: "can_filter list \<Rightarrow> frame \<Rightarrow> bool" where
  "wants filters f \<longleftrightarrow> filters = [] \<or> list_ex (\<lambda>flt. filter_matches flt f) filters"

text \<open>What a port holds after an arrival.\<close>

definition arrived :: "(frame \<Rightarrow> bool) \<Rightarrow> back_pressure \<Rightarrow> nat \<Rightarrow> frame \<Rightarrow> frame list \<Rightarrow> frame list" where
  "arrived acc pol cap f q = (if wf_frame f \<and> acc f then enqueue_spec pol cap q f else q)"

lemma arrived_room: "wf_frame f \<Longrightarrow> acc f \<Longrightarrow> length q < cap \<Longrightarrow> arrived acc pol cap f q = q @ [f]"
  by (simp add: arrived_def enqueue_spec_def split: back_pressure.split)

lemma arrived_unwanted: "\<not> acc f \<Longrightarrow> arrived acc pol cap f q = q"
  by (simp add: arrived_def)

lemma port_subscribed:
  assumes "\<not> vb_closed b" "vb_inv b" "rate_limit_per_sec opts = 0"
  shows "fst (vb_subscribe now filters opts b) = Ok (length (vb_store b))"
    and "vb_port (snd (vb_subscribe now filters opts b)) (length (vb_store b)) (wants filters)
      (back_pressure opts) (chan_depth opts 64) []"
proof -
  show "fst (vb_subscribe now filters opts b) = Ok (length (vb_store b))"
    using vbus.subscribe_open [OF assms(1)] by blast
  have "vb_closed (snd (vb_subscribe now filters opts b)) = vb_closed b"
    using assms(1) by (simp add: vb_subscribe_def Let_def)
  with subscribed_queue [OF assms(1,2) refl refl, of now filters opts] assms
  show "vb_port (snd (vb_subscribe now filters opts b)) (length (vb_store b)) (wants filters)
      (back_pressure opts) (chan_depth opts 64) []"
    by (simp add: vb_port_def wants_def sub_new_def unlimited_def chan_depth_pos)
qed

lemma port_other_subscribes:
  assumes "vb_port b h acc pol cap q"
  shows "vb_port (snd (vb_subscribe now filters opts b)) h acc pol cap q"
proof -
  have "vb_accepts (snd (vb_subscribe now filters opts b)) h = vb_accepts b h"
    using assms by (auto simp: vb_port_def fun_eq_iff vb_accepts_def send_ok_def vb_subscribe_def Let_def targets_def)
  with assms show ?thesis
    using vb_subscribe_inv [of b now filters opts] by (simp add: vb_port_def vb_subscribe_def Let_def nth_append)
qed

lemma port_send:
  assumes "vb_port b h acc pol cap q"
  shows "vb_port (snd (vb_send clk f b)) h acc pol cap (arrived acc pol cap f q)"
proof -
  let ?s = "vb_store b ! h"
  have st: "vb_store (snd (vb_send clk f b)) ! h = queue_step (vb_accepts b h) h (Arrive clk f) ?s"
    "vb_accepts (snd (vb_send clk f b)) h = vb_accepts b h"
    "length (vb_store (snd (vb_send clk f b))) = length (vb_store b)" "vb_inv (snd (vb_send clk f b))"
    using assms by (auto simp: vb_port_def vports.deliver_store vports.deliver_accepts vb_send_length vb_send_inv)
  show ?thesis
    using assms st sub_push_unlimited [of ?s "clk h" f] by (simp add: vb_port_def arrived_def)
qed

lemma port_send_ok:
  assumes "vb_port b h acc pol cap q" "wf_frame f"
  shows "fst (vb_send clk f b) = Ok ()"
  using assms by (intro vb_send_accepted(1)) (simp add: send_ok_def vb_port_def)

text \<open>What the receiver of the port gets.\<close>

lemma port_poll:
  assumes "vb_port b h acc pol cap q"
  shows "fst (recv_poll (vb_store b ! h)) = (case q of [] \<Rightarrow> Pending | f # fs \<Rightarrow> Ready (Some f))"
  using assms by (auto simp: vb_port_def recv_poll_eq split: list.split)

lemma port_recv:
  assumes "vb_port b h acc pol cap q"
  shows "vb_port (vb_update h (\<lambda>s. snd (recv_poll s)) b) h acc pol cap (tl q)"
proof -
  have "vb_inv (vb_update h (\<lambda>s. snd (recv_poll s)) b)"
    using assms by (intro vb_update_inv) (auto simp: vb_port_def)
  then show ?thesis
    using assms vports.update_accepts [of h "\<lambda>s. snd (recv_poll s)" b]
    by (cases q) (auto simp: vb_port_def vb_update_def recv_poll_eq unlimited_def)
qed

text \<open>Other receivers do not touch it.\<close>

lemma port_other_update:
  assumes "vb_port b h acc pol cap q" "k \<noteq> h" "vb_inv (vb_update k g b)"
  shows "vb_port (vb_update k g b) h acc pol cap q"
  using assms vports.update_accepts [of k g b] by (auto simp: vb_port_def vb_update_def)

lemma port_other_recv:
  assumes "vb_port b h acc pol cap q" "k \<noteq> h"
  shows "vb_port (vb_update k (\<lambda>s. snd (recv_poll s)) b) h acc pol cap q"
  using assms
  by (intro port_other_update vb_update_inv) (auto simp: vb_port_def recv_poll_eq split: list.splits)

lemma port_other_close:
  assumes "vb_port b h acc pol cap q" "k \<noteq> h"
  shows "vb_port (vb_update k receiver_close b) h acc pol cap q"
  using assms by (intro port_other_update vb_update_inv) (auto simp: vb_port_def receiver_close_def)

text \<open>A bus that has been in use, and is open.\<close>

definition used_bus :: "bus_op list \<Rightarrow> virtual_bus" where
  "used_bus cs = snd (bus_run vb_send vb_subscribe vb_close cs vb_new)"

lemma used_bus_open: "OpClose \<notin> set cs \<Longrightarrow> \<not> vb_closed (used_bus cs) \<and> vb_inv (used_bus cs)"
  using vbus.run_closed_iff [of cs vb_new] vbus.run_inv [OF vb_inv_new, of cs]
  by (simp add: used_bus_def vb_new_def)

text \<open>Sending several frames.\<close>

fun send_all :: "(clock \<times> frame) list \<Rightarrow> virtual_bus \<Rightarrow> virtual_bus" where
  "send_all [] b = b"
| "send_all ((clk, f) # fs) b = send_all fs (snd (vb_send clk f b))"

lemma port_send_all:
  "vb_port b h acc DropNewest cap q \<Longrightarrow> length q \<le> cap \<Longrightarrow>
   vb_port (send_all fs b) h acc DropNewest cap (take cap (q @ filter (\<lambda>f. wf_frame f \<and> acc f) (map snd fs)))"
proof (induction fs arbitrary: b q)
  case Nil
  then show ?case by simp
next
  case (Cons p fs)
  obtain clk f where p: "p = (clk, f)" by (cases p)
  let ?q = "arrived acc DropNewest cap f q"
  have q: "length ?q \<le> cap"
    using Cons.prems(2) by (auto simp: arrived_def enqueue_spec_def)
  have "take cap (?q @ gs) = take cap (if wf_frame f \<and> acc f then q @ f # gs else q @ gs)" for gs
    using Cons.prems(2) by (auto simp: arrived_def enqueue_spec_def take_Cons')
  from this [of "filter (\<lambda>f. wf_frame f \<and> acc f) (map snd fs)"] Cons.IH [OF port_send [OF Cons.prems(1), of clk f] q]
  show ?case unfolding p
    by (cases "wf_frame f"; cases "acc f") (simp_all del: take_append)
qed

end
