(* ===== verification/Can_Isotp_Net.thy ===== *)
theory Can_Isotp_Net
  imports Can_Isotp_Steps Can_Virtual_Port
begin

text \<open>
  Two ISO-TP connections (\<^verbatim>\<open>src/isotp/mod.rs\<close>) on one in-process bus (\<^verbatim>\<open>src/virtual_bus/mod.rs\<close>): the task that
  sends a payload, the task that receives it and the other users of the bus take turns in any order.
  The frames the two exchange go through the real subscriptions, with their filters and their capacity.
\<close>

section \<open>The system\<close>

record iso_net =
  nt_bus :: virtual_bus
  nt_tx :: tx_pc
  nt_rx :: rcv_pc

text \<open>A turn of a task, the end of a task's patience, or what the rest of the program does to the bus.\<close>

datatype net_label = Tx_runs clock | Rx_runs clock | Tx_times_out | Rx_times_out | Others endpoint_event

text \<open>The connections are \<open>cs\<close>, which sends, and \<open>cr\<close>, which receives.\<close>

fun net_step :: "iso_conn \<Rightarrow> iso_conn \<Rightarrow> net_label \<Rightarrow> iso_net \<Rightarrow> iso_net option" where
  "net_step cs cr (Tx_runs clk) s =
     map_option (\<lambda>(pc, b). s\<lparr>nt_tx := pc, nt_bus := b\<rparr>) (task_step (tx_task (ic_cfg cs)) (ic_rx cs) clk (nt_tx s) (nt_bus s))"
| "net_step cs cr (Rx_runs clk) s =
     map_option (\<lambda>(pc, b). s\<lparr>nt_rx := pc, nt_bus := b\<rparr>) (task_step (rcv_task (ic_cfg cr)) (ic_rx cr) clk (nt_rx s) (nt_bus s))"
| "net_step cs cr Tx_times_out s =
     map_option (\<lambda>pc. s\<lparr>nt_tx := pc\<rparr>) (task_timeout (tx_task (ic_cfg cs)) (ic_rx cs) (nt_tx s) (nt_bus s))"
| "net_step cs cr Rx_times_out s =
     map_option (\<lambda>pc. s\<lparr>nt_rx := pc\<rparr>) (task_timeout (rcv_task (ic_cfg cr)) (ic_rx cr) (nt_rx s) (nt_bus s))"
| "net_step cs cr (Others e) s =
     Some (s\<lparr>nt_bus := endpoint_step (\<lambda>clk f b. snd (vb_send clk f b)) vb_update e (nt_bus s)\<rparr>)"

fun net_run :: "iso_conn \<Rightarrow> iso_conn \<Rightarrow> net_label list \<Rightarrow> iso_net \<Rightarrow> iso_net option" where
  "net_run cs cr [] s = Some s"
| "net_run cs cr (l # ls) s = (case net_step cs cr l s of None \<Rightarrow> None | Some s \<Rightarrow> net_run cs cr ls s)"

definition net_start :: "virtual_bus \<Rightarrow> bytes \<Rightarrow> iso_net" where
  "net_start b p = \<lparr>nt_bus = b, nt_tx = tx_start p, nt_rx = Rcv_first\<rparr>"

section \<open>The two ports\<close>

definition iso_filter :: "iso_config \<Rightarrow> can_filter" where
  "iso_filter cfg = \<lparr>flt_id = rx_id cfg, flt_mask = if ext_ids cfg then 0x1FFFFFFF else 0x7FF\<rparr>"

definition valid_id :: "bool \<Rightarrow> u32 \<Rightarrow> bool" where
  "valid_id ext i \<longleftrightarrow> unat i < (if ext then 2 ^ 29 else 2 ^ 11)"

text \<open>The configurations of the two ends of one conversation.\<close>

definition mirrored :: "iso_config \<Rightarrow> iso_config \<Rightarrow> bool" where
  "mirrored sc rc \<longleftrightarrow> tx_id rc = rx_id sc \<and> rx_id rc = tx_id sc \<and> ext_ids rc = ext_ids sc \<and> tx_id sc \<noteq> rx_id sc \<and>
     valid_id (ext_ids sc) (tx_id sc) \<and> valid_id (ext_ids sc) (rx_id sc)"

lemma mirrored_sym: "mirrored sc rc \<Longrightarrow> mirrored rc sc"
  by (auto simp: mirrored_def)

lemma and_id_mask: "valid_id ext i \<Longrightarrow> i AND (if ext then 0x1FFFFFFF else 0x7FF) = i"
proof -
  assume v: "valid_id ext i"
  have m: "(if ext then 0x1FFFFFFF else 0x7FF :: u32) = mask (if ext then 29 else 11)"
    by (simp add: mask_eq_exp_minus_1)
  have "unat i < 2 ^ (if ext then 29 else 11)" using v by (simp add: valid_id_def split: if_splits)
  then have "take_bit (if ext then 29 else 11) (unat i) = unat i" by (simp only: take_bit_nat_eq_self_iff)
  then have "take_bit (if ext then 29 else 11) i = i" by (simp add: word_unat_eq_iff unsigned_take_bit_eq)
  then show ?thesis unfolding m by (simp only: take_bit_eq_mask)
qed

lemma wf_make_frame:
  assumes "valid_id (ext_ids cfg) (tx_id cfg)" "length d \<le> 8"
  shows "wf_frame (make_frame cfg d)"
  using assms
  by (auto simp: make_frame_def valid_id_def wf_frame_def wf_classic_def wf_fd_def wf_xl_def wf_id_def default_frame_def)

lemma wants_peer:
  assumes "mirrored sc rc"
  shows "wants [iso_filter rc] (make_frame sc d)" "\<not> wants [iso_filter sc] (make_frame sc d)"
proof -
  have e: "wants [iso_filter cfg] (make_frame sc d) \<longleftrightarrow>
      tx_id sc AND (if ext_ids cfg then 0x1FFFFFFF else 0x7FF) = rx_id cfg AND (if ext_ids cfg then 0x1FFFFFFF else 0x7FF)" for cfg
    by (simp add: wants_def iso_filter_def filter_matches_def make_frame_def)
  show "wants [iso_filter rc] (make_frame sc d)" using assms unfolding e by (simp add: mirrored_def)
  show "\<not> wants [iso_filter sc] (make_frame sc d)"
    using assms unfolding e mirrored_def by (simp only: and_id_mask) simp
qed

text \<open>The queues of the two connections: flow control frames for the sender, data frames for the receiver.\<close>

definition iso_ports :: "iso_conn \<Rightarrow> iso_conn \<Rightarrow> virtual_bus \<Rightarrow> frame list \<Rightarrow> frame list \<Rightarrow> bool" where
  "iso_ports cs cr b qs qr \<longleftrightarrow> ic_rx cs \<noteq> ic_rx cr \<and> mirrored (ic_cfg cs) (ic_cfg cr) \<and>
     vb_port b (ic_rx cs) (wants [iso_filter (ic_cfg cs)]) DropNewest 64 qs \<and>
     vb_port b (ic_rx cr) (wants [iso_filter (ic_cfg cr)]) DropNewest 64 qr"

lemma iso_ports_sym: "iso_ports cs cr b qs qr \<Longrightarrow> iso_ports cr cs b qr qs"
  by (auto simp: iso_ports_def mirrored_sym)

text \<open>Two connections opened on a bus in use.\<close>

lemma iso_new_open:
  assumes "\<not> vb_closed b" "vb_inv b" "tx_id cfg \<noteq> rx_id cfg"
  shows "\<exists>b'. iso_new (vb_subscribe now) cfg b = (Ok \<lparr>ic_cfg = cfg, ic_rx = length (vb_store b)\<rparr>, b') \<and>
    b' = snd (vb_subscribe now [iso_filter cfg] default_options b) \<and>
    vb_port b' (length (vb_store b)) (wants [iso_filter cfg]) DropNewest 64 []"
proof -
  have "rate_limit_per_sec default_options = 0" "chan_depth default_options 64 = 64" "back_pressure default_options = DropNewest"
    by (simp_all add: default_options_def chan_depth_def)
  note port = port_subscribed [OF assms(1,2) this(1), of now "[iso_filter cfg]", unfolded this(2,3)]
  then obtain b' where b': "vb_subscribe now [iso_filter cfg] default_options b = (Ok (length (vb_store b)), b')"
    by (metis prod.collapse)
  with port(2) assms(3) show ?thesis
    by (simp add: iso_new_def iso_filter_def [symmetric])
qed

lemma iso_ports_start:
  assumes "OpClose \<notin> set ops" "mirrored sc rc"
  shows "\<exists>cs b1 cr b2. iso_new (vb_subscribe t1) sc (used_bus ops) = (Ok cs, b1) \<and>
    iso_new (vb_subscribe t2) rc b1 = (Ok cr, b2) \<and> ic_cfg cs = sc \<and> ic_cfg cr = rc \<and> iso_ports cs cr b2 [] []"
proof -
  let ?b = "used_bus ops"
  have b: "\<not> vb_closed ?b" "vb_inv ?b" using used_bus_open [OF assms(1)] by simp_all
  have ids: "tx_id sc \<noteq> rx_id sc" "tx_id rc \<noteq> rx_id rc" using assms(2) by (auto simp: mirrored_def)
  from iso_new_open [OF b ids(1), of t1] obtain b1 where
    b1: "iso_new (vb_subscribe t1) sc ?b = (Ok \<lparr>ic_cfg = sc, ic_rx = length (vb_store ?b)\<rparr>, b1)"
      "vb_port b1 (length (vb_store ?b)) (wants [iso_filter sc]) DropNewest 64 []" by blast
  then have o1: "\<not> vb_closed b1" "vb_inv b1" "length (vb_store ?b) < length (vb_store b1)" by (simp_all add: vb_port_def)
  from iso_new_open [OF o1(1,2) ids(2), of t2] obtain b2 where
    b2: "iso_new (vb_subscribe t2) rc b1 = (Ok \<lparr>ic_cfg = rc, ic_rx = length (vb_store b1)\<rparr>, b2)"
      "b2 = snd (vb_subscribe t2 [iso_filter rc] default_options b1)"
      "vb_port b2 (length (vb_store b1)) (wants [iso_filter rc]) DropNewest 64 []" by blast
  have "vb_port b2 (length (vb_store ?b)) (wants [iso_filter sc]) DropNewest 64 []"
    using port_other_subscribes [OF b1(2)] b2(2) by simp
  with b1(1) b2(1,3) o1(3) assms(2) show ?thesis
    by (intro exI [of _ "\<lparr>ic_cfg = sc, ic_rx = length (vb_store ?b)\<rparr>"] exI [of _ b1]
        exI [of _ "\<lparr>ic_cfg = rc, ic_rx = length (vb_store b1)\<rparr>"] exI [of _ b2]) (simp add: iso_ports_def)
qed

text \<open>What a step of a task, or somebody else, does to them.\<close>

lemma sender_sends:
  assumes "iso_ports cs cr b qs qr" "length qr < 64" "length d \<le> 8"
    and "tk_need tk pc = Need_send (make_frame (ic_cfg cs) d)"
  shows "\<exists>b'. task_step tk h clk pc b = Some (tk_sent tk pc (Ok ()), b') \<and>
    iso_ports cs cr b' qs (qr @ [make_frame (ic_cfg cs) d])"
proof -
  let ?f = "make_frame (ic_cfg cs) d"
  have m: "mirrored (ic_cfg cs) (ic_cfg cr)"
    and p: "vb_port b (ic_rx cs) (wants [iso_filter (ic_cfg cs)]) DropNewest 64 qs"
      "vb_port b (ic_rx cr) (wants [iso_filter (ic_cfg cr)]) DropNewest 64 qr"
    using assms(1) by (simp_all add: iso_ports_def)
  have wf: "wf_frame ?f" using m assms(3) by (intro wf_make_frame) (simp_all add: mirrored_def)
  obtain b' where b': "vb_send clk ?f b = (Ok (), b')" using port_send_ok [OF p(1) wf] by (metis prod.collapse)
  have "vb_port b' (ic_rx cs) (wants [iso_filter (ic_cfg cs)]) DropNewest 64 qs"
    using port_send [OF p(1), of clk ?f] wants_peer(2) [OF m] b' by (simp add: arrived_unwanted)
  moreover have "vb_port b' (ic_rx cr) (wants [iso_filter (ic_cfg cr)]) DropNewest 64 (qr @ [?f])"
    using port_send [OF p(2), of clk ?f] wants_peer(1) [OF m] wf assms(2) b' by (simp add: arrived_room)
  ultimately show ?thesis using assms(1,4) b'
    by (intro exI [of _ b']) (simp add: task_step_def iso_ports_def)
qed

lemma receiver_sends:
  assumes "iso_ports cs cr b qs qr" "length qs < 64" "length d \<le> 8"
    and "tk_need tk pc = Need_send (make_frame (ic_cfg cr) d)"
  shows "\<exists>b'. task_step tk h clk pc b = Some (tk_sent tk pc (Ok ()), b') \<and>
    iso_ports cs cr b' (qs @ [make_frame (ic_cfg cr) d]) qr"
  using sender_sends [OF iso_ports_sym [OF assms(1)] assms(2-4)] iso_ports_sym by blast

lemma receiver_waits:
  assumes "iso_ports cs cr b qs qr" "tk_need tk pc = Need_recv tmo"
  shows "qr = [] \<Longrightarrow> task_step tk (ic_rx cr) clk pc b = None"
    and "qr = f # fs \<Longrightarrow> \<exists>b'. task_step tk (ic_rx cr) clk pc b = Some (tk_got tk pc (Ok f), b') \<and> iso_ports cs cr b' qs fs"
proof -
  have p: "vb_port b (ic_rx cs) (wants [iso_filter (ic_cfg cs)]) DropNewest 64 qs"
      "vb_port b (ic_rx cr) (wants [iso_filter (ic_cfg cr)]) DropNewest 64 qr" "ic_rx cs \<noteq> ic_rx cr"
    using assms(1) by (simp_all add: iso_ports_def)
  note poll = port_poll [OF p(2)]
  show "qr = [] \<Longrightarrow> task_step tk (ic_rx cr) clk pc b = None"
    using poll assms(2) by (simp add: task_step_def)
  assume q: "qr = f # fs"
  show "\<exists>b'. task_step tk (ic_rx cr) clk pc b = Some (tk_got tk pc (Ok f), b') \<and> iso_ports cs cr b' qs fs"
    using poll assms port_recv [OF p(2)] port_other_recv [OF p(1) p(3) [symmetric]] q
    by (intro exI [of _ "vb_update (ic_rx cr) (\<lambda>s. snd (recv_poll s)) b"])
      (simp add: task_step_def iso_ports_def)
qed

lemma sender_waits:
  assumes "iso_ports cs cr b qs qr" "tk_need tk pc = Need_recv tmo"
  shows "qs = [] \<Longrightarrow> task_step tk (ic_rx cs) clk pc b = None"
    and "qs = f # fs \<Longrightarrow> \<exists>b'. task_step tk (ic_rx cs) clk pc b = Some (tk_got tk pc (Ok f), b') \<and> iso_ports cs cr b' fs qr"
  using receiver_waits [OF iso_ports_sym [OF assms(1)] assms(2)] iso_ports_sym by blast+

text \<open>Traffic of others that neither connection listens to, and other receivers.\<close>

fun unrelated :: "iso_conn \<Rightarrow> iso_conn \<Rightarrow> endpoint_event \<Rightarrow> bool" where
  "unrelated cs cr (Arrive clk f) = (\<not> filter_matches (iso_filter (ic_cfg cs)) f \<and> \<not> filter_matches (iso_filter (ic_cfg cr)) f)"
| "unrelated cs cr (Receive h) = (h \<noteq> ic_rx cs \<and> h \<noteq> ic_rx cr)"
| "unrelated cs cr (Hangup h) = (h \<noteq> ic_rx cs \<and> h \<noteq> ic_rx cr)"

lemma iso_ports_others:
  assumes "iso_ports cs cr b qs qr" "unrelated cs cr e"
  shows "iso_ports cs cr (endpoint_step (\<lambda>clk f b. snd (vb_send clk f b)) vb_update e b) qs qr"
proof -
  have port: "vb_port (endpoint_step (\<lambda>clk f b. snd (vb_send clk f b)) vb_update e b) (ic_rx c)
      (wants [iso_filter (ic_cfg c)]) DropNewest 64 q"
    if "vb_port b (ic_rx c) (wants [iso_filter (ic_cfg c)]) DropNewest 64 q" "c = cs \<or> c = cr" for c q
  proof (cases e)
    case (Arrive clk f)
    then have "\<not> wants [iso_filter (ic_cfg c)] f" using assms(2) that(2) by (auto simp: wants_def)
    then show ?thesis using port_send [OF that(1), of clk f] Arrive by (simp add: arrived_unwanted)
  next
    case (Receive h)
    then show ?thesis using port_other_recv [OF that(1), of h] assms(2) that(2) by auto
  next
    case (Hangup h)
    then show ?thesis using port_other_close [OF that(1), of h] assms(2) that(2) by auto
  qed
  with assms(1) show ?thesis by (simp add: iso_ports_def)
qed

section \<open>The two tasks in the middle of a transfer\<close>

text \<open>
  The consecutive frames of a payload, counted from 0, how many there are, and the counts at which the
  sender waits for a flow control frame.
\<close>

definition cf_bytes :: "bytes \<Rightarrow> nat \<Rightarrow> bytes" where
  "cf_bytes p k = of_nat (0x20 + Suc k mod 16) # take 7 (drop (6 + 7 * k) p)"

definition cf_total :: "bytes \<Rightarrow> nat" where
  "cf_total p = length p div 7"

definition boundary :: "u8 \<Rightarrow> nat \<Rightarrow> bool" where
  "boundary bs k \<longleftrightarrow> k = 0 \<or> bs \<noteq> 0 \<and> k mod unat bs = 0"

text \<open>The sender with \<open>i\<close> consecutive frames sent, and the receiver with \<open>j\<close> of them received.\<close>

definition tx_at :: "iso_config \<Rightarrow> bytes \<Rightarrow> nat \<Rightarrow> tx_pc \<Rightarrow> bool" where
  "tx_at rc p i pc \<longleftrightarrow> i \<le> cf_total p \<and>
     (case pc of
        Tx_await sn q \<Rightarrow> i < cf_total p \<and> boundary (block_size rc) i \<and> sn = of_nat (Suc i) \<and> q = drop (6 + 7 * i) p
      | Tx_cf fc bc sn q \<Rightarrow> i < cf_total p \<and> fc = cts (block_size rc) (st_min rc) \<and> sn = of_nat (Suc i) \<and>
          q = drop (6 + 7 * i) p \<and> (block_size rc \<noteq> 0 \<longrightarrow> unat bc = i mod unat (block_size rc))
      | Tx_pause d fc bc sn q \<Rightarrow> (\<exists>m. i = Suc m \<and> (block_size rc \<noteq> 0 \<longrightarrow> unat bc = Suc (m mod unat (block_size rc)))) \<and>
          fc = cts (block_size rc) (st_min rc) \<and> sn = of_nat (Suc i) \<and> q = drop (6 + 7 * i) p
      | Tx_done r \<Rightarrow> i = cf_total p \<and> r = Ok ()
      | _ \<Rightarrow> False)"

definition rcv_at :: "iso_config \<Rightarrow> bytes \<Rightarrow> nat \<Rightarrow> rcv_pc \<Rightarrow> bool" where
  "rcv_at rc p j pc \<longleftrightarrow> j \<le> cf_total p \<and>
     (case pc of
        Rcv_cf len buf sn k \<Rightarrow> j < cf_total p \<and> len = length p \<and> buf = take (6 + 7 * j) p \<and> sn = of_nat (Suc j) \<and>
          (block_size rc \<noteq> 0 \<longrightarrow> unat k = j mod unat (block_size rc))
      | Rcv_fc len buf sn \<Rightarrow> j < cf_total p \<and> boundary (block_size rc) j \<and> len = length p \<and> buf = take (6 + 7 * j) p \<and>
          sn = of_nat (Suc j)
      | Rcv_done r \<Rightarrow> j = cf_total p \<and> r = Ok p
      | _ \<Rightarrow> False)"

fun at_cf :: "tx_pc \<Rightarrow> bool" where
  "at_cf (Tx_cf fc bc sn q) = True"
| "at_cf _ = False"

fun awaits_cf :: "rcv_pc \<Rightarrow> bool" where
  "awaits_cf (Rcv_cf len buf sn k) = True"
| "awaits_cf _ = False"

text \<open>What a task still has before it.\<close>

fun tx_left :: "tx_pc \<Rightarrow> nat" where
  "tx_left (Tx_single q) = 1"
| "tx_left (Tx_first q) = 3 * length q + 2"
| "tx_left (Tx_await sn q) = 3 * length q + 1"
| "tx_left (Tx_cf fc bc sn q) = 3 * length q"
| "tx_left (Tx_pause d fc bc sn q) = 3 * length q + 2"
| "tx_left (Tx_done r) = 0"

fun rcv_left :: "nat \<Rightarrow> rcv_pc \<Rightarrow> nat" where
  "rcv_left n Rcv_first = 2 * n + 2"
| "rcv_left n (Rcv_fc len buf sn) = 2 * (len - length buf) + 1"
| "rcv_left n (Rcv_cf len buf sn k) = 2 * (len - length buf)"
| "rcv_left n (Rcv_done r) = 0"

lemma rest_left: "i < cf_total p \<longleftrightarrow> 6 + 7 * i < length p"
  using less_eq_div_iff_mult_less_eq [of 7 "Suc i" "length p"] unfolding cf_total_def Suc_le_eq by (simp; linarith)

lemma rest_Nil: "drop (6 + 7 * i) p = [] \<longleftrightarrow> \<not> i < cf_total p"
  by (simp add: rest_left not_less)

lemma rest_Suc: "drop 7 (drop (6 + 7 * i) p) = drop (6 + 7 * Suc i) p"
  by (simp add: add.commute)

lemma take_all_but: "take (min (length q) n) q = take n q" "drop (min (length q) n) q = drop n q"
  by (simp_all add: min_def)

lemma tx_round_end_at:
  assumes "Suc m \<le> cf_total p" "bs \<noteq> 0 \<longrightarrow> unat bc = Suc (m mod unat bs)"
  shows "tx_round_end (cts bs st) bc sn (drop (6 + 7 * Suc m) p) =
    (if Suc m = cf_total p then Tx_done (Ok ())
     else if boundary bs (Suc m) then Tx_await sn (drop (6 + 7 * Suc m) p)
     else Tx_cf (cts bs st) bc sn (drop (6 + 7 * Suc m) p))"
proof (cases "Suc m = cf_total p")
  case True
  then have "drop (6 + 7 * Suc m) p = []" unfolding rest_Nil by simp
  then show ?thesis unfolding tx_round_end_def Let_def tx_head_def using True by simp
next
  case False
  then have ne: "drop (6 + 7 * Suc m) p \<noteq> []" using assms(1) unfolding rest_Nil by simp
  have "bs > 0 \<and> bc \<ge> ucast bs \<longleftrightarrow> boundary bs (Suc m)"
  proof (cases "bs = 0")
    case bs: False
    then have "0 < unat bs" by (simp add: unat_gt_0)
    then have "m mod unat bs < unat bs" by simp
    then have "bc \<ge> ucast bs \<longleftrightarrow> Suc (m mod unat bs) = unat bs"
      using assms(2) bs by (simp add: word_le_nat_alt) linarith
    with bs \<open>0 < unat bs\<close> show ?thesis by (simp add: boundary_def mod_Suc word_gt_0)
  qed (simp add: boundary_def)
  with False ne show ?thesis by (simp add: tx_round_end_def tx_head_def cts_facts Let_def del: drop_eq_Nil)
qed

lemma tx_round_end_tx_at:
  assumes "Suc m \<le> cf_total p" "block_size rc \<noteq> 0 \<longrightarrow> unat bc = Suc (m mod unat (block_size rc))"
    and pc_def: "pc = tx_round_end (cts (block_size rc) (st_min rc)) bc (of_nat (Suc (Suc m))) (drop (6 + 7 * Suc m) p)"
  shows "tx_at rc p (Suc m) pc" "at_cf pc \<Longrightarrow> \<not> boundary (block_size rc) (Suc m)"
    "tx_left pc \<le> 3 * length (drop (6 + 7 * Suc m) p) + 1"
proof -
  note e = tx_round_end_at [OF assms(1,2), of "st_min rc" "of_nat (Suc (Suc m))"]
  have "unat bc = Suc m mod unat (block_size rc)" if "\<not> boundary (block_size rc) (Suc m)" "block_size rc \<noteq> 0"
    using that assms(2) by (simp add: boundary_def mod_Suc split: if_splits)
  then show "tx_at rc p (Suc m) pc"
    using assms(1) unfolding pc_def e by (simp add: tx_at_def)
  show "at_cf pc \<Longrightarrow> \<not> boundary (block_size rc) (Suc m)" unfolding pc_def e by (simp split: if_splits)
  show "tx_left pc \<le> 3 * length (drop (6 + 7 * Suc m) p) + 1" unfolding pc_def e by simp
qed

text \<open>The sender's moves.\<close>

lemma tx_cf_needs:
  assumes "tx_at rc p i (Tx_cf fc bc sn q)"
  shows "tk_need (tx_task sc) (Tx_cf fc bc sn q) = Need_send (make_frame sc (cf_bytes p i))"
proof -
  have q: "q = drop (6 + 7 * i) p" "sn = of_nat (Suc i)" using assms by (auto simp: tx_at_def)
  show ?thesis
    unfolding tx_task_def tx_need_def bus_task.simps tx_pc.case take_all_but cf_bytes_def q cf_byte ..
qed

lemma tx_cf_sent:
  assumes "tx_at rc p i (Tx_cf fc bc sn q)"
    and pc_def: "pc = tk_sent (tx_task sc) (Tx_cf fc bc sn q) (Ok ())"
  shows "tx_at rc p (Suc i) pc" "at_cf pc \<Longrightarrow> \<not> boundary (block_size rc) (Suc i)" "tx_left pc < tx_left (Tx_cf fc bc sn q)"
proof -
  let ?bs = "block_size rc" and ?d = "st_min_to_duration (st_min rc)"
  have q: "q = drop (6 + 7 * i) p" "fc = cts ?bs (st_min rc)" "sn = of_nat (Suc i)" "i < cf_total p"
    and bc: "?bs \<noteq> 0 \<longrightarrow> unat bc = i mod unat ?bs" using assms(1) by (auto simp: tx_at_def)
  have bc1: "?bs \<noteq> 0 \<longrightarrow> unat (bc + 1) = Suc (i mod unat ?bs)"
  proof
    assume bs: "?bs \<noteq> 0"
    then have "i mod unat ?bs < unat ?bs" by (simp add: unat_gt_0)
    then have "unat bc < 256" using bc bs unat_less [of ?bs] by simp
    with bc bs show "unat (bc + 1) = Suc (i mod unat ?bs)" by (simp add: unat_word_ariths)
  qed
  have i: "Suc i \<le> cf_total p" using q(4) by simp
  have drop: "drop (min (length q) 7) q = drop (6 + 7 * Suc i) p"
    unfolding take_all_but unfolding q(1) by (rule rest_Suc)
  have pc: "pc = (if ?d \<noteq> 0 then Tx_pause ?d fc (bc + 1) (of_nat (Suc (Suc i))) (drop (6 + 7 * Suc i) p)
      else tx_round_end fc (bc + 1) (of_nat (Suc (Suc i))) (drop (6 + 7 * Suc i) p))"
    unfolding pc_def tx_task_def bus_task.simps tx_sent_def sum.case tx_pc.case Let_def drop
    by (simp add: q(2,3) cts_facts)
  note e = tx_round_end_tx_at [OF i bc1, folded q(2)]
  have left: "3 * length (drop (6 + 7 * Suc i) p) + 2 < 3 * length q" using q(1,4) by (simp add: rest_left)
  show "tx_at rc p (Suc i) pc"
    unfolding pc using e(1) bc1 i q(2) by (simp add: tx_at_def)
  show "at_cf pc \<Longrightarrow> \<not> boundary ?bs (Suc i)" unfolding pc using e(2) by (simp split: if_splits)
  show "tx_left pc < tx_left (Tx_cf fc bc sn q)" unfolding pc using e(3) left by (simp split: if_split)
qed

lemma tx_pause_moves:
  assumes "tx_at rc p i (Tx_pause d fc bc sn q)"
    and pc_def: "pc = tk_slept (tx_task sc) (Tx_pause d fc bc sn q)"
  shows "tx_at rc p i pc" "at_cf pc \<Longrightarrow> \<not> boundary (block_size rc) i" "tx_left pc < tx_left (Tx_pause d fc bc sn q)"
proof -
  obtain m where m: "i = Suc m" "block_size rc \<noteq> 0 \<longrightarrow> unat bc = Suc (m mod unat (block_size rc))" "Suc m \<le> cf_total p"
    and q: "fc = cts (block_size rc) (st_min rc)" "sn = of_nat (Suc i)" "q = drop (6 + 7 * i) p"
    using assms(1) by (auto simp: tx_at_def)
  have pc: "pc = tx_round_end (cts (block_size rc) (st_min rc)) bc (of_nat (Suc (Suc m))) (drop (6 + 7 * Suc m) p)"
    unfolding pc_def tx_task_def tx_slept_def bus_task.simps tx_pc.case q m(1) ..
  show "tx_at rc p i pc" "at_cf pc \<Longrightarrow> \<not> boundary (block_size rc) i" "tx_left pc < tx_left (Tx_pause d fc bc sn q)"
    using tx_round_end_tx_at [OF m(3,2)] q(3) m(1) unfolding pc by (simp_all add: less_Suc_eq_le)
qed

lemma tx_await_got:
  assumes "tx_at rc p i (Tx_await sn q)"
    and pc_def: "pc = tk_got (tx_task sc) (Tx_await sn q) (Ok (fc_frame rc))"
  shows "tx_at rc p i pc" "at_cf pc" "tx_left pc < tx_left (Tx_await sn q)"
proof -
  have q: "q = drop (6 + 7 * i) p" "sn = of_nat (Suc i)" "i < cf_total p" "boundary (block_size rc) i"
    using assms(1) by (auto simp: tx_at_def)
  then have "q \<noteq> []" unfolding q(1) rest_Nil by simp
  then have pc: "pc = Tx_cf (cts (block_size rc) (st_min rc)) 0 sn q"
    unfolding pc_def by (simp add: tx_task_def tx_got_def fc_frame_data tx_head_def cts_facts)
      (simp add: cts_def pci_defs)
  show "tx_at rc p i pc" "at_cf pc" "tx_left pc < tx_left (Tx_await sn q)"
    unfolding pc using q by (auto simp: tx_at_def boundary_def)
qed

text \<open>The receiver's moves.\<close>

lemma rcv_fc_needs:
  "tk_need (rcv_task rc) (Rcv_fc len buf sn) = Need_send (fc_frame rc)"
  by (simp add: rcv_task_def rcv_need_def fc_frame_def)

lemma rcv_fc_sent:
  assumes "rcv_at rc p j (Rcv_fc len buf sn)"
    and pc_def: "pc = tk_sent (rcv_task rc) (Rcv_fc len buf sn) (Ok ())"
  shows "rcv_at rc p j pc" "awaits_cf pc" "rcv_left n pc < rcv_left n (Rcv_fc len buf sn)"
proof -
  have b: "j < cf_total p" "boundary (block_size rc) j" "len = length p" "buf = take (6 + 7 * j) p" "sn = of_nat (Suc j)"
    using assms(1) by (auto simp: rcv_at_def)
  then have "length buf < len" by (simp add: rest_left)
  then have pc: "pc = Rcv_cf len buf sn 0"
    unfolding pc_def by (simp add: rcv_task_def rcv_sent_def rcv_head_def)
  show "rcv_at rc p j pc" "awaits_cf pc" "rcv_left n pc < rcv_left n (Rcv_fc len buf sn)"
    unfolding pc using b by (auto simp: rcv_at_def boundary_def)
qed

lemma rcv_cf_got:
  assumes "rcv_at rc p j (Rcv_cf len buf sn k)" "f_data f = cf_bytes p j"
    and pc_def: "pc = tk_got (rcv_task rc) (Rcv_cf len buf sn k) (Ok f)"
  shows "rcv_at rc p (Suc j) pc" "awaits_cf pc \<Longrightarrow> \<not> boundary (block_size rc) (Suc j)"
    "rcv_left n pc < rcv_left n (Rcv_cf len buf sn k)"
proof -
  let ?bs = "block_size rc" and ?c = "take 7 (drop (6 + 7 * j) p)"
  have b: "j < cf_total p" "len = length p" "buf = take (6 + 7 * j) p" "sn = of_nat (Suc j)"
    and k: "?bs \<noteq> 0 \<longrightarrow> unat k = j mod unat ?bs" using assms(1) by (auto simp: rcv_at_def)
  have buf: "length buf = 6 + 7 * j" using b by (simp add: rest_left)
  have "buf @ ?c = take (6 + 7 * Suc j) p"
    using take_add [of "6 + 7 * j" 7 p] b(3) by (simp add: add.commute)
  moreover have "take (min (length ?c) (len - length buf)) ?c = ?c"
    using b(2) buf by (intro take_all) simp
  ultimately have buf': "buf @ take (min (length ?c) (len - length buf)) ?c = take (6 + 7 * Suc j) p" by simp
  have full: "length (take (6 + 7 * Suc j) p) < len \<longleftrightarrow> Suc j \<noteq> cf_total p"
    using b(1,2) rest_left [of "Suc j" p] by auto
  have all: "take (6 + 7 * Suc j) p = p" if "Suc j = cf_total p" using that full b(2) by simp
  have ends: "?bs \<noteq> 0 \<and> k + 1 = ?bs \<longleftrightarrow> boundary ?bs (Suc j)"
    and nxt: "\<not> boundary ?bs (Suc j) \<Longrightarrow> ?bs \<noteq> 0 \<longrightarrow> unat (k + 1) = Suc j mod unat ?bs"
  proof -
    have "unat k < unat ?bs \<or> ?bs = 0" using k by (auto simp: unat_gt_0)
    from block_ends_iff [OF this] k show "?bs \<noteq> 0 \<and> k + 1 = ?bs \<longleftrightarrow> boundary ?bs (Suc j)"
      "\<not> boundary ?bs (Suc j) \<Longrightarrow> ?bs \<noteq> 0 \<longrightarrow> unat (k + 1) = Suc j mod unat ?bs"
      by (auto simp: block_ends_def boundary_def mod_Suc)
  qed
  have "pc = rcv_got_cf rc len buf sn k f" unfolding pc_def by (simp add: rcv_task_def rcv_got_def)
  also have "\<dots> = (if Suc j = cf_total p then Rcv_done (Ok p)
      else if boundary ?bs (Suc j) then Rcv_fc len (take (6 + 7 * Suc j) p) (of_nat (Suc (Suc j)))
      else Rcv_cf len (take (6 + 7 * Suc j) p) (of_nat (Suc (Suc j))) (k + 1))"
  proof -
    have d: "f_data f \<noteq> []" "f_data f ! 0 AND 0xF0 = TYPE_CF" "f_data f ! 0 AND 0x0F = sn AND 0x0F" "drop 1 (f_data f) = ?c"
      using cf_byte_parts [of "Suc j"] b(4) by (simp_all add: assms(2) cf_bytes_def del: of_nat_Suc)
    have "rcv_got_cf rc len buf sn k f =
        (if ?bs \<noteq> 0 \<and> k + 1 = ?bs \<and> length (take (6 + 7 * Suc j) p) < len
         then Rcv_fc len (take (6 + 7 * Suc j) p) (sn + 1) else rcv_head len (take (6 + 7 * Suc j) p) (sn + 1) (k + 1))"
      unfolding rcv_got_cf_def Let_def d(4) buf' using d(1-3) by simp
    moreover have "sn + 1 = of_nat (Suc (Suc j))" using b(4) by simp
    ultimately show ?thesis using ends full all by (auto simp: rcv_head_def)
  qed
  finally have pc: "pc = (if Suc j = cf_total p then Rcv_done (Ok p)
      else if boundary ?bs (Suc j) then Rcv_fc len (take (6 + 7 * Suc j) p) (of_nat (Suc (Suc j)))
      else Rcv_cf len (take (6 + 7 * Suc j) p) (of_nat (Suc (Suc j))) (k + 1))" .
  show "rcv_at rc p (Suc j) pc" unfolding pc using b(1,2) nxt by (simp add: rcv_at_def)
  show "awaits_cf pc \<Longrightarrow> \<not> boundary ?bs (Suc j)" unfolding pc by (simp split: if_splits)
  show "rcv_left n pc < rcv_left n (Rcv_cf len buf sn k)"
    unfolding pc using b(1,2) buf full by (auto simp: rest_left)
qed

section \<open>The invariant of every interleaving\<close>

text \<open>
  In the middle of a transfer \<open>i\<close> frames are sent and \<open>j\<close> received; those between are queued, and the sender has
  not passed a boundary that the receiver has not granted. A flow control frame is queued while the sender has
  not yet taken the one it needs.
\<close>

definition fc_waiting :: "u8 \<Rightarrow> bytes \<Rightarrow> nat \<Rightarrow> nat \<Rightarrow> tx_pc \<Rightarrow> rcv_pc \<Rightarrow> bool" where
  "fc_waiting bs p i j tx rx \<longleftrightarrow> i = j \<and> i < cf_total p \<and> boundary bs i \<and> \<not> at_cf tx \<and> awaits_cf rx"

definition in_step :: "u8 \<Rightarrow> nat \<Rightarrow> nat \<Rightarrow> tx_pc \<Rightarrow> rcv_pc \<Rightarrow> bool" where
  "in_step bs i j tx rx \<longleftrightarrow>
     j \<le> i \<and> (\<forall>k. boundary bs k \<and> (k < i \<or> k = i \<and> at_cf tx) \<longrightarrow> k < j \<or> k = j \<and> awaits_cf rx)"

definition net_at :: "iso_conn \<Rightarrow> iso_conn \<Rightarrow> bytes \<Rightarrow> nat \<Rightarrow> nat \<Rightarrow> tx_pc \<Rightarrow> rcv_pc \<Rightarrow> virtual_bus \<Rightarrow> bool" where
  "net_at cs cr p i j tx rx b \<longleftrightarrow>
     (let rc = ic_cfg cr; bs = block_size rc
      in tx_at rc p i tx \<and> rcv_at rc p j rx \<and> in_step bs i j tx rx \<and>
         iso_ports cs cr b (if fc_waiting bs p i j tx rx then [fc_frame rc] else [])
           (map (\<lambda>k. make_frame (ic_cfg cs) (cf_bytes p k)) [j..<i]))"

text \<open>The frames that the receiver's queue has to hold at most fit it.\<close>

definition fits :: "u8 \<Rightarrow> bytes \<Rightarrow> bool" where
  "fits bs p \<longleftrightarrow> cf_total p \<le> 64 \<or> bs \<noteq> 0 \<and> unat bs \<le> 64"

lemma window:
  assumes "in_step bs i j tx rx" "at_cf tx" "i < cf_total p" "fits bs p"
  shows "i - j < 64"
proof (cases "bs \<noteq> 0 \<and> unat bs \<le> 64")
  case True
  let ?k = "unat bs * (i div unat bs)"
  have "i mod unat bs < unat bs" using True by (simp add: unat_gt_0)
  moreover have sum: "?k + i mod unat bs = i" by simp
  moreover have "?k \<le> j"
  proof -
    have "boundary bs ?k" using True by (simp add: boundary_def)
    moreover have "?k < i \<or> ?k = i" using sum by linarith
    ultimately have "?k < j \<or> ?k = j \<and> awaits_cf rx" using assms(1,2) unfolding in_step_def by blast
    then show ?thesis by linarith
  qed
  ultimately show ?thesis using True by linarith
next
  case False
  with assms(3,4) show ?thesis by (auto simp: fits_def)
qed

lemma cf_bytes_size: "length (cf_bytes p k) \<le> 8"
  by (simp add: cf_bytes_def)

lemma net_at_tx:
  assumes "net_at cs cr p i j tx rx b" "fits (block_size (ic_cfg cr)) p"
    and "task_step (tx_task (ic_cfg cs)) (ic_rx cs) clk tx b = Some (tx', b')"
  shows "\<exists>i'. net_at cs cr p i' j tx' rx b' \<and> tx_left tx' < tx_left tx"
proof -
  let ?rc = "ic_cfg cr" and ?bs = "block_size (ic_cfg cr)" and ?tk = "tx_task (ic_cfg cs)"
  let ?q = "\<lambda>i. map (\<lambda>k. make_frame (ic_cfg cs) (cf_bytes p k)) [j..<i]"
  have tx: "tx_at ?rc p i tx" and rx: "rcv_at ?rc p j rx" and w: "in_step ?bs i j tx rx"
    and ports: "iso_ports cs cr b (if fc_waiting ?bs p i j tx rx then [fc_frame ?rc] else []) (?q i)"
    using assms(1) by (simp_all add: net_at_def Let_def)
  show ?thesis
  proof (cases tx)
    case (Tx_cf fc bc sn q)
    have i: "i < cf_total p" using tx by (simp add: Tx_cf tx_at_def)
    have p0: "iso_ports cs cr b [] (?q i)" using ports by (simp add: Tx_cf fc_waiting_def)
    have "length (?q i) < 64" using window [OF w _ i assms(2)] by (simp add: Tx_cf)
    from sender_sends [OF p0 this cf_bytes_size tx_cf_needs [OF tx [unfolded Tx_cf]], of "ic_rx cs" clk] assms(3)
    have b': "tx' = tk_sent ?tk (Tx_cf fc bc sn q) (Ok ())"
      "iso_ports cs cr b' [] (?q i @ [make_frame (ic_cfg cs) (cf_bytes p i)])"
      by (auto simp: Tx_cf)
    note tx' = tx_cf_sent [OF tx [unfolded Tx_cf] b'(1)]
    have "j \<le> i" using w by (simp add: in_step_def)
    then have "?q (Suc i) = ?q i @ [make_frame (ic_cfg cs) (cf_bytes p i)]" by simp
    moreover have "in_step ?bs (Suc i) j tx' rx"
      using w tx'(2) by (auto simp: in_step_def Tx_cf less_Suc_eq)
    ultimately have "net_at cs cr p (Suc i) j tx' rx b'"
      using tx'(1) rx b'(2) \<open>j \<le> i\<close> by (simp add: net_at_def Let_def fc_waiting_def)
    with tx'(3) show ?thesis unfolding Tx_cf by blast
  next
    case (Tx_pause d fc bc sn q)
    then have "tx' = tk_slept ?tk (Tx_pause d fc bc sn q)" "b' = b"
      using assms(3) by (simp_all add: task_step_def tx_task_def tx_need_def)
    note tx' = tx_pause_moves [OF tx [unfolded Tx_pause] this(1)]
    have "fc_waiting ?bs p i j tx' rx = fc_waiting ?bs p i j tx rx"
      using tx'(2) by (auto simp: fc_waiting_def Tx_pause)
    moreover have "in_step ?bs i j tx' rx" using w tx'(2) by (auto simp: in_step_def Tx_pause)
    ultimately have "net_at cs cr p i j tx' rx b'"
      using tx'(1) rx ports \<open>b' = b\<close> by (simp add: net_at_def Let_def)
    with tx'(3) show ?thesis unfolding Tx_pause by blast
  next
    case (Tx_await sn q)
    have need: "tk_need ?tk tx = Need_recv (effective_timeout (ic_cfg cs))" by (simp add: Tx_await tx_task_def tx_need_def)
    note wait = sender_waits [OF ports need]
    have fc: "fc_waiting ?bs p i j tx rx" using wait(1) assms(3) by (cases "fc_waiting ?bs p i j tx rx") simp_all
    from wait(2) [of "fc_frame ?rc" "[]" clk] fc assms(3)
    have b': "tx' = tk_got ?tk (Tx_await sn q) (Ok (fc_frame ?rc))" "iso_ports cs cr b' [] (?q i)"
      by (auto simp: Tx_await)
    note tx' = tx_await_got [OF tx [unfolded Tx_await] b'(1)]
    have "in_step ?bs i j tx' rx" using w fc by (auto simp: in_step_def fc_waiting_def)
    then have "net_at cs cr p i j tx' rx b'"
      using tx'(1,2) rx b'(2) by (simp add: net_at_def Let_def fc_waiting_def)
    with tx'(3) show ?thesis unfolding Tx_await by blast
  qed (use tx assms(3) in \<open>simp_all add: tx_at_def task_step_def tx_task_def tx_need_def\<close>)
qed

lemma net_at_rx:
  assumes "net_at cs cr p i j tx rx b"
    and "task_step (rcv_task (ic_cfg cr)) (ic_rx cr) clk rx b = Some (rx', b')"
  shows "\<exists>j'. net_at cs cr p i j' tx rx' b' \<and> rcv_left n rx' < rcv_left n rx"
proof -
  let ?rc = "ic_cfg cr" and ?bs = "block_size (ic_cfg cr)" and ?tk = "rcv_task (ic_cfg cr)"
  let ?q = "\<lambda>j. map (\<lambda>k. make_frame (ic_cfg cs) (cf_bytes p k)) [j..<i]"
  have tx: "tx_at ?rc p i tx" and rx: "rcv_at ?rc p j rx" and w: "in_step ?bs i j tx rx"
    and ports: "iso_ports cs cr b (if fc_waiting ?bs p i j tx rx then [fc_frame ?rc] else []) (?q j)"
    using assms(1) by (simp_all add: net_at_def Let_def)
  show ?thesis
  proof (cases rx)
    case (Rcv_fc len buf sn)
    have j: "boundary ?bs j" "j < cf_total p" using rx by (auto simp: Rcv_fc rcv_at_def)
    then have same: "i = j" "\<not> at_cf tx" using w by (auto simp: in_step_def Rcv_fc le_less)
    have p0: "iso_ports cs cr b [] (?q j)" using ports by (simp add: Rcv_fc fc_waiting_def)
    have fcf: "fc_frame ?rc = make_frame ?rc (cts ?bs (st_min ?rc))"
      by (simp add: fc_frame_def cts_def pci_defs)
    have "length (cts ?bs (st_min ?rc)) \<le> 8" by (simp add: cts_def)
    from receiver_sends [OF p0 _ this rcv_fc_needs [of ?rc len buf sn, unfolded fcf], of "ic_rx cr" clk] assms(2)
    have b': "rx' = tk_sent ?tk (Rcv_fc len buf sn) (Ok ())" "iso_ports cs cr b' [fc_frame ?rc] (?q j)"
      by (auto simp: Rcv_fc fcf)
    note rx' = rcv_fc_sent [OF rx [unfolded Rcv_fc] b'(1)]
    have "in_step ?bs i j tx rx'" using w rx'(2) by (auto simp: in_step_def)
    moreover have "fc_waiting ?bs p i j tx rx'" using same j rx'(2) by (simp add: fc_waiting_def)
    ultimately have "net_at cs cr p i j tx rx' b'"
      using tx rx'(1) b'(2) by (simp add: net_at_def Let_def)
    with rx'(3) show ?thesis unfolding Rcv_fc by blast
  next
    case (Rcv_cf len buf sn k)
    have need: "tk_need ?tk rx = Need_recv (effective_timeout ?rc)" by (simp add: Rcv_cf rcv_task_def rcv_need_def)
    note wait = receiver_waits [OF ports need]
    have "j < i" using wait(1) [of clk] assms(2) by (cases "j < i") simp_all
    then have q: "?q j = make_frame (ic_cfg cs) (cf_bytes p j) # ?q (Suc j)" by (simp add: upt_conv_Cons)
    have p0: "iso_ports cs cr b [] (?q j)" using ports \<open>j < i\<close> by (simp add: fc_waiting_def)
    from receiver_waits(2) [OF p0 need q, of clk] assms(2)
    have b': "rx' = tk_got ?tk (Rcv_cf len buf sn k) (Ok (make_frame (ic_cfg cs) (cf_bytes p j)))"
      "iso_ports cs cr b' [] (?q (Suc j))" by (auto simp: Rcv_cf)
    have "f_data (make_frame (ic_cfg cs) (cf_bytes p j)) = cf_bytes p j" by (simp add: make_frame_def)
    note rx' = rcv_cf_got [OF rx [unfolded Rcv_cf] this b'(1)]
    have "in_step ?bs i (Suc j) tx rx'" using w \<open>j < i\<close> by (auto simp: in_step_def)
    moreover have "\<not> fc_waiting ?bs p i (Suc j) tx rx'" using rx'(2) by (auto simp: fc_waiting_def)
    ultimately have "net_at cs cr p i (Suc j) tx rx' b'"
      using tx rx'(1) b'(2) by (simp add: net_at_def Let_def)
    with rx'(3) show ?thesis unfolding Rcv_cf by blast
  qed (use rx assms(2) in \<open>simp_all add: rcv_at_def task_step_def rcv_task_def rcv_need_def\<close>)
qed

text \<open>One of the two can move, or both have come to their end.\<close>

lemma net_at_moves:
  assumes "net_at cs cr p i j tx rx b" "fits (block_size (ic_cfg cr)) p"
  shows "tx = Tx_done (Ok ()) \<and> rx = Rcv_done (Ok p) \<or>
    task_step (tx_task (ic_cfg cs)) (ic_rx cs) clk tx b \<noteq> None \<or>
    task_step (rcv_task (ic_cfg cr)) (ic_rx cr) clk rx b \<noteq> None"
proof -
  let ?rc = "ic_cfg cr" and ?bs = "block_size (ic_cfg cr)"
  let ?q = "map (\<lambda>k. make_frame (ic_cfg cs) (cf_bytes p k)) [j..<i]"
  have tx: "tx_at ?rc p i tx" and rx: "rcv_at ?rc p j rx" and w: "in_step ?bs i j tx rx"
    and ports: "iso_ports cs cr b (if fc_waiting ?bs p i j tx rx then [fc_frame ?rc] else []) ?q"
    using assms(1) by (simp_all add: net_at_def Let_def)
  have "task_step (tx_task (ic_cfg cs)) (ic_rx cs) clk tx b \<noteq> None" if "at_cf tx \<or> (\<exists>d fc bc sn q. tx = Tx_pause d fc bc sn q)"
    using that by (cases tx) (simp_all add: task_step_def tx_task_def tx_need_def Let_def case_prod_unfold)
  moreover have "task_step (rcv_task ?rc) (ic_rx cr) clk rx b \<noteq> None" if "\<exists>len buf sn. rx = Rcv_fc len buf sn"
    using that by (auto simp: task_step_def rcv_task_def rcv_need_def case_prod_unfold Let_def)
  moreover have "task_step (rcv_task ?rc) (ic_rx cr) clk rx b \<noteq> None" if "awaits_cf rx" "j < i"
  proof -
    have "tk_need (rcv_task ?rc) rx = Need_recv (effective_timeout ?rc)"
      using that(1) by (cases rx) (simp_all add: rcv_task_def rcv_need_def)
    from receiver_waits(2) [OF ports this, of "make_frame (ic_cfg cs) (cf_bytes p j)"
        "map (\<lambda>k. make_frame (ic_cfg cs) (cf_bytes p k)) [Suc j..<i]" clk] that(2)
    show ?thesis by (auto simp: upt_conv_Cons)
  qed
  moreover have "task_step (tx_task (ic_cfg cs)) (ic_rx cs) clk tx b \<noteq> None" if "fc_waiting ?bs p i j tx rx" "\<exists>sn q. tx = Tx_await sn q"
  proof -
    have "tk_need (tx_task (ic_cfg cs)) tx = Need_recv (effective_timeout (ic_cfg cs))"
      using that(2) by (auto simp: tx_task_def tx_need_def)
    from sender_waits(2) [OF ports this, of "fc_frame ?rc" "[]" clk] that(1) show ?thesis by auto
  qed
  moreover have "j \<le> i" using w by (simp add: in_step_def)
  ultimately show ?thesis
    using tx rx by (cases tx; cases rx) (auto simp: tx_at_def rcv_at_def fc_waiting_def le_less)
qed

section \<open>Whole runs\<close>

definition ff_segment :: "bytes \<Rightarrow> bytes" where
  "ff_segment p = of_nat (0x10 + length p div 256) # of_nat (length p mod 256) # take 6 p"

definition net_inv :: "iso_conn \<Rightarrow> iso_conn \<Rightarrow> bytes \<Rightarrow> iso_net \<Rightarrow> bool" where
  "net_inv cs cr p s \<longleftrightarrow>
     nt_tx s = tx_start p \<and> nt_rx s = Rcv_first \<and> iso_ports cs cr (nt_bus s) [] [] \<or>
     length p \<le> 7 \<and> nt_tx s = Tx_done (Ok ()) \<and> nt_rx s = Rcv_first \<and>
       iso_ports cs cr (nt_bus s) [] [make_frame (ic_cfg cs) (of_nat (length p) # p)] \<or>
     nt_tx s = Tx_done (Ok ()) \<and> nt_rx s = Rcv_done (Ok p) \<or>
     7 < length p \<and> nt_tx s = Tx_await 1 (drop 6 p) \<and> nt_rx s = Rcv_first \<and>
       iso_ports cs cr (nt_bus s) [] [make_frame (ic_cfg cs) (ff_segment p)] \<or>
     (\<exists>i j. net_at cs cr p i j (nt_tx s) (nt_rx s) (nt_bus s))"

definition net_left :: "bytes \<Rightarrow> iso_net \<Rightarrow> nat" where
  "net_left p s = tx_left (nt_tx s) + rcv_left (length p) (nt_rx s)"

fun own :: "net_label \<Rightarrow> bool" where
  "own (Tx_runs clk) = True"
| "own (Rx_runs clk) = True"
| "own _ = False"

text \<open>No wait lasts long enough for its timer, and the others leave the two connections alone.\<close>

fun undisturbed :: "iso_conn \<Rightarrow> iso_conn \<Rightarrow> net_label \<Rightarrow> bool" where
  "undisturbed cs cr Tx_times_out = False"
| "undisturbed cs cr Rx_times_out = False"
| "undisturbed cs cr (Others e) = unrelated cs cr e"
| "undisturbed cs cr _ = True"

lemma task_finished:
  "task_step (tx_task sc) h clk (Tx_done r) b = None" "task_step (rcv_task rc) h clk (Rcv_done q) b = None"
  by (simp_all add: task_step_def tx_task_def tx_need_def rcv_task_def rcv_need_def)

lemma rcv_first_needs: "tk_need (rcv_task rc) Rcv_first = Need_recv (effective_timeout rc)"
  by (simp add: rcv_task_def rcv_need_def)

text \<open>The first frame.\<close>

lemma first_frame_sent:
  assumes "p \<noteq> []" "length p \<le> 4095" "iso_ports cs cr b [] []"
  shows "\<exists>b' tx'. task_step (tx_task (ic_cfg cs)) (ic_rx cs) clk (tx_start p) b = Some (tx', b') \<and>
    net_inv cs cr p \<lparr>nt_bus = b', nt_tx = tx', nt_rx = Rcv_first\<rparr> \<and> tx_left tx' < tx_left (tx_start p)"
proof (cases "length p \<le> 7")
  case True
  let ?d = "of_nat (length p) # p"
  have start: "tx_start p = Tx_single p" using assms(1) True by (simp add: tx_start_def)
  have need: "tk_need (tx_task (ic_cfg cs)) (Tx_single p) = Need_send (make_frame (ic_cfg cs) ?d)"
    using sf_byte [OF True] by (simp add: tx_task_def tx_need_def)
  have "length ?d \<le> 8" using True by simp
  from sender_sends [OF assms(3) _ this need, of "ic_rx cs" clk] obtain b' where
    "task_step (tx_task (ic_cfg cs)) (ic_rx cs) clk (Tx_single p) b = Some (tk_sent (tx_task (ic_cfg cs)) (Tx_single p) (Ok ()), b')"
    "iso_ports cs cr b' [] [make_frame (ic_cfg cs) ?d]" by auto
  then show ?thesis using True
    by (intro exI [of _ b'] exI [of _ "Tx_done (Ok ())"]) (simp add: start net_inv_def tx_task_def tx_sent_def)
next
  case False
  let ?d = "ff_segment p"
  have start: "tx_start p = Tx_first p" using assms(1,2) False by (simp add: tx_start_def)
  have byte: "(of_nat (length p AND 0xFF) :: u8) = of_nat (length p mod 256)"
  proof -
    have "length p AND 0xFF = take_bit 8 (length p)" by (simp add: take_bit_eq_mask mask_eq_exp_minus_1)
    then show ?thesis by (simp add: take_bit_eq_mod)
  qed
  have need: "tk_need (tx_task (ic_cfg cs)) (Tx_first p) = Need_send (make_frame (ic_cfg cs) ?d)"
    unfolding tx_task_def tx_need_def bus_task.simps tx_pc.case Let_def take_all_but ff_bytes(1) [OF assms(2)] byte ff_segment_def ..
  have "length ?d \<le> 8" by (simp add: ff_segment_def)
  from sender_sends [OF assms(3) _ this need, of "ic_rx cs" clk] obtain b' where
    "task_step (tx_task (ic_cfg cs)) (ic_rx cs) clk (Tx_first p) b = Some (tk_sent (tx_task (ic_cfg cs)) (Tx_first p) (Ok ()), b')"
    "iso_ports cs cr b' [] [make_frame (ic_cfg cs) ?d]" by auto
  moreover have "tk_sent (tx_task (ic_cfg cs)) (Tx_first p) (Ok ()) = Tx_await 1 (drop 6 p)"
    unfolding tx_task_def tx_sent_def bus_task.simps sum.case tx_pc.case take_all_but ..
  ultimately show ?thesis using False
    by (intro exI [of _ b'] exI [of _ "Tx_await 1 (drop 6 p)"]) (simp add: start net_inv_def)
qed

lemma single_frame_got:
  assumes "p \<noteq> []" "length p \<le> 7"
  shows "rcv_got_first (make_frame sc (of_nat (length p) # p)) = Rcv_done (Ok p)"
proof -
  let ?b = "of_nat (length p) :: u8"
  have "?b AND 0xF0 = 0" "?b AND 0x0F = of_nat (length p)"
    using u8_nibbles(2,3) [of 0 "length p"] assms(2) by simp_all
  moreover have "unat ?b = length p" using assms(2) by (simp add: unat_of_nat)
  ultimately show ?thesis using assms by (simp add: rcv_got_first_def make_frame_def Let_def)
qed

lemma first_frame_got:
  assumes "length p \<le> 4095"
  shows "rcv_got_first (make_frame sc (ff_segment p)) = Rcv_fc (length p) (take 6 p) 1"
  using ff_bytes(2,3) [OF assms] by (simp add: rcv_got_first_def make_frame_def ff_segment_def Let_def)

lemma transfer_begins:
  assumes "7 < length p" "iso_ports cs cr b [] []"
  shows "net_at cs cr p 0 0 (Tx_await 1 (drop 6 p)) (Rcv_fc (length p) (take 6 p) 1) b"
  using assms
  by (simp add: net_at_def Let_def tx_at_def rcv_at_def in_step_def fc_waiting_def boundary_def rest_left)

text \<open>Each turn.\<close>

lemma net_inv_tx:
  assumes "net_inv cs cr p s" "p \<noteq> []" "length p \<le> 4095" "fits (block_size (ic_cfg cr)) p"
    and "net_step cs cr (Tx_runs clk) s = Some s'"
  shows "net_inv cs cr p s' \<and> net_left p s' < net_left p s"
proof -
  obtain tx' b' where t: "task_step (tx_task (ic_cfg cs)) (ic_rx cs) clk (nt_tx s) (nt_bus s) = Some (tx', b')"
    "s' = s\<lparr>nt_tx := tx', nt_bus := b'\<rparr>" using assms(5) by auto
  consider (start) "nt_tx s = tx_start p" "nt_rx s = Rcv_first" "iso_ports cs cr (nt_bus s) [] []"
    | (ended) r where "nt_tx s = Tx_done r"
    | (first) "nt_tx s = Tx_await 1 (drop 6 p)" "iso_ports cs cr (nt_bus s) [] [make_frame (ic_cfg cs) (ff_segment p)]"
    | (mid) i j where "net_at cs cr p i j (nt_tx s) (nt_rx s) (nt_bus s)"
    using assms(1) unfolding net_inv_def by blast
  then show ?thesis
  proof cases
    case start
    from first_frame_sent [OF assms(2,3) start(3), of clk] t start(1,2) show ?thesis
      by (auto simp: net_inv_def net_left_def)
  next
    case ended
    with t show ?thesis by (simp add: task_finished)
  next
    case first
    have "tk_need (tx_task (ic_cfg cs)) (nt_tx s) = Need_recv (effective_timeout (ic_cfg cs))"
      using first(1) by (simp add: tx_task_def tx_need_def)
    with sender_waits(1) [OF first(2)] t show ?thesis by fastforce
  next
    case mid
    from net_at_tx [OF mid assms(4) t(1)] t(2) show ?thesis
      by (auto simp: net_inv_def net_left_def)
  qed
qed

lemma net_inv_rx:
  assumes "net_inv cs cr p s" "p \<noteq> []" "length p \<le> 4095"
    and "net_step cs cr (Rx_runs clk) s = Some s'"
  shows "net_inv cs cr p s' \<and> net_left p s' < net_left p s"
proof -
  obtain rx' b' where t: "task_step (rcv_task (ic_cfg cr)) (ic_rx cr) clk (nt_rx s) (nt_bus s) = Some (rx', b')"
    "s' = s\<lparr>nt_rx := rx', nt_bus := b'\<rparr>" using assms(4) by auto
  consider (start) "nt_rx s = Rcv_first" "iso_ports cs cr (nt_bus s) [] []"
    | (single) "length p \<le> 7" "nt_tx s = Tx_done (Ok ())" "nt_rx s = Rcv_first"
        "iso_ports cs cr (nt_bus s) [] [make_frame (ic_cfg cs) (of_nat (length p) # p)]"
    | (ended) r where "nt_rx s = Rcv_done r"
    | (first) "7 < length p" "nt_tx s = Tx_await 1 (drop 6 p)" "nt_rx s = Rcv_first"
        "iso_ports cs cr (nt_bus s) [] [make_frame (ic_cfg cs) (ff_segment p)]"
    | (mid) i j where "net_at cs cr p i j (nt_tx s) (nt_rx s) (nt_bus s)"
    using assms(1) unfolding net_inv_def by blast
  then show ?thesis
  proof cases
    case start
    with receiver_waits(1) [OF start(2) rcv_first_needs] t show ?thesis by simp
  next
    case single
    from receiver_waits(2) [OF single(4) rcv_first_needs [of "ic_cfg cr"] refl, where clk = clk] t single(3)
    have "rx' = rcv_got_first (make_frame (ic_cfg cs) (of_nat (length p) # p))"
      by (auto simp: rcv_task_def rcv_got_def)
    with single_frame_got [OF assms(2) single(1)] single(2,3) t(2) show ?thesis by (simp add: net_inv_def net_left_def)
  next
    case ended
    with t show ?thesis by (simp add: task_finished)
  next
    case first
    from receiver_waits(2) [OF first(4) rcv_first_needs [of "ic_cfg cr"] refl, where clk = clk] t first(3)
    have "rx' = rcv_got_first (make_frame (ic_cfg cs) (ff_segment p))" "iso_ports cs cr b' [] []"
      by (auto simp: rcv_task_def rcv_got_def)
    with first_frame_got [OF assms(3)] have rx: "rx' = Rcv_fc (length p) (take 6 p) 1" "iso_ports cs cr b' [] []" by simp_all
    from transfer_begins [OF first(1) rx(2)] have "net_inv cs cr p s'"
      using t(2) first(2) rx(1) by (auto simp: net_inv_def)
    with first t(2) rx(1) show ?thesis by (simp add: net_left_def)
  next
    case mid
    from net_at_rx [OF mid t(1), of "length p"] t(2) show ?thesis
      by (auto simp: net_inv_def net_left_def)
  qed
qed

lemma net_at_bus:
  "net_at cs cr p i j tx rx b \<Longrightarrow> (\<And>qs qr. iso_ports cs cr b qs qr \<Longrightarrow> iso_ports cs cr b' qs qr) \<Longrightarrow>
   net_at cs cr p i j tx rx b'"
  unfolding net_at_def Let_def by blast

lemma net_inv_bus:
  assumes "net_inv cs cr p s" "\<And>qs qr. iso_ports cs cr (nt_bus s) qs qr \<Longrightarrow> iso_ports cs cr b' qs qr"
  shows "net_inv cs cr p (s\<lparr>nt_bus := b'\<rparr>)"
proof -
  have "\<exists>i j. net_at cs cr p i j (nt_tx s) (nt_rx s) b'" if "\<exists>i j. net_at cs cr p i j (nt_tx s) (nt_rx s) (nt_bus s)"
    using that net_at_bus assms(2) by meson
  then show ?thesis using assms by (cases s) (simp only: net_inv_def iso_net.simps, blast)
qed

lemma net_inv_others:
  assumes "net_inv cs cr p s" "unrelated cs cr e" "net_step cs cr (Others e) s = Some s'"
  shows "net_inv cs cr p s' \<and> net_left p s' = net_left p s"
proof -
  let ?b = "endpoint_step (\<lambda>clk f b. snd (vb_send clk f b)) vb_update e (nt_bus s)"
  have "s' = s\<lparr>nt_bus := ?b\<rparr>" using assms(3) by simp
  moreover have "net_inv cs cr p (s\<lparr>nt_bus := ?b\<rparr>)"
    using iso_ports_others [OF _ assms(2)] by (rule net_inv_bus [OF assms(1)])
  ultimately show ?thesis by (simp add: net_left_def)
qed

lemma net_inv_step:
  assumes "net_inv cs cr p s" "p \<noteq> []" "length p \<le> 4095" "fits (block_size (ic_cfg cr)) p"
    and "net_step cs cr l s = Some s'" "undisturbed cs cr l"
  shows "net_inv cs cr p s'" "net_left p s' + (if own l then 1 else 0) \<le> net_left p s"
proof -
  have "net_inv cs cr p s' \<and> net_left p s' + (if own l then 1 else 0) \<le> net_left p s"
  proof (cases l)
    case (Tx_runs clk)
    with net_inv_tx [OF assms(1-4)] assms(5) show ?thesis by fastforce
  next
    case (Rx_runs clk)
    with net_inv_rx [OF assms(1-3)] assms(5) show ?thesis by fastforce
  next
    case (Others e)
    with net_inv_others [OF assms(1)] assms(5,6) show ?thesis by fastforce
  qed (use assms(6) in simp_all)
  then show "net_inv cs cr p s'" "net_left p s' + (if own l then 1 else 0) \<le> net_left p s" by blast+
qed

lemma net_inv_run:
  assumes "p \<noteq> []" "length p \<le> 4095" "fits (block_size (ic_cfg cr)) p"
  shows "net_inv cs cr p s \<Longrightarrow> net_run cs cr ls s = Some s' \<Longrightarrow> list_all (undisturbed cs cr) ls \<Longrightarrow>
    net_inv cs cr p s' \<and> net_left p s' + length (filter own ls) \<le> net_left p s"
proof (induction ls arbitrary: s)
  case (Cons l ls)
  then obtain m where m: "net_step cs cr l s = Some m" "net_run cs cr ls m = Some s'" by (auto split: option.splits)
  have "net_inv cs cr p m" "net_left p m + (if own l then 1 else 0) \<le> net_left p s"
    using net_inv_step [OF Cons.prems(1) assms m(1)] Cons.prems(3) by simp_all
  with Cons.IH [OF this(1) m(2)] Cons.prems(3) show ?case by (auto split: if_splits)
qed simp

lemma net_inv_moves:
  assumes "net_inv cs cr p s" "p \<noteq> []" "length p \<le> 4095" "fits (block_size (ic_cfg cr)) p"
  shows "nt_tx s = Tx_done (Ok ()) \<and> nt_rx s = Rcv_done (Ok p) \<or>
    net_step cs cr (Tx_runs clk) s \<noteq> None \<or> net_step cs cr (Rx_runs clk) s \<noteq> None"
proof -
  consider (start) "nt_tx s = tx_start p" "iso_ports cs cr (nt_bus s) [] []"
    | (got) f where "nt_rx s = Rcv_first" "iso_ports cs cr (nt_bus s) [] [f]"
    | (ended) "nt_tx s = Tx_done (Ok ())" "nt_rx s = Rcv_done (Ok p)"
    | (mid) i j where "net_at cs cr p i j (nt_tx s) (nt_rx s) (nt_bus s)"
    using assms(1) unfolding net_inv_def by blast
  then show ?thesis
  proof cases
    case start
    from first_frame_sent [OF assms(2,3) start(2), of clk] start(1) show ?thesis by auto
  next
    case (got f)
    from receiver_waits(2) [OF got(2) rcv_first_needs [of "ic_cfg cr"] refl, where clk = clk] got(1) show ?thesis by auto
  next
    case ended
    then show ?thesis by simp
  next
    case mid
    from net_at_moves [OF mid assms(4), of clk] show ?thesis by simp
  qed
qed

text \<open>What a task that has come to its end returns.\<close>

lemma net_inv_results:
  assumes "net_inv cs cr p s" "p \<noteq> []"  "length p \<le> 4095"
  shows "nt_tx s = Tx_done r \<Longrightarrow> r = Ok ()" "nt_rx s = Rcv_done q \<Longrightarrow> q = Ok p"
  using assms by (auto simp: net_inv_def net_at_def tx_at_def rcv_at_def Let_def tx_start_def split: if_splits)

section \<open>A burst that does not fit\<close>

text \<open>The sender alone, against a receiver that does not take its frames: what is beyond the capacity is dropped.\<close>

lemma sender_overruns:
  assumes "iso_ports cs cr b qs qr" "length qr = 64" "length d \<le> 8"
    and "tk_need tk pc = Need_send (make_frame (ic_cfg cs) d)"
  shows "\<exists>b'. task_step tk h clk pc b = Some (tk_sent tk pc (Ok ()), b') \<and> iso_ports cs cr b' qs qr"
proof -
  let ?f = "make_frame (ic_cfg cs) d"
  have m: "mirrored (ic_cfg cs) (ic_cfg cr)"
    and p: "vb_port b (ic_rx cs) (wants [iso_filter (ic_cfg cs)]) DropNewest 64 qs"
      "vb_port b (ic_rx cr) (wants [iso_filter (ic_cfg cr)]) DropNewest 64 qr"
    using assms(1) by (simp_all add: iso_ports_def)
  have wf: "wf_frame ?f" using m assms(3) by (intro wf_make_frame) (simp_all add: mirrored_def)
  obtain b' where b': "vb_send clk ?f b = (Ok (), b')" using port_send_ok [OF p(1) wf] by (metis prod.collapse)
  have "vb_port b' (ic_rx cs) (wants [iso_filter (ic_cfg cs)]) DropNewest 64 qs"
    using port_send [OF p(1), of clk ?f] wants_peer(2) [OF m] b' by (simp add: arrived_unwanted)
  moreover have "vb_port b' (ic_rx cr) (wants [iso_filter (ic_cfg cr)]) DropNewest 64 qr"
    using port_send [OF p(2), of clk ?f] assms(2) b' by (simp add: arrived_def enqueue_spec_def split: if_splits)
  ultimately show ?thesis using assms(1,4) b'
    by (intro exI [of _ b']) (simp add: task_step_def iso_ports_def)
qed

definition overrun :: "iso_conn \<Rightarrow> iso_conn \<Rightarrow> bytes \<Rightarrow> nat \<Rightarrow> tx_pc \<Rightarrow> virtual_bus \<Rightarrow> bool" where
  "overrun cs cr p i tx b \<longleftrightarrow> tx_at (ic_cfg cr) p i tx \<and> (at_cf tx \<or> 0 < i) \<and>
     iso_ports cs cr b [] (map (\<lambda>k. make_frame (ic_cfg cs) (cf_bytes p k)) [0..<min i 64])"

lemma overrun_step:
  assumes "overrun cs cr p i tx b" "block_size (ic_cfg cr) = 0" "tx \<noteq> Tx_done (Ok ())"
  shows "\<exists>i' tx' b'. task_step (tx_task (ic_cfg cs)) (ic_rx cs) clk tx b = Some (tx', b') \<and>
    overrun cs cr p i' tx' b' \<and> tx_left tx' < tx_left tx"
proof -
  let ?tk = "tx_task (ic_cfg cs)" and ?q = "\<lambda>i. map (\<lambda>k. make_frame (ic_cfg cs) (cf_bytes p k)) [0..<min i 64]"
  have tx: "tx_at (ic_cfg cr) p i tx" and i: "at_cf tx \<or> 0 < i" and ports: "iso_ports cs cr b [] (?q i)"
    using assms(1) by (simp_all add: overrun_def)
  show ?thesis
  proof (cases tx)
    case (Tx_cf fc bc sn q)
    let ?pc = "tk_sent ?tk (Tx_cf fc bc sn q) (Ok ())"
    note need = tx_cf_needs [OF tx [unfolded Tx_cf], of "ic_cfg cs"]
    have "\<exists>b'. task_step ?tk (ic_rx cs) clk (Tx_cf fc bc sn q) b = Some (?pc, b') \<and> iso_ports cs cr b' [] (?q (Suc i))"
    proof (cases "i < 64")
      case True
      then have "length (?q i) < 64" "?q (Suc i) = ?q i @ [make_frame (ic_cfg cs) (cf_bytes p i)]" by simp_all
      with sender_sends [OF ports this(1) cf_bytes_size need] show ?thesis by simp
    next
      case False
      then have "length (?q i) = 64" "?q (Suc i) = ?q i" by simp_all
      with sender_overruns [OF ports this(1) cf_bytes_size need] show ?thesis by simp
    qed
    with tx_cf_sent [OF tx [unfolded Tx_cf] refl, of "ic_cfg cs"] show ?thesis
      unfolding Tx_cf overrun_def by fastforce
  next
    case (Tx_pause d fc bc sn q)
    then have "task_step ?tk (ic_rx cs) clk tx b = Some (tk_slept ?tk (Tx_pause d fc bc sn q), b)"
      by (simp add: task_step_def tx_task_def tx_need_def)
    moreover have "0 < i" using i by (simp add: Tx_pause)
    ultimately show ?thesis
      using tx_pause_moves [OF tx [unfolded Tx_pause] refl, of "ic_cfg cs"] ports
      unfolding Tx_pause overrun_def by fastforce
  qed (use tx i assms(2,3) in \<open>auto simp: tx_at_def boundary_def\<close>)
qed

lemma overrun_run:
  "overrun cs cr p i (nt_tx s) (nt_bus s) \<Longrightarrow> block_size (ic_cfg cr) = 0 \<Longrightarrow>
   \<exists>n b. net_run cs cr (replicate n (Tx_runs clk)) s = Some (s\<lparr>nt_tx := Tx_done (Ok ()), nt_bus := b\<rparr>) \<and>
     iso_ports cs cr b [] (map (\<lambda>k. make_frame (ic_cfg cs) (cf_bytes p k)) [0..<min (cf_total p) 64])"
proof (induction "tx_left (nt_tx s)" arbitrary: i s rule: less_induct)
  case less
  show ?case
  proof (cases "nt_tx s = Tx_done (Ok ())")
    case True
    with less.prems show ?thesis
      by (intro exI [of _ 0] exI [of _ "nt_bus s"]) (auto simp: overrun_def tx_at_def)
  next
    case False
    from overrun_step [OF less.prems False, of clk] obtain i' tx' b' where
      t: "task_step (tx_task (ic_cfg cs)) (ic_rx cs) clk (nt_tx s) (nt_bus s) = Some (tx', b')"
        "overrun cs cr p i' tx' b'" "tx_left tx' < tx_left (nt_tx s)" by blast
    from less.hyps [of "s\<lparr>nt_tx := tx', nt_bus := b'\<rparr>" i'] t(2,3) less.prems(2) obtain n b where
      n: "net_run cs cr (replicate n (Tx_runs clk)) (s\<lparr>nt_tx := tx', nt_bus := b'\<rparr>) =
          Some (s\<lparr>nt_tx := Tx_done (Ok ()), nt_bus := b\<rparr>)"
        "iso_ports cs cr b [] (map (\<lambda>k. make_frame (ic_cfg cs) (cf_bytes p k)) [0..<min (cf_total p) 64])" by auto
    with t(1) show ?thesis by (intro exI [of _ "Suc n"] exI [of _ b]) simp
  qed
qed

text \<open>The receiver takes what is left, frame by frame.\<close>

lemma drain_run:
  "rcv_at (ic_cfg cr) p j (nt_rx s) \<Longrightarrow> awaits_cf (nt_rx s) \<Longrightarrow> block_size (ic_cfg cr) = 0 \<Longrightarrow> j + n < cf_total p \<Longrightarrow>
   iso_ports cs cr (nt_bus s) [] (map (\<lambda>k. make_frame (ic_cfg cs) (cf_bytes p k)) [j..<j + n]) \<Longrightarrow>
   \<exists>rx b. net_run cs cr (replicate n (Rx_runs clk)) s = Some (s\<lparr>nt_rx := rx, nt_bus := b\<rparr>) \<and>
     awaits_cf rx \<and> iso_ports cs cr b [] []"
proof (induction n arbitrary: j s)
  case 0
  then show ?case by (intro exI [of _ "nt_rx s"] exI [of _ "nt_bus s"]) simp
next
  case (Suc n)
  let ?q = "\<lambda>j m. map (\<lambda>k. make_frame (ic_cfg cs) (cf_bytes p k)) [j..<m]"
  obtain len buf sn k where rx: "nt_rx s = Rcv_cf len buf sn k" using Suc.prems(2) by (cases "nt_rx s") simp_all
  have need: "tk_need (rcv_task (ic_cfg cr)) (nt_rx s) = Need_recv (effective_timeout (ic_cfg cr))"
    by (simp add: rx rcv_task_def rcv_need_def)
  have q: "?q j (j + Suc n) = make_frame (ic_cfg cs) (cf_bytes p j) # ?q (Suc j) (Suc j + n)"
    by (simp add: upt_conv_Cons del: upt_Suc)
  from receiver_waits(2) [OF Suc.prems(5) need q, where clk = clk] obtain b' where
    b': "task_step (rcv_task (ic_cfg cr)) (ic_rx cr) clk (nt_rx s) (nt_bus s) =
        Some (tk_got (rcv_task (ic_cfg cr)) (nt_rx s) (Ok (make_frame (ic_cfg cs) (cf_bytes p j))), b')"
      "iso_ports cs cr b' [] (?q (Suc j) (Suc j + n))" by blast
  define rx' where "rx' = tk_got (rcv_task (ic_cfg cr)) (nt_rx s) (Ok (make_frame (ic_cfg cs) (cf_bytes p j)))"
  have "f_data (make_frame (ic_cfg cs) (cf_bytes p j)) = cf_bytes p j" by (simp add: make_frame_def)
  note at = rcv_cf_got(1) [OF Suc.prems(1) [unfolded rx] this rx'_def [unfolded rx]]
  have "awaits_cf rx'"
    using at Suc.prems(3,4) by (cases rx') (simp_all add: rcv_at_def boundary_def)
  from Suc.IH [of "Suc j" "s\<lparr>nt_rx := rx', nt_bus := b'\<rparr>"] at this Suc.prems(3,4) b'(2)
  obtain rx b where
    "net_run cs cr (replicate n (Rx_runs clk)) (s\<lparr>nt_rx := rx', nt_bus := b'\<rparr>) = Some (s\<lparr>nt_rx := rx, nt_bus := b\<rparr>)"
    "awaits_cf rx" "iso_ports cs cr b [] []" by auto
  with b'(1) show ?case unfolding rx'_def [symmetric] by (intro exI [of _ rx] exI [of _ b]) simp
qed

lemma net_run_append:
  "net_run cs cr (ls @ ls') s = (case net_run cs cr ls s of None \<Rightarrow> None | Some s \<Rightarrow> net_run cs cr ls' s)"
  by (induction ls arbitrary: s) (simp_all split: option.split)

lemma receiver_gives_up:
  assumes "awaits_cf rx" "iso_ports cs cr b [] []"
  shows "task_step (rcv_task (ic_cfg cr)) (ic_rx cr) clk rx b = None"
    and "task_timeout (rcv_task (ic_cfg cr)) (ic_rx cr) rx b = Some (Rcv_done (Err Timeout))"
proof -
  obtain len buf sn k where rx: "rx = Rcv_cf len buf sn k" using assms(1) by (cases rx) simp_all
  have need: "tk_need (rcv_task (ic_cfg cr)) rx = Need_recv (effective_timeout (ic_cfg cr))"
    by (simp add: rx rcv_task_def rcv_need_def)
  show "task_step (rcv_task (ic_cfg cr)) (ic_rx cr) clk rx b = None"
    using receiver_waits(1) [OF assms(2) need] by simp
  have "fst (recv_poll (vb_store b ! ic_rx cr)) = Pending"
    using assms(2) port_poll [of b "ic_rx cr"] by (auto simp: iso_ports_def)
  then show "task_timeout (rcv_task (ic_cfg cr)) (ic_rx cr) rx b = Some (Rcv_done (Err Timeout))"
    by (simp add: task_timeout_def need) (simp add: rx rcv_task_def rcv_got_def)
qed

text \<open>Up to the flow control frame the two take turns.\<close>

lemma handshake:
  assumes "7 < length p" "length p \<le> 4095" "iso_ports cs cr b [] []"
  shows "\<exists>b' tx rx. net_run cs cr [Tx_runs clk, Rx_runs clk, Rx_runs clk, Tx_runs clk] (net_start b p) =
      Some \<lparr>nt_bus = b', nt_tx = tx, nt_rx = rx\<rparr> \<and>
    at_cf tx \<and> awaits_cf rx \<and> tx_at (ic_cfg cr) p 0 tx \<and> rcv_at (ic_cfg cr) p 0 rx \<and> iso_ports cs cr b' [] []"
proof -
  let ?rc = "ic_cfg cr" and ?tx = "Tx_await 1 (drop 6 p)" and ?fc = "Rcv_fc (length p) (take 6 p) 1"
  have p: "p \<noteq> []" "\<not> length p \<le> 7" using assms(1) by auto
  obtain b1 where b1: "task_step (tx_task (ic_cfg cs)) (ic_rx cs) clk (tx_start p) b = Some (?tx, b1)"
    "iso_ports cs cr b1 [] [make_frame (ic_cfg cs) (ff_segment p)]"
  proof -
    from first_frame_sent [OF p(1) assms(2,3), of clk] obtain b1 tx where
      t: "task_step (tx_task (ic_cfg cs)) (ic_rx cs) clk (tx_start p) b = Some (tx, b1)"
        "net_inv cs cr p \<lparr>nt_bus = b1, nt_tx = tx, nt_rx = Rcv_first\<rparr>" "tx_left tx < tx_left (tx_start p)" by blast
    then show thesis using that p(2) by (auto simp: net_inv_def net_at_def rcv_at_def Let_def)
  qed
  from receiver_waits(2) [OF b1(2) rcv_first_needs refl, where clk = clk] obtain b2 where
    b2: "task_step (rcv_task ?rc) (ic_rx cr) clk Rcv_first b1 = Some (?fc, b2)" "iso_ports cs cr b2 [] []"
    using first_frame_got [OF assms(2)] by (auto simp: rcv_task_def rcv_got_def)
  have at: "net_at cs cr p 0 0 ?tx ?fc b2" using assms(1) b2(2) by (rule transfer_begins)
  then have at0: "tx_at ?rc p 0 ?tx" "rcv_at ?rc p 0 ?fc" by (simp_all add: net_at_def Let_def)
  have fcf: "fc_frame ?rc = make_frame ?rc (cts (block_size ?rc) (st_min ?rc))"
    by (simp add: fc_frame_def cts_def pci_defs)
  have "length (cts (block_size ?rc) (st_min ?rc)) \<le> 8" by (simp add: cts_def)
  from receiver_sends [OF b2(2) _ this rcv_fc_needs [of ?rc "length p" "take 6 p" 1, unfolded fcf], of "ic_rx cr" clk]
  obtain b3 where b3: "task_step (rcv_task ?rc) (ic_rx cr) clk ?fc b2 = Some (tk_sent (rcv_task ?rc) ?fc (Ok ()), b3)"
    "iso_ports cs cr b3 [fc_frame ?rc] []" by (auto simp: fcf)
  have need: "tk_need (tx_task (ic_cfg cs)) ?tx = Need_recv (effective_timeout (ic_cfg cs))"
    by (simp add: tx_task_def tx_need_def)
  from sender_waits(2) [OF b3(2) need refl, where clk = clk] obtain b4 where
    b4: "task_step (tx_task (ic_cfg cs)) (ic_rx cs) clk ?tx b3 = Some (tk_got (tx_task (ic_cfg cs)) ?tx (Ok (fc_frame ?rc)), b4)"
      "iso_ports cs cr b4 [] []" by blast
  note tx = tx_await_got [OF at0(1) refl, of "ic_cfg cs"] and rx = rcv_fc_sent [OF at0(2) refl]
  show ?thesis
    using b1(1) b2(1) b3(1) b4 tx(1,2) rx(1,2) by (auto simp: net_start_def)
qed

section \<open>Properties\<close>

text \<open>
  C3: Two ISO-TP connections with mirrored configurations, opened on an in-process bus that is in any use, transfer
  every payload of 1 to 4095 bytes, provided the receiver's block size or the payload keeps the
  outstanding frames within the 64 frames of a subscription. Whatever the order in which the two tasks and the
  other users of the bus take their turns, as long as no wait times out and nobody else uses the two
  identifiers: the tasks take at most \<open>5 * length p + 4\<close> turns, one of them can always move until both have returned, and then
  \<^verbatim>\<open>send\<close> has returned \<open>Ok\<close> and \<^verbatim>\<open>recv\<close> the payload.
\<close>

theorem isotp_over_virtual:
  assumes "OpClose \<notin> set ops" "mirrored sc rc" "p \<noteq> []" "length p \<le> 4095"
    and "length p \<le> 454 \<or> block_size rc \<noteq> 0 \<and> unat (block_size rc) \<le> 64"
  shows "\<exists>cs b1 cr b2.
    iso_new (vb_subscribe t1) sc (used_bus ops) = (Ok cs, b1) \<and> iso_new (vb_subscribe t2) rc b1 = (Ok cr, b2) \<and>
    (\<forall>ls s. list_all (undisturbed cs cr) ls \<and> net_run cs cr ls (net_start b2 p) = Some s \<longrightarrow>
       length (filter own ls) \<le> 5 * length p + 4 \<and>
       (\<forall>r. nt_tx s = Tx_done r \<longrightarrow> r = Ok ()) \<and> (\<forall>q. nt_rx s = Rcv_done q \<longrightarrow> q = Ok p) \<and>
       (nt_tx s = Tx_done (Ok ()) \<and> nt_rx s = Rcv_done (Ok p) \<or>
        net_step cs cr (Tx_runs clk) s \<noteq> None \<or> net_step cs cr (Rx_runs clk) s \<noteq> None))"
proof -
  from iso_ports_start [OF assms(1,2), of t1 t2] obtain cs b1 cr b2 where
    new: "iso_new (vb_subscribe t1) sc (used_bus ops) = (Ok cs, b1)" "iso_new (vb_subscribe t2) rc b1 = (Ok cr, b2)"
    and cfg: "ic_cfg cr = rc" and ports: "iso_ports cs cr b2 [] []" by blast
  have fits: "fits (block_size (ic_cfg cr)) p" using assms(5) by (auto simp: cfg fits_def cf_total_def)
  have start: "net_inv cs cr p (net_start b2 p)" using ports by (simp add: net_inv_def net_start_def)
  have left: "net_left p (net_start b2 p) \<le> 5 * length p + 4" by (simp add: net_left_def net_start_def tx_start_def)
  have "length (filter own ls) \<le> 5 * length p + 4 \<and>
       (\<forall>r. nt_tx s = Tx_done r \<longrightarrow> r = Ok ()) \<and> (\<forall>q. nt_rx s = Rcv_done q \<longrightarrow> q = Ok p) \<and>
       (nt_tx s = Tx_done (Ok ()) \<and> nt_rx s = Rcv_done (Ok p) \<or>
        net_step cs cr (Tx_runs clk) s \<noteq> None \<or> net_step cs cr (Rx_runs clk) s \<noteq> None)"
    if "list_all (undisturbed cs cr) ls" "net_run cs cr ls (net_start b2 p) = Some s" for ls s
  proof -
    from net_inv_run [OF assms(3,4) fits start that(2,1)] have s: "net_inv cs cr p s"
      "net_left p s + length (filter own ls) \<le> net_left p (net_start b2 p)" by simp_all
    from net_inv_results [OF s(1) assms(3,4)] net_inv_moves [OF s(1) assms(3,4) fits] s(2) left
    show ?thesis by (simp del: net_step.simps)
  qed
  with new show ?thesis by blast
qed

theorem isotp_over_virtual_witness:
  "let sc = iso_default_config; rc = iso_default_config\<lparr>tx_id := 0x7E8, rx_id := 0x7E0, block_size := 2, st_min := 1\<rparr>;
       t = Tx_runs (\<lambda>_. 0); r = Rx_runs (\<lambda>_. 0)
   in \<exists>cs b1 cr b2 s.
     iso_new (vb_subscribe 0) sc vb_new = (Ok cs, b1) \<and> iso_new (vb_subscribe 0) rc b1 = (Ok cr, b2) \<and>
     net_run cs cr [t, r, r, t, t, Others (Arrive (\<lambda>_. 0) (default_frame\<lparr>f_id := 5\<rparr>)), r, t]
       (net_start b2 [1, 2, 3, 4, 5, 6, 7, 8]) = Some s \<and>
     nt_tx s = Tx_done (Ok ()) \<and> nt_rx s = Rcv_done (Ok [1, 2, 3, 4, 5, 6, 7, 8])"
proof -
  let ?sc = iso_default_config and ?rc = "iso_default_config\<lparr>tx_id := 0x7E8, rx_id := 0x7E0, block_size := 2, st_min := 1\<rparr>"
    and ?t = "Tx_runs (\<lambda>_. 0)" and ?r = "Rx_runs (\<lambda>_. 0)" and ?p = "[1, 2, 3, 4, 5, 6, 7, 8 :: u8]"
  let ?ls = "[?t, ?r, ?r, ?t, ?t, Others (Arrive (\<lambda>_. 0) (default_frame\<lparr>f_id := 5\<rparr>)), ?r, ?t]"
  have bus: "used_bus [] = vb_new" by (simp add: used_bus_def)
  have m: "mirrored ?sc ?rc" by (simp add: mirrored_def iso_default_config_def valid_id_def)
  have bound: "length ?p \<le> 454 \<or> block_size ?rc \<noteq> 0 \<and> unat (block_size ?rc) \<le> 64" by simp
  obtain cs b1 cr b2 where new: "iso_new (vb_subscribe 0) ?sc vb_new = (Ok cs, b1)"
      "iso_new (vb_subscribe 0) ?rc b1 = (Ok cr, b2)"
    and all: "\<forall>ls s. list_all (undisturbed cs cr) ls \<and> net_run cs cr ls (net_start b2 ?p) = Some s \<longrightarrow>
       length (filter own ls) \<le> 5 * length ?p + 4 \<and>
       (\<forall>r. nt_tx s = Tx_done r \<longrightarrow> r = Ok ()) \<and> (\<forall>q. nt_rx s = Rcv_done q \<longrightarrow> q = Ok ?p) \<and>
       (nt_tx s = Tx_done (Ok ()) \<and> nt_rx s = Rcv_done (Ok ?p) \<or>
        net_step cs cr ?t s \<noteq> None \<or> net_step cs cr ?r s \<noteq> None)"
    using isotp_over_virtual [OF _ m _ _ bound, of "[]" 0 0 "\<lambda>_. 0", unfolded bus] by auto
  have cs: "cs = \<lparr>ic_cfg = ?sc, ic_rx = 0\<rparr>" and b1: "b1 = \<lparr>vb_store = [sub_new 0 64 DropNewest 0],
      vb_subs = [\<lparr>vs_filters = [iso_filter ?sc], vs_inner = 0\<rparr>], vb_closed = False, vb_counts = zero_metrics\<rparr>"
    using new(1)
    by (simp_all add: iso_new_def vb_subscribe_def vb_new_def iso_default_config_def default_options_def chan_depth_def
        iso_filter_def)
  have cr: "cr = \<lparr>ic_cfg = ?rc, ic_rx = 1\<rparr>" and b2: "b2 = \<lparr>vb_store = [sub_new 0 64 DropNewest 0, sub_new 0 64 DropNewest 0],
      vb_subs = [\<lparr>vs_filters = [iso_filter ?sc], vs_inner = 0\<rparr>, \<lparr>vs_filters = [iso_filter ?rc], vs_inner = 1\<rparr>],
      vb_closed = False, vb_counts = zero_metrics\<rparr>"
    using new(2)
    by (simp_all add: b1 iso_new_def vb_subscribe_def iso_default_config_def default_options_def chan_depth_def
        iso_filter_def)
  have "\<exists>s r q. net_run cs cr ?ls (net_start b2 ?p) = Some s \<and> nt_tx s = Tx_done r \<and> nt_rx s = Rcv_done q"
    by (simp add: cs cr b2 net_start_def tx_start_def task_step_def tx_simps rcv_simps rcv_got_first_def rcv_got_cf_def
        rcv_head_def tx_head_def tx_round_end_def make_frame_def iso_default_config_def default_frame_def effective_timeout_def
        vb_send_def validate_frame_def frame_consts CAN_MAX_STD_ID_def CAN_MAX_EXT_ID_def broadcast_def gc_def vsub_matches_def
        iso_filter_def filter_matches_def recv_poll_eq vb_update_def sub_push_def sub_new_def rate_admit_def pci_defs
        st_min_to_duration_def millis_def numeral_2_eq_2 [symmetric])
  moreover have "list_all (undisturbed cs cr) ?ls"
    by (simp add: cs cr iso_filter_def filter_matches_def iso_default_config_def default_frame_def)
  ultimately show ?thesis using new all unfolding Let_def by blast
qed

text \<open>
  C4: With block size 0, the default, a payload of more than 454 bytes can be lost on the in-process bus although nobody
  disturbs the transfer: if the receiver's task does not get a turn between its flow control frame and the end
  of the burst, the queue of its connection keeps the first 64 consecutive frames and drops the rest.
  \<^verbatim>\<open>send\<close> returns \<open>Ok\<close>; the receiver takes the 64 frames and then waits for the next one until it times out.
\<close>

theorem isotp_burst_lost:
  assumes "OpClose \<notin> set ops" "mirrored sc rc" "454 < length p" "length p \<le> 4095" "block_size rc = 0"
  shows "\<exists>cs b1 cr b2 n s.
    iso_new (vb_subscribe t1) sc (used_bus ops) = (Ok cs, b1) \<and> iso_new (vb_subscribe t2) rc b1 = (Ok cr, b2) \<and>
    net_run cs cr ([Tx_runs clk, Rx_runs clk, Rx_runs clk, Tx_runs clk] @ replicate n (Tx_runs clk) @ replicate 64 (Rx_runs clk))
      (net_start b2 p) = Some s \<and>
    nt_tx s = Tx_done (Ok ()) \<and> net_step cs cr (Rx_runs clk) s = None \<and>
    net_step cs cr Rx_times_out s = Some (s\<lparr>nt_rx := Rcv_done (Err Timeout)\<rparr>)"
proof -
  from iso_ports_start [OF assms(1,2), of t1 t2] obtain cs b1 cr b2 where
    new: "iso_new (vb_subscribe t1) sc (used_bus ops) = (Ok cs, b1)" "iso_new (vb_subscribe t2) rc b1 = (Ok cr, b2)"
    and cfg: "ic_cfg cr = rc" and ports: "iso_ports cs cr b2 [] []" by blast
  have bs: "block_size (ic_cfg cr) = 0" using assms(5) by (simp add: cfg)
  have len: "7 < length p" "64 < cf_total p" using assms(3) by (simp_all add: cf_total_def)
  from handshake [OF len(1) assms(4) ports, of clk] obtain b3 tx rx where
    h: "net_run cs cr [Tx_runs clk, Rx_runs clk, Rx_runs clk, Tx_runs clk] (net_start b2 p) =
        Some \<lparr>nt_bus = b3, nt_tx = tx, nt_rx = rx\<rparr>"
      "at_cf tx" "awaits_cf rx" "tx_at (ic_cfg cr) p 0 tx" "rcv_at (ic_cfg cr) p 0 rx" "iso_ports cs cr b3 [] []" by blast
  have "overrun cs cr p 0 tx b3" using h(2,4,6) by (simp add: overrun_def)
  with overrun_run [of cs cr p 0 "\<lparr>nt_bus = b3, nt_tx = tx, nt_rx = rx\<rparr>" clk] bs len(2) obtain n b4 where
    t: "net_run cs cr (replicate n (Tx_runs clk)) \<lparr>nt_bus = b3, nt_tx = tx, nt_rx = rx\<rparr> =
        Some \<lparr>nt_bus = b4, nt_tx = Tx_done (Ok ()), nt_rx = rx\<rparr>"
      "iso_ports cs cr b4 [] (map (\<lambda>k. make_frame (ic_cfg cs) (cf_bytes p k)) [0..<64])"
    by auto
  from drain_run [of cr p 0 "\<lparr>nt_bus = b4, nt_tx = Tx_done (Ok ()), nt_rx = rx\<rparr>" 64 cs clk] h(3,5) bs len(2) t(2)
  obtain rx' b5 where
    r: "net_run cs cr (replicate 64 (Rx_runs clk)) \<lparr>nt_bus = b4, nt_tx = Tx_done (Ok ()), nt_rx = rx\<rparr> =
        Some \<lparr>nt_bus = b5, nt_tx = Tx_done (Ok ()), nt_rx = rx'\<rparr>" "awaits_cf rx'" "iso_ports cs cr b5 [] []"
    by auto
  let ?s = "\<lparr>nt_bus = b5, nt_tx = Tx_done (Ok ()), nt_rx = rx'\<rparr>"
  note stuck = receiver_gives_up [OF r(2,3)]
  have "net_run cs cr ([Tx_runs clk, Rx_runs clk, Rx_runs clk, Tx_runs clk] @ replicate n (Tx_runs clk) @ replicate 64 (Rx_runs clk))
      (net_start b2 p) = Some ?s"
    unfolding net_run_append h(1) option.case t(1) r(1) ..
  with new stuck show ?thesis
    by (intro exI [of _ cs] exI [of _ b1] exI [of _ cr] exI [of _ b2] exI [of _ n] exI [of _ ?s])
      (simp del: net_run.simps append.simps)
qed

theorem isotp_burst_lost_witness:
  "\<exists>cs b1 cr b2 n s.
    iso_new (vb_subscribe 0) iso_default_config vb_new = (Ok cs, b1) \<and>
    iso_new (vb_subscribe 0) (iso_default_config\<lparr>tx_id := 0x7E8, rx_id := 0x7E0\<rparr>) b1 = (Ok cr, b2) \<and>
    net_run cs cr ([Tx_runs (\<lambda>_. 0), Rx_runs (\<lambda>_. 0), Rx_runs (\<lambda>_. 0), Tx_runs (\<lambda>_. 0)] @
        replicate n (Tx_runs (\<lambda>_. 0)) @ replicate 64 (Rx_runs (\<lambda>_. 0)))
      (net_start b2 (replicate 500 7)) = Some s \<and>
    nt_tx s = Tx_done (Ok ()) \<and> net_step cs cr (Rx_runs (\<lambda>_. 0)) s = None \<and>
    net_step cs cr Rx_times_out s = Some (s\<lparr>nt_rx := Rcv_done (Err Timeout)\<rparr>)"
proof -
  have "used_bus [] = vb_new" by (simp add: used_bus_def)
  moreover have "mirrored iso_default_config (iso_default_config\<lparr>tx_id := 0x7E8, rx_id := 0x7E0\<rparr>)"
    by (simp add: mirrored_def iso_default_config_def valid_id_def)
  moreover have "block_size (iso_default_config\<lparr>tx_id := 0x7E8, rx_id := 0x7E0\<rparr>) = 0"
    by (simp add: iso_default_config_def)
  ultimately show ?thesis
    using isotp_burst_lost [of "[]" iso_default_config "iso_default_config\<lparr>tx_id := 0x7E8, rx_id := 0x7E0\<rparr>"
        "replicate 500 7" 0 0 "\<lambda>_. 0"]
    by (simp only: list.set empty_iff not_False_eq_True length_replicate numeral_less_iff numeral_le_iff num.simps
        less_num_simps le_num_simps simp_thms)
qed

end
