(* ===== verification/Can_J1939.thy ===== *)
theory Can_J1939
  imports Can_Bus_Contract
begin

text \<open>
  SAE J1939 over a bus (\<^verbatim>\<open>src/j1939/mod.rs\<close>): the fields of the 29-bit identifier, the bus wrapper and
  the receiver, which skips the frames that are not J1939 or not of a wanted parameter group.
\<close>

section \<open>The code\<close>

definition BROADCAST_ADDR :: u8 where "BROADCAST_ADDR = 0xFF"
definition NULL_ADDR :: u8 where "NULL_ADDR = 0xFE"

datatype priority = Priority u8

definition priority_default :: priority where
  "priority_default = Priority 6"

fun priority_value :: "priority \<Rightarrow> u8" where
  "priority_value (Priority p) = p AND 0x07"

text \<open>The derived order of the priority: 0 is the highest.\<close>

fun priority_le :: "priority \<Rightarrow> priority \<Rightarrow> bool" where
  "priority_le (Priority a) (Priority b) \<longleftrightarrow> a \<le> b"

instantiation priority :: linorder
begin

definition less_eq_priority :: "priority \<Rightarrow> priority \<Rightarrow> bool" where
  "less_eq_priority = priority_le"

definition less_priority :: "priority \<Rightarrow> priority \<Rightarrow> bool" where
  "less_priority p q \<longleftrightarrow> priority_le p q \<and> \<not> priority_le q p"

instance
proof
  fix p q r :: priority
  show "(p < q) = (p \<le> q \<and> \<not> q \<le> p)" "p \<le> p" "p \<le> q \<or> q \<le> p"
    by (cases p; cases q; auto simp: less_eq_priority_def less_priority_def)+
  show "p \<le> q \<Longrightarrow> q \<le> r \<Longrightarrow> p \<le> r" "p \<le> q \<Longrightarrow> q \<le> p \<Longrightarrow> p = q"
    by (cases p; cases q; cases r; simp add: less_eq_priority_def)+
qed

end

datatype pgn = Pgn u32

fun is_peer_to_peer :: "pgn \<Rightarrow> bool" where
  "is_peer_to_peer (Pgn p) = ((ucast (drop_bit 8 p AND 0xFF) :: u8) < 240)"

fun pgn_display :: "pgn \<Rightarrow> string" where
  "pgn_display (Pgn p) = ''PGN(0x'' @ pad_left 4 (show_hex (unat p)) @ '')''"

record j1939_frame =
  j_priority :: priority
  j_pgn :: pgn
  j_src :: u8
  j_dst :: u8
  j_data :: bytes

definition decode_id :: "u32 \<Rightarrow> priority \<times> pgn \<times> u8" where
  "decode_id i =
     (let prio = Priority (ucast (drop_bit 26 i) AND 0x07);
          src = ucast (i AND 0xFF);
          pf = (ucast (drop_bit 16 i AND 0xFF) :: u8);
          ps = (ucast (drop_bit 8 i AND 0xFF) :: u8);
          dp = (ucast (drop_bit 24 i AND 0x01) :: u8);
          edp = (ucast (drop_bit 25 i AND 0x01) :: u8);
          pgn = (if pf < 240
                 then Pgn (push_bit 17 (ucast edp) OR push_bit 16 (ucast dp) OR push_bit 8 (ucast pf))
                 else Pgn (push_bit 17 (ucast edp) OR push_bit 16 (ucast dp) OR push_bit 8 (ucast pf) OR ucast ps))
      in (prio, pgn, src))"

fun encode_id :: "priority \<Rightarrow> pgn \<Rightarrow> u8 \<Rightarrow> u8 \<Rightarrow> u32" where
  "encode_id prio (Pgn p) src dst =
     (let pf = (ucast (drop_bit 8 p AND 0xFF) :: u8);
          ps = (ucast (p AND 0xFF) :: u8);
          dp = (ucast (drop_bit 16 p AND 0x01) :: u8);
          edp = (ucast (drop_bit 17 p AND 0x01) :: u8);
          i = 0;
          i = i OR push_bit 26 (ucast (priority_value prio));
          i = i OR push_bit 25 (ucast edp);
          i = i OR push_bit 24 (ucast dp);
          i = i OR push_bit 16 (ucast pf);
          i = (if pf \<ge> 240 then i OR push_bit 8 (ucast ps) else i OR push_bit 8 (ucast dst));
          i = i OR ucast src
      in i)"

text \<open>
  The wrapper holds the bus and this node's address; what it sends and subscribes goes to the bus. The
  receiver holds a subscription without filters and the wanted parameter groups.
\<close>

definition j1939_to_frame :: "u8 \<Rightarrow> j1939_frame \<Rightarrow> frame" where
  "j1939_to_frame source_address f =
     default_frame\<lparr>f_id := encode_id (j_priority f) (j_pgn f) source_address (j_dst f), f_ext := True,
       f_data := j_data f\<rparr>"

definition j1939_send ::
    "(frame \<Rightarrow> 'b \<Rightarrow> (can_error, unit) result \<times> 'b) \<Rightarrow> u8 \<Rightarrow> j1939_frame \<Rightarrow> 'b \<Rightarrow>
     (can_error, unit) result \<times> 'b" where
  "j1939_send send source_address f b = send (j1939_to_frame source_address f) b"

definition j1939_subscribe ::
    "(can_filter list \<Rightarrow> subscriber_options \<Rightarrow> 'b \<Rightarrow> (can_error, nat) result \<times> 'b) \<Rightarrow> pgn list \<Rightarrow>
     subscriber_options \<Rightarrow> 'b \<Rightarrow> (can_error, nat \<times> pgn list) result \<times> 'b" where
  "j1939_subscribe subscribe pgns opts b =
     (case subscribe [] opts b of
        (Err e, b) \<Rightarrow> (Err e, b)
      | (Ok rx, b) \<Rightarrow> (Ok (rx, pgns), b))"

definition j1939_close :: "('b \<Rightarrow> (can_error, unit) result \<times> 'b) \<Rightarrow> 'b \<Rightarrow> (can_error, unit) result \<times> 'b" where
  "j1939_close close b = close b"

definition j1939_receiver_close :: "sub_inner \<Rightarrow> sub_inner" where
  "j1939_receiver_close rx = sub_close rx"

text \<open>What the body of the loop of \<^verbatim>\<open>recv\<close> makes of one frame; \<open>None\<close> is \<^verbatim>\<open>continue\<close>.\<close>

definition j1939_decode :: "pgn list \<Rightarrow> frame \<Rightarrow> j1939_frame option" where
  "j1939_decode pgns f =
     (if \<not> f_ext f then None
      else let (prio, p, src) = decode_id (f_id f)
           in if pgns \<noteq> [] \<and> \<not> List.member pgns p then None
              else let dst = (if is_peer_to_peer p then ucast (drop_bit 8 (f_id f) AND 0xFF) else BROADCAST_ADDR)
                   in Some \<lparr>j_priority = prio, j_pgn = p, j_src = src, j_dst = dst, j_data = f_data f\<rparr>)"

lemma recv_poll_shrinks: "recv_poll s = (Ready (Some f), s') \<Longrightarrow> length (si_queue s') < length (si_queue s)"
  by (auto simp: recv_poll_eq split: list.splits if_splits)

function j1939_recv :: "pgn list \<Rightarrow> sub_inner \<Rightarrow> j1939_frame option poll \<times> sub_inner" where
  "j1939_recv pgns s =
     (case recv_poll s of
        (Pending, s) \<Rightarrow> (Pending, s)
      | (Ready None, s) \<Rightarrow> (Ready None, s)
      | (Ready (Some f), s) \<Rightarrow>
          (case j1939_decode pgns f of
             None \<Rightarrow> j1939_recv pgns s
           | Some j \<Rightarrow> (Ready (Some j), s)))"
  by pat_completeness auto
termination
  by (relation "measure (\<lambda>(pgns, s). length (si_queue s))") (auto dest: recv_poll_shrinks [OF sym])

declare j1939_recv.simps [simp del]

section \<open>The identifier\<close>

lemma and_masks:
  "(w :: u32) AND 0xFF = take_bit 8 w" "w AND 0x01 = take_bit 1 w" "(b :: u8) AND 0x07 = take_bit 3 b"
  by (simp_all add: take_bit_eq_mask mask_eq_exp_minus_1)

text \<open>A field of a byte or of one bit, put into the identifier and read from it.\<close>

lemma bit_put:
  assumes "n < 32"
  shows "bit (push_bit k (ucast (b :: u8)) :: u32) n \<longleftrightarrow> k \<le> n \<and> n < k + 8 \<and> bit b (n - k)"
  using assms bit_imp_le_length [of b "n - k"] by (auto simp: bit_simps)

lemma bit_get:
  "bit (ucast (w :: u32) :: u8) n \<longleftrightarrow> n < 8 \<and> bit w n"
  "bit ((w :: u32) AND 0xFF) n \<longleftrightarrow> n < 8 \<and> bit w n"
  "bit ((w :: u32) AND 0x01) n \<longleftrightarrow> n = 0 \<and> bit w n"
  "bit (drop_bit k (w :: u32)) n \<longleftrightarrow> bit w (n + k)"
  by (auto simp: and_masks bit_simps add.commute) (simp add: bit_0)

lemma bit_low3: "bit ((b :: u8) AND 0x07) n \<longleftrightarrow> n < 3 \<and> bit b n"
  by (auto simp: and_masks bit_simps)

lemma bit_put0: "n < 32 \<Longrightarrow> bit (ucast (b :: u8) :: u32) n \<longleftrightarrow> n < 8 \<and> bit b n"
  using bit_put [of n 0 b] by simp

lemmas bit_fields = bit_or_iff bit_put bit_put0 bit_get bit_low3

text \<open>The bits of an encoded identifier, field by field.\<close>

lemma field_cases:
  obtains "n < 8" | m where "n = m + 8" "m < 8" | m where "n = m + 16" "m < 8" | "n = 24" | "n = 25"
    | m where "n = m + 26" "m < 3" | m where "n = m + (29 :: nat)"
proof -
  have "n < 8 \<or> (\<exists>m < 8. n = m + 8) \<or> (\<exists>m < 8. n = m + 16) \<or> n = 24 \<or> n = 25 \<or> (\<exists>m < 3. n = m + 26) \<or> (\<exists>m. n = m + 29)"
    by presburger
  then show thesis using that by blast
qed

lemma bit_encode_id:
  assumes "n < 32"
  shows "bit (encode_id (Priority q) (Pgn p) src dst) n \<longleftrightarrow>
    (if n < 8 then bit src n
     else if n < 16 then (if is_peer_to_peer (Pgn p) then bit dst (n - 8) else bit p (n - 8))
     else if n < 26 then bit p (n - 8)
     else n < 29 \<and> bit q (n - 26))"
proof -
  have p2p: "(240 \<le> (ucast (drop_bit 8 p AND 0xFF) :: u8)) = (\<not> is_peer_to_peer (Pgn p))"
    by (simp add: not_less)
  show ?thesis
    unfolding encode_id.simps priority_value.simps Let_def p2p or.left_neutral
    using assms
    by (cases rule: field_cases [of n])
      (simp_all add: bit_fields add.commute del: is_peer_to_peer.simps)
qed

lemma bit_decode_pgn:
  assumes "n < 32" "decode_id i = (prio, Pgn p, src)"
  shows "bit p n \<longleftrightarrow> n < 18 \<and> bit i (n + 8) \<and> (8 \<le> n \<or> 240 \<le> (ucast (drop_bit 16 i AND 0xFF) :: u8))"
proof -
  have "p = push_bit 17 (ucast (ucast (drop_bit 25 i AND 0x01) :: u8)) OR push_bit 16 (ucast (ucast (drop_bit 24 i AND 0x01) :: u8)) OR
      push_bit 8 (ucast (ucast (drop_bit 16 i AND 0xFF) :: u8)) OR
      (if 240 \<le> (ucast (drop_bit 16 i AND 0xFF) :: u8) then ucast (ucast (drop_bit 8 i AND 0xFF) :: u8) else 0)"
    using assms(2) by (simp only: decode_id_def Let_def) (auto simp: not_less split: if_splits)
  then show ?thesis
    using assms(1)
    by (cases "240 \<le> (ucast (drop_bit 16 i AND 0xFF) :: u8)"; cases rule: field_cases [of "n + 8"])
      (simp_all add: bit_fields add.commute)
qed

lemma encode_pf:
  "(ucast (drop_bit 16 (encode_id (Priority q) (Pgn p) src dst) AND 0xFF) :: u8) = ucast (drop_bit 8 p AND 0xFF)"
proof (rule bit_word_eqI)
  fix n assume "n < LENGTH(8)"
  then show "bit (ucast (drop_bit 16 (encode_id (Priority q) (Pgn p) src dst) AND 0xFF) :: u8) n =
      bit (ucast (drop_bit 8 p AND 0xFF) :: u8) n"
    by (simp only: bit_get) (auto simp: bit_encode_id add.commute simp del: encode_id.simps)
qed

lemma encode_src: "(ucast (encode_id (Priority q) (Pgn p) src dst AND 0xFF) :: u8) = src"
  by (rule bit_word_eqI) (simp add: bit_get bit_encode_id del: encode_id.simps)

lemma encode_prio:
  "(ucast (drop_bit 26 (encode_id (Priority q) (Pgn p) src dst)) AND 0x07 :: u8) = q AND 0x07"
  by (rule bit_word_eqI, simp only: bit_get bit_low3) (auto simp: bit_encode_id simp del: encode_id.simps)

lemma encode_ps:
  "(ucast (drop_bit 8 (encode_id (Priority q) (Pgn p) src dst) AND 0xFF) :: u8) =
     (if is_peer_to_peer (Pgn p) then dst else ucast (p AND 0xFF))"
proof (rule bit_word_eqI)
  fix n assume "n < LENGTH(8)"
  then show "bit (ucast (drop_bit 8 (encode_id (Priority q) (Pgn p) src dst) AND 0xFF) :: u8) n =
      bit (if is_peer_to_peer (Pgn p) then dst else ucast (p AND 0xFF)) n"
    by (cases "is_peer_to_peer (Pgn p)"; simp only: bit_get if_True if_False)
      (auto simp: bit_encode_id simp del: encode_id.simps is_peer_to_peer.simps)
qed

lemma bit_bounded: "unat (w :: u32) < 2 ^ k \<Longrightarrow> bit w n \<Longrightarrow> n < k"
  using bit_take_bit_iff [of k w n] by (metis take_bit_self_iff)

text \<open>The parameter groups that exist: 18 bits, and no low byte when the message has a destination.\<close>

definition wf_pgn :: "pgn \<Rightarrow> bool" where
  "wf_pgn p = (case p of Pgn w \<Rightarrow> unat w < 2 ^ 18 \<and> (\<not> is_peer_to_peer p \<or> w AND 0xFF = 0))"

lemma decode_pgn_p2p: "is_peer_to_peer (fst (snd (decode_id i))) = ((ucast (drop_bit 16 i AND 0xFF) :: u8) < 240)"
proof -
  obtain prio p src where d: "decode_id i = (prio, Pgn p, src)"
    by (metis pgn.exhaust prod.exhaust)
  have "(ucast (drop_bit 8 p AND 0xFF) :: u8) = ucast (drop_bit 16 i AND 0xFF)"
  proof (rule bit_word_eqI)
    fix n assume "n < LENGTH(8)"
    then show "bit (ucast (drop_bit 8 p AND 0xFF) :: u8) n = bit (ucast (drop_bit 16 i AND 0xFF) :: u8) n"
      by (simp only: bit_get) (auto simp: bit_decode_pgn [OF _ d] add.commute)
  qed
  then show ?thesis by (simp add: d)
qed

lemma decode_encode:
  assumes "wf_pgn (Pgn p)" "q < 8"
  shows "decode_id (encode_id (Priority q) (Pgn p) src dst) = (Priority q, Pgn p, src)"
proof -
  let ?i = "encode_id (Priority q) (Pgn p) src dst"
  obtain prio p' src' where d: "decode_id ?i = (prio, Pgn p', src')"
    by (metis pgn.exhaust prod.exhaust)
  have "q AND 0x07 = q"
    using assms(2) by (simp add: and_masks take_bit_self_iff word_less_nat_alt)
  then have "prio = Priority q" "src' = src"
    using d encode_prio [of q p src dst] encode_src [of q p src dst]
    by (auto simp: decode_id_def Let_def simp del: encode_id.simps)
  moreover have "p' = p"
  proof (rule bit_word_eqI)
    fix n assume n: "n < LENGTH(32)"
    have p18: "bit p n \<Longrightarrow> n < 18" using assms(1) bit_bounded [of p 18 n] by (simp add: wf_pgn_def)
    have low: "\<not> bit p n" if "n < 8" "is_peer_to_peer (Pgn p)"
    proof -
      have "bit (p AND 0xFF) n = bit p n" using that(1) by (simp add: and_masks bit_take_bit_iff)
      then show ?thesis using assms(1) that(2) by (simp add: wf_pgn_def)
    qed
    have pf: "240 \<le> (ucast (drop_bit 16 ?i AND 0xFF) :: u8) \<longleftrightarrow> \<not> is_peer_to_peer (Pgn p)"
      unfolding encode_pf by (simp add: not_less)
    from bit_decode_pgn [OF _ d, of n] n have
      "bit p' n \<longleftrightarrow> n < 18 \<and> bit ?i (n + 8) \<and> (8 \<le> n \<or> \<not> is_peer_to_peer (Pgn p))"
      unfolding pf by simp
    also have "\<dots> \<longleftrightarrow> n < 18 \<and> bit p n \<and> (8 \<le> n \<or> \<not> is_peer_to_peer (Pgn p))"
      by (cases "n < 18") (auto simp: bit_encode_id simp del: encode_id.simps is_peer_to_peer.simps)
    also have "\<dots> \<longleftrightarrow> bit p n" using p18 low by (auto simp: not_le)
    finally show "bit p' n = bit p n" .
  qed
  ultimately show ?thesis using d by simp
qed

lemma encode_decode:
  assumes "unat i < 2 ^ 29" "decode_id i = (prio, p, src)"
  shows "encode_id prio p src (ucast (drop_bit 8 i AND 0xFF)) = i"
proof (rule bit_word_eqI)
  fix n assume n: "n < LENGTH(32)"
  obtain w where w: "p = Pgn w" by (cases p)
  obtain q where q: "prio = Priority q" by (cases prio)
  have q': "q = ucast (drop_bit 26 i) AND 0x07" and src: "src = ucast (i AND 0xFF)"
    using assms(2) q by (auto simp: decode_id_def Let_def)
  have d: "decode_id i = (prio, Pgn w, src)" using assms(2) w by simp
  have p2p: "is_peer_to_peer (Pgn w) = ((ucast (drop_bit 16 i AND 0xFF) :: u8) < 240)"
    using decode_pgn_p2p [of i] d by simp
  have high: "bit i n \<Longrightarrow> n < 29" using assms(1) bit_bounded [of i 29 n] by simp
  show "bit (encode_id prio p src (ucast (drop_bit 8 i AND 0xFF))) n = bit i n"
    using n high bit_decode_pgn [OF _ d, of "n - 8"] unfolding w q q' src
    by (cases rule: field_cases [of n])
      (auto simp: bit_encode_id bit_get bit_low3 p2p not_less add.commute
        simp del: encode_id.simps is_peer_to_peer.simps)
qed

lemma encode_bound: "unat (encode_id prio p src dst) < 2 ^ 29"
proof -
  obtain q w where "prio = Priority q" "p = Pgn w" by (cases prio, cases p)
  then have "take_bit 29 (encode_id prio p src dst) = encode_id prio p src dst"
    by (intro bit_word_eqI) (auto simp: bit_take_bit_iff bit_encode_id simp del: encode_id.simps)
  then show ?thesis by (simp only: take_bit_self_iff)
qed

section \<open>Receiving\<close>

fun j1939_run :: "pgn list \<Rightarrow> nat \<Rightarrow> sub_inner \<Rightarrow> j1939_frame option poll list" where
  "j1939_run pgns 0 s = []"
| "j1939_run pgns (Suc n) s = (let (r, s') = j1939_recv pgns s in r # j1939_run pgns n s')"

lemma j1939_recv_spec:
  "fst (j1939_recv pgns s) =
     (case List.map_filter (j1939_decode pgns) (si_queue s) of
        [] \<Rightarrow> (if si_closed s then Ready None else Pending) | j # js \<Rightarrow> Ready (Some j))"
  "List.map_filter (j1939_decode pgns) (si_queue (snd (j1939_recv pgns s))) =
     tl (List.map_filter (j1939_decode pgns) (si_queue s))"
  "si_closed (snd (j1939_recv pgns s)) = si_closed s"
proof (induction pgns s rule: j1939_recv.induct)
  case (1 pgns s)
  {
    case 1
    show ?case
      using "1.IH"(1)
      by (cases "si_queue s") (auto simp: j1939_recv.simps [of pgns s] recv_poll_eq map_filter_simps split: option.splits)
  next
    case 2
    show ?case
      using "1.IH"(2)
      by (cases "si_queue s") (auto simp: j1939_recv.simps [of pgns s] recv_poll_eq map_filter_simps split: option.splits)
  next
    case 3
    show ?case
      using "1.IH"(3)
      by (cases "si_queue s") (auto simp: j1939_recv.simps [of pgns s] recv_poll_eq split: option.splits)
  }
qed

text \<open>
  A J1939 frame that is sent and received keeps its priority, parameter group and data, carries the
  sender's own address, and its destination if it is peer-to-peer, the broadcast address otherwise; a
  receiver gets it exactly if it wants all groups or this one. With at most 8 bytes it is a valid frame.
\<close>

theorem j1939_transfer:
  assumes "wf_pgn (j_pgn f)" "j_priority f < Priority 8"
  shows "j1939_decode pgns (j1939_to_frame addr f) =
      (if pgns = [] \<or> j_pgn f \<in> set pgns
       then Some (f\<lparr>j_src := addr, j_dst := if is_peer_to_peer (j_pgn f) then j_dst f else BROADCAST_ADDR\<rparr>)
       else None) \<and>
    wf_frame (j1939_to_frame addr f) = (length (j_data f) \<le> 8)"
proof -
  obtain q where q: "j_priority f = Priority q" by (cases "j_priority f")
  obtain p where p: "j_pgn f = Pgn p" by (cases "j_pgn f")
  have "q < 8" using assms(2) by (simp add: q less_priority_def not_le)
  note d = decode_encode [OF assms(1) [unfolded p] this, of addr "j_dst f"]
  have "wf_frame (j1939_to_frame addr f) = (length (j_data f) \<le> 8)"
    using encode_bound [of "j_priority f" "j_pgn f" addr "j_dst f"]
    by (simp add: wf_frame_def wf_classic_def wf_fd_def wf_xl_def wf_id_def j1939_to_frame_def default_frame_def)
  moreover have "f_id (j1939_to_frame addr f) = encode_id (Priority q) (Pgn p) addr (j_dst f)"
    by (simp add: j1939_to_frame_def q p del: encode_id.simps)
  ultimately show ?thesis
    using d encode_ps [of q p addr "j_dst f"] q p
    by (simp add: j1939_decode_def j1939_to_frame_def del: encode_id.simps is_peer_to_peer.simps)
qed

section \<open>Properties\<close>

text \<open>
  C25: Encoding then decoding a J1939 identifier gives back the priority, the parameter group and the
  source, and the PDU-specific byte holds the destination of a peer-to-peer message and the group
  extension of a broadcast; the identifier fits 29 bits.
\<close>

theorem j1939_encode_decode:
  assumes "wf_pgn (Pgn p)" "q < 8"
  shows "let i = encode_id (Priority q) (Pgn p) src dst
         in decode_id i = (Priority q, Pgn p, src) \<and>
            ucast (drop_bit 8 i AND 0xFF) = (if is_peer_to_peer (Pgn p) then dst else ucast (p AND 0xFF)) \<and>
            unat i < 2 ^ 29"
  using decode_encode [OF assms] encode_ps [of q p src dst] encode_bound [of "Priority q" "Pgn p" src dst]
  by (simp only: Let_def simp_thms)

theorem j1939_encode_decode_witness:
  "decode_id (encode_id (Priority 6) (Pgn 0xEA00) 0x21 0x55) = (Priority 6, Pgn 0xEA00, 0x21) \<and>
   decode_id (encode_id (Priority 3) (Pgn 0x1F005) 0x21 0x55) = (Priority 3, Pgn 0x1F005, 0x21)"
  using j1939_encode_decode [of "0xEA00" 6 "0x21" "0x55"] j1939_encode_decode [of "0x1F005" 3 "0x21" "0x55"]
  by (simp only: Let_def) (simp add: wf_pgn_def word_less_nat_alt)

text \<open>
  Decoding loses nothing of a 29-bit identifier: encoding the decoded fields, with the PDU-specific
  byte as the destination, gives the identifier back.
\<close>

theorem j1939_decode_encode:
  assumes "unat i < 2 ^ 29"
  shows "let (prio, p, src) = decode_id i in encode_id prio p src (ucast (drop_bit 8 i AND 0xFF)) = i"
proof -
  obtain prio p src where "decode_id i = (prio, p, src)" by (metis prod.exhaust)
  with encode_decode [OF assms this] show ?thesis by simp
qed

theorem j1939_decode_encode_witness:
  "let (prio, p, src) = decode_id 0x18FEF121 in encode_id prio p src 0xF1 = 0x18FEF121"
  using j1939_decode_encode [of "0x18FEF121"] by simp

theorem j1939_transfer_witness:
  "j1939_decode [Pgn 0xEA00] (j1939_to_frame 0x21
     \<lparr>j_priority = Priority 6, j_pgn = Pgn 0xEA00, j_src = 0, j_dst = 0x55, j_data = [1, 2, 3]\<rparr>) =
   Some \<lparr>j_priority = Priority 6, j_pgn = Pgn 0xEA00, j_src = 0x21, j_dst = 0x55, j_data = [1, 2, 3]\<rparr>"
  using j1939_transfer [of "\<lparr>j_priority = Priority 6, j_pgn = Pgn 0xEA00, j_src = 0, j_dst = 0x55, j_data = [1, 2, 3]\<rparr>"
      "[Pgn 0xEA00]" "0x21"]
  by (simp add: wf_pgn_def less_priority_def)

text \<open>
  Receiving from a J1939 subscription returns, in order, exactly the queued frames that are
  extended and of a wanted parameter group, decoded; the others are skipped and never end the stream.
\<close>

theorem j1939_recv_drains:
  "let js = List.map_filter (j1939_decode pgns) (si_queue s)
   in j1939_run pgns (length js + n) s =
      map (\<lambda>j. Ready (Some j)) js @ replicate n (if si_closed s then Ready None else Pending)"
proof -
  have "List.map_filter (j1939_decode pgns) (si_queue s) = js \<Longrightarrow> j1939_run pgns (length js + n) s =
      map (\<lambda>j. Ready (Some j)) js @ replicate n (if si_closed s then Ready None else Pending)" for js
  proof (induction js arbitrary: s)
    case Nil
    then show ?case using j1939_recv_spec [of pgns]
      by (induction n arbitrary: s) (simp_all add: case_prod_unfold Let_def)
  next
    case (Cons j js)
    then show ?case using j1939_recv_spec [of pgns s] by (simp add: case_prod_unfold Let_def)
  qed
  then show ?thesis by simp
qed

text \<open>A receiver that is closed still hands out what is queued, and then the end of the stream.\<close>

lemma j1939_receiver_close_drains:
  "let js = List.map_filter (j1939_decode pgns) (si_queue s)
   in j1939_run pgns (length js + n) (j1939_receiver_close s) = map (\<lambda>j. Ready (Some j)) js @ replicate n (Ready None)"
  using j1939_recv_drains [of pgns "j1939_receiver_close s" n] by (simp add: j1939_receiver_close_def sub_close_def Let_def)

end
