(* ===== verification/Can_Uds.thy ===== *)
theory Can_Uds
  imports Can_Isotp_Sound
begin

text \<open>
  The UDS client of \<^verbatim>\<open>src/uds/mod.rs\<close> over an ISO-TP connection: a request is sent, the answers
  "response pending" are waited out up to a bound, and each service checks the final answer. The client
  holds nothing but its connection, so an operation takes the configuration and the link of it.
\<close>

section \<open>The code\<close>

definition SID_DIAGNOSTIC_SESSION_CONTROL :: u8 where "SID_DIAGNOSTIC_SESSION_CONTROL = 0x10"
definition SID_ECU_RESET :: u8 where "SID_ECU_RESET = 0x11"
definition SID_READ_DID :: u8 where "SID_READ_DID = 0x22"
definition SID_SECURITY_ACCESS :: u8 where "SID_SECURITY_ACCESS = 0x27"
definition SID_WRITE_DID :: u8 where "SID_WRITE_DID = 0x2E"
definition SID_TESTER_PRESENT :: u8 where "SID_TESTER_PRESENT = 0x3E"
definition SID_NEGATIVE_RESPONSE :: u8 where "SID_NEGATIVE_RESPONSE = 0x7F"
definition POSITIVE_RESPONSE_OFFSET :: u8 where "POSITIVE_RESPONSE_OFFSET = 0x40"
definition NRC_RESPONSE_PENDING :: u8 where "NRC_RESPONSE_PENDING = 0x78"
definition MAX_RESPONSE_PENDING_RETRIES :: nat where "MAX_RESPONSE_PENDING_RETRIES = 16"

lemmas sid_defs = SID_DIAGNOSTIC_SESSION_CONTROL_def SID_ECU_RESET_def SID_READ_DID_def SID_SECURITY_ACCESS_def
  SID_WRITE_DID_def SID_TESTER_PRESENT_def SID_NEGATIVE_RESPONSE_def POSITIVE_RESPONSE_OFFSET_def
  NRC_RESPONSE_PENDING_def

datatype session_type = DefaultSession | Programming | Extended

fun session_u8 :: "session_type \<Rightarrow> u8" where
  "session_u8 DefaultSession = 0x01"
| "session_u8 Programming = 0x02"
| "session_u8 Extended = 0x03"

datatype reset_type = Hard | KeyOffOn | Soft

fun reset_u8 :: "reset_type \<Rightarrow> u8" where
  "reset_u8 Hard = 0x01"
| "reset_u8 KeyOffOn = 0x02"
| "reset_u8 Soft = 0x03"

record negative_response_error =
  ner_service :: u8
  ner_nrc :: u8

definition nrc_description :: "u8 \<Rightarrow> string" where
  "nrc_description nrc =
     (if nrc = 0x10 then ''generalReject''
      else if nrc = 0x11 then ''serviceNotSupported''
      else if nrc = 0x12 then ''subFunctionNotSupported''
      else if nrc = 0x13 then ''incorrectMessageLengthOrInvalidFormat''
      else if nrc = 0x14 then ''responseTooLong''
      else if nrc = 0x21 then ''busyRepeatRequest''
      else if nrc = 0x22 then ''conditionsNotCorrect''
      else if nrc = 0x24 then ''requestSequenceError''
      else if nrc = 0x25 then ''noResponseFromSubnetComponent''
      else if nrc = 0x26 then ''failurePreventsExecutionOfRequestedAction''
      else if nrc = 0x31 then ''requestOutOfRange''
      else if nrc = 0x33 then ''securityAccessDenied''
      else if nrc = 0x35 then ''invalidKey''
      else if nrc = 0x36 then ''exceededNumberOfAttempts''
      else if nrc = 0x37 then ''requiredTimeDelayNotExpired''
      else if nrc = 0x70 then ''uploadDownloadNotAccepted''
      else if nrc = 0x71 then ''transferDataSuspended''
      else if nrc = 0x72 then ''generalProgrammingFailure''
      else if nrc = 0x73 then ''wrongBlockSequenceCounter''
      else if nrc = 0x78 then ''requestCorrectlyReceivedResponsePending''
      else if nrc = 0x7E then ''subFunctionNotSupportedInActiveSession''
      else if nrc = 0x7F then ''serviceNotSupportedInActiveSession''
      else ''unknown'')"

definition negative_display :: "negative_response_error \<Rightarrow> string" where
  "negative_display e =
     ''uds: NRC 0x'' @ pad_left 2 (show_hex (unat (ner_nrc e))) @ '' ('' @ nrc_description (ner_nrc e) @
     '') for service 0x'' @ pad_left 2 (show_hex (unat (ner_service e)))"

text \<open>The \<open>for\<close> loop of \<open>request\<close>, with the number of rounds left.\<close>

fun request_loop :: "iso_config \<Rightarrow> nat \<Rightarrow> link \<Rightarrow> (can_error, bytes) result \<times> link" where
  "request_loop cfg 0 l =
     (Err (Other ''uds: too many consecutive response-pending (NRC 0x78) retries''), l)"
| "request_loop cfg (Suc k) l =
     (case iso_recv cfg l of
        (Err e, l) \<Rightarrow> (Err e, l)
      | (Ok resp, l) \<Rightarrow>
          if resp = [] then (Err (Other ''uds: empty response''), l)
          else if resp ! 0 = SID_NEGATIVE_RESPONSE then
            let service = (if length resp \<ge> 2 then resp ! 1 else 0);
                nrc = (if length resp \<ge> 3 then resp ! 2 else 0)
            in if nrc = NRC_RESPONSE_PENDING then request_loop cfg k l
               else (Err (Other (negative_display \<lparr>ner_service = service, ner_nrc = nrc\<rparr>)), l)
          else (Ok resp, l))"

definition uds_request :: "iso_config \<Rightarrow> bytes \<Rightarrow> link \<Rightarrow> (can_error, bytes) result \<times> link" where
  "uds_request cfg req l =
     (case iso_send cfg req l of
        (Err e, l) \<Rightarrow> (Err e, l)
      | (Ok _, l) \<Rightarrow> request_loop cfg (MAX_RESPONSE_PENDING_RETRIES + 1) l)"

definition diagnostic_session_control ::
    "iso_config \<Rightarrow> session_type \<Rightarrow> link \<Rightarrow> (can_error, unit) result \<times> link" where
  "diagnostic_session_control cfg session l =
     (case uds_request cfg [SID_DIAGNOSTIC_SESSION_CONTROL, session_u8 session] l of
        (Err e, l) \<Rightarrow> (Err e, l)
      | (Ok resp, l) \<Rightarrow>
          if length resp < 2 \<or> resp ! 0 \<noteq> SID_DIAGNOSTIC_SESSION_CONTROL + POSITIVE_RESPONSE_OFFSET \<or>
             resp ! 1 \<noteq> session_u8 session
          then (Err (Other (''uds: unexpected DSC response: '' @ debug_hex_bytes resp)), l)
          else (Ok (), l))"

definition ecu_reset :: "iso_config \<Rightarrow> reset_type \<Rightarrow> link \<Rightarrow> (can_error, unit) result \<times> link" where
  "ecu_reset cfg reset l =
     (case uds_request cfg [SID_ECU_RESET, reset_u8 reset] l of
        (Err e, l) \<Rightarrow> (Err e, l)
      | (Ok resp, l) \<Rightarrow>
          if length resp < 2 \<or> resp ! 0 \<noteq> SID_ECU_RESET + POSITIVE_RESPONSE_OFFSET \<or> resp ! 1 \<noteq> reset_u8 reset
          then (Err (Other (''uds: unexpected ECUReset response: '' @ debug_hex_bytes resp)), l)
          else (Ok (), l))"

definition read_did :: "iso_config \<Rightarrow> u16 \<Rightarrow> link \<Rightarrow> (can_error, bytes) result \<times> link" where
  "read_did cfg did l =
     (let high = ucast (drop_bit 8 did);
          low = ucast did
      in case uds_request cfg [SID_READ_DID, high, low] l of
           (Err e, l) \<Rightarrow> (Err e, l)
         | (Ok resp, l) \<Rightarrow>
             if length resp < 4 \<or> resp ! 0 \<noteq> SID_READ_DID + POSITIVE_RESPONSE_OFFSET \<or> resp ! 1 \<noteq> high \<or>
                resp ! 2 \<noteq> low
             then (Err (Other (''uds: unexpected ReadDID response: '' @ debug_hex_bytes resp)), l)
             else (Ok (drop 3 resp), l))"

definition security_access_request_seed ::
    "iso_config \<Rightarrow> u8 \<Rightarrow> link \<Rightarrow> (can_error, bytes) result \<times> link" where
  "security_access_request_seed cfg access_level l =
     (case uds_request cfg [SID_SECURITY_ACCESS, access_level] l of
        (Err e, l) \<Rightarrow> (Err e, l)
      | (Ok resp, l) \<Rightarrow>
          if length resp < 2 \<or> resp ! 0 \<noteq> SID_SECURITY_ACCESS + POSITIVE_RESPONSE_OFFSET \<or> resp ! 1 \<noteq> access_level
          then (Err (Other (''uds: unexpected SecurityAccess seed response: '' @ debug_hex_bytes resp)), l)
          else (Ok (drop 2 resp), l))"

text \<open>\<^verbatim>\<open>access_level.checked_add(1)\<close>: the sub-function that sends the key for a seed level.\<close>

definition key_level :: "u8 \<Rightarrow> u8 option" where
  "key_level level = (let next = unat level + 1 in if next \<le> 0xFF then Some (of_nat next) else None)"

lemma key_level_Some: "key_level level = Some k \<longleftrightarrow> level \<noteq> 0xFF \<and> k = level + 1"
proof -
  have "unat level \<noteq> 255 \<longleftrightarrow> level \<noteq> 0xFF" by (simp add: word_unat_eq_iff)
  moreover have "unat level + 1 \<le> 0xFF \<longleftrightarrow> unat level \<noteq> 255" using unat_less [of level] by auto
  ultimately have "unat level + 1 \<le> 0xFF \<longleftrightarrow> level \<noteq> 0xFF" by simp
  then show ?thesis by (auto simp: key_level_def Let_def add.commute)
qed

definition security_access_send_key ::
    "iso_config \<Rightarrow> u8 \<Rightarrow> bytes \<Rightarrow> link \<Rightarrow> (can_error, unit) result \<times> link" where
  "security_access_send_key cfg access_level key l =
     (case key_level access_level of
        None \<Rightarrow> (Err (Other (''uds: access_level 0xFF has no valid SecurityAccess key sub-function '' @
                            ''(level+1 overflows u8)'')), l)
      | Some level_key \<Rightarrow>
          (case uds_request cfg (SID_SECURITY_ACCESS # level_key # key) l of
             (Err e, l) \<Rightarrow> (Err e, l)
           | (Ok resp, l) \<Rightarrow>
               if length resp < 2 \<or> resp ! 0 \<noteq> SID_SECURITY_ACCESS + POSITIVE_RESPONSE_OFFSET \<or> resp ! 1 \<noteq> level_key
               then (Err (Other (''uds: unexpected SecurityAccess key response: '' @ debug_hex_bytes resp)), l)
               else (Ok (), l)))"

definition write_did :: "iso_config \<Rightarrow> u16 \<Rightarrow> bytes \<Rightarrow> link \<Rightarrow> (can_error, unit) result \<times> link" where
  "write_did cfg did data l =
     (let high = ucast (drop_bit 8 did);
          low = ucast did
      in case uds_request cfg (SID_WRITE_DID # high # low # data) l of
           (Err e, l) \<Rightarrow> (Err e, l)
         | (Ok resp, l) \<Rightarrow>
             if length resp < 3 \<or> resp ! 0 \<noteq> SID_WRITE_DID + POSITIVE_RESPONSE_OFFSET \<or> resp ! 1 \<noteq> high \<or>
                resp ! 2 \<noteq> low
             then (Err (Other (''uds: unexpected WriteDID response: '' @ debug_hex_bytes resp)), l)
             else (Ok (), l))"

definition tester_present :: "iso_config \<Rightarrow> bool \<Rightarrow> link \<Rightarrow> (can_error, unit) result \<times> link" where
  "tester_present cfg suppress_positive_response l =
     (let sub = (if suppress_positive_response then 0x80 else 0x00)
      in if suppress_positive_response then iso_send cfg [SID_TESTER_PRESENT, sub] l
         else case uds_request cfg [SID_TESTER_PRESENT, sub] l of
           (Err e, l) \<Rightarrow> (Err e, l)
         | (Ok resp, l) \<Rightarrow>
             if length resp < 2 \<or> resp ! 0 \<noteq> SID_TESTER_PRESENT + POSITIVE_RESPONSE_OFFSET \<or> resp ! 1 \<noteq> sub
             then (Err (Other (''uds: unexpected TesterPresent response: '' @ debug_hex_bytes resp)), l)
             else (Ok (), l))"

section \<open>The answers a client reads\<close>

text \<open>\<open>answers cfg rs l l'\<close>: receiving on \<open>l\<close> yields the messages \<open>rs\<close> one after the other and ends in \<open>l'\<close>.\<close>

fun answers :: "iso_config \<Rightarrow> bytes list \<Rightarrow> link \<Rightarrow> link \<Rightarrow> bool" where
  "answers cfg [] l l' \<longleftrightarrow> l' = l"
| "answers cfg (r # rs) l l' \<longleftrightarrow> fst (iso_recv cfg l) = Ok r \<and> answers cfg rs (snd (iso_recv cfg l)) l'"

definition response_pending :: "bytes \<Rightarrow> bool" where
  "response_pending r \<longleftrightarrow> 3 \<le> length r \<and> r ! 0 = SID_NEGATIVE_RESPONSE \<and> r ! 2 = NRC_RESPONSE_PENDING"

text \<open>What the client makes of a final answer.\<close>

definition verdict :: "bytes \<Rightarrow> (can_error, bytes) result" where
  "verdict r =
     (if r = [] then Err (Other ''uds: empty response'')
      else if r ! 0 = SID_NEGATIVE_RESPONSE
      then Err (Other (negative_display \<lparr>ner_service = (if 2 \<le> length r then r ! 1 else 0),
                                        ner_nrc = (if 3 \<le> length r then r ! 2 else 0)\<rparr>))
      else Ok r)"

lemma request_loop_step:
  assumes "iso_recv cfg l = (Ok r, l')"
  shows "request_loop cfg (Suc k) l =
    (if response_pending r then request_loop cfg k l' else (verdict r, l'))"
  using assms by (auto simp: response_pending_def verdict_def sid_defs Let_def)

lemma request_loop_pending:
  "answers cfg pend l l' \<Longrightarrow> list_all response_pending pend \<Longrightarrow>
     request_loop cfg (length pend + k) l = request_loop cfg k l'"
proof (induction pend arbitrary: l)
  case (Cons r pend)
  then have "iso_recv cfg l = (Ok r, snd (iso_recv cfg l))" by (simp add: prod_eq_iff)
  with Cons show ?case by (simp del: request_loop.simps add: request_loop_step)
qed simp

lemma answers_append: "answers cfg (rs @ rs') l l' \<longleftrightarrow> (\<exists>m. answers cfg rs l m \<and> answers cfg rs' m l')"
  by (induction rs arbitrary: l) auto

text \<open>The rounds of the loop are bounded, and a success is the first answer that is not pending.\<close>

lemma request_loop_Ok:
  "request_loop cfg k l = (Ok r, l') \<Longrightarrow>
     \<exists>pend. answers cfg (pend @ [r]) l l' \<and> list_all response_pending pend \<and> length pend < k \<and>
       r \<noteq> [] \<and> r ! 0 \<noteq> SID_NEGATIVE_RESPONSE"
proof (induction k arbitrary: l)
  case (Suc k)
  obtain x m where x: "iso_recv cfg l = (x, m)" by fastforce
  with Suc.prems obtain s where s: "x = Ok s" by (cases x) auto
  note step = request_loop_step [OF x [unfolded s], of k]
  show ?case
  proof (cases "response_pending s")
    case True
    with Suc.prems step have "request_loop cfg k m = (Ok r, l')" by simp
    from Suc.IH [OF this] obtain pend where "answers cfg (pend @ [r]) m l'" "list_all response_pending pend"
      "length pend < k" "r \<noteq> []" "r ! 0 \<noteq> SID_NEGATIVE_RESPONSE" by blast
    with True x s show ?thesis by (intro exI [of _ "s # pend"]) simp
  next
    case False
    with Suc.prems step have "verdict s = Ok r" "l' = m" by simp_all
    then have "s = r" "r \<noteq> []" "r ! 0 \<noteq> SID_NEGATIVE_RESPONSE" by (auto simp: verdict_def split: if_splits)
    with x s \<open>l' = m\<close> show ?thesis by (intro exI [of _ "[]"]) simp
  qed
qed simp

section \<open>Messages on the link\<close>

fun messages_arrive :: "nat \<Rightarrow> bytes list \<Rightarrow> (nat \<times> frame option) list \<Rightarrow> bool" where
  "messages_arrive tmo [] evs \<longleftrightarrow> evs = []"
| "messages_arrive tmo (p # ps) evs \<longleftrightarrow>
     (\<exists>e1 e2. evs = e1 @ e2 \<and> arrives tmo (segments p) e1 \<and> messages_arrive tmo ps e2)"

lemma short_messages_arrive:
  "1 \<le> tmo \<Longrightarrow> list_all (\<lambda>p. length p \<le> 7) ps \<Longrightarrow>
   messages_arrive tmo ps (map (\<lambda>p. (1, Some (default_frame\<lparr>f_data := of_nat (length p) # p\<rparr>))) ps)"
proof (induction ps)
  case (Cons p ps)
  let ?e = "\<lambda>p. (1 :: nat, Some (default_frame\<lparr>f_data := of_nat (length p) # p\<rparr>))"
  have "arrives tmo (segments p) [?e p]"
    using Cons.prems by (simp add: arrives_def segments_def)
  moreover have "messages_arrive tmo ps (map ?e ps)"
    using Cons by simp
  moreover have "map ?e (p # ps) = [?e p] @ map ?e ps" by simp
  ultimately show ?case unfolding messages_arrive.simps by (intro exI [of _ "[?e p]"] exI [of _ "map ?e ps"] conjI)
qed simp

lemma messages_answers:
  "messages_arrive (effective_timeout cfg) ps evs \<Longrightarrow> lk_inbox l = evs @ rest \<Longrightarrow> no_fault l \<Longrightarrow>
   list_all (\<lambda>p. p \<noteq> [] \<and> length p \<le> 4095) ps \<Longrightarrow>
   \<exists>l'. answers cfg ps l l' \<and> lk_inbox l' = rest"
proof (induction ps arbitrary: evs l)
  case (Cons p ps)
  then obtain e1 e2 where e: "evs = e1 @ e2" "arrives (effective_timeout cfg) (segments p) e1"
    "messages_arrive (effective_timeout cfg) ps e2" by auto
  have inbox: "lk_inbox l = e1 @ (e2 @ rest)" using Cons.prems(2) e(1) by simp
  have p: "p \<noteq> []" "length p \<le> 4095" using Cons.prems(4) by simp_all
  from iso_recv_segments [OF e(2) inbox Cons.prems(3) p] obtain m es where
    m: "iso_recv cfg l = (Ok p, m)" "lk_inbox m = e2 @ rest" "run l es m" by blast
  have "no_fault m" using m(3) Cons.prems(3) by (simp add: run_def no_fault_def)
  from Cons.IH [OF e(3) m(2) this] Cons.prems(4) m(1) show ?case by auto
qed simp

lemma iso_send_single_ok:
  assumes "no_fault l" "p \<noteq> []" "length p \<le> 7"
  obtains l' where "iso_send cfg p l = (Ok (), l')" "no_fault l'" "lk_inbox l' = lk_inbox l"
    "run l [Sent (make_frame cfg (of_nat (length p) # p))] l'"
proof -
  from assms(1) obtain l' where "link_send (make_frame cfg (of_nat (length p) # p)) l = (Ok (), l')" "no_fault l'"
    "lk_inbox l' = lk_inbox l" "run l [Sent (make_frame cfg (of_nat (length p) # p))] l'" by (rule link_send_no_fault)
  with that assms(2,3) show thesis by (simp add: iso_send_def send_single_frame_def sf_byte)
qed

lemma uds_waits:
  assumes "iso_send cfg req l = (Ok (), l1)" "answers cfg (pend @ [r]) l1 l2" "list_all response_pending pend"
    and "length pend \<le> 16" "\<not> response_pending r"
  shows "uds_request cfg req l = (verdict r, l2)"
proof -
  obtain m where m: "answers cfg pend l1 m" "iso_recv cfg m = (Ok r, l2)"
    using assms(2) by (auto simp: answers_append prod_eq_iff)
  obtain k where k: "17 = length pend + Suc k" using assms(4) by (metis add_Suc_right le_imp_less_Suc less_natE numeral_eq_Suc pred_numeral_simps)
  have "request_loop cfg 17 l1 = request_loop cfg (Suc k) m"
    unfolding k by (rule request_loop_pending [OF m(1) assms(3)])
  also have "\<dots> = (verdict r, l2)" using request_loop_step [OF m(2), of k] assms(5) by simp
  finally show ?thesis using assms(1) by (simp add: uds_request_def MAX_RESPONSE_PENDING_RETRIES_def del: request_loop.simps)
qed

lemma request_loop_max:
  "request_loop cfg (MAX_RESPONSE_PENDING_RETRIES + 1) l =
     (case iso_recv cfg l of
        (Err e, l) \<Rightarrow> (Err e, l)
      | (Ok r, l) \<Rightarrow> if response_pending r then request_loop cfg 16 l else (verdict r, l))"
proof -
  have "MAX_RESPONSE_PENDING_RETRIES + 1 = Suc 16" by (simp add: MAX_RESPONSE_PENDING_RETRIES_def)
  moreover obtain x m where "iso_recv cfg l = (x, m)" by fastforce
  ultimately show ?thesis by (cases x) (simp_all only: request_loop_step, simp_all)
qed

lemma answers_run: "answers cfg rs l l' \<Longrightarrow> \<exists>es. run l es l'"
proof (induction rs arbitrary: l)
  case Nil
  with run_refl show ?case by auto
next
  case (Cons r rs)
  then obtain es where "run (snd (iso_recv cfg l)) es l'" by auto
  moreover obtain es' where "run l es' (snd (iso_recv cfg l))"
    using iso_recv_in_time [of cfg l] by (auto simp: in_time_def)
  ultimately show ?case using run_trans by blast
qed

text \<open>Concrete links for the witnesses: data frames that each come after one millisecond.\<close>

definition frames_link :: "bytes list \<Rightarrow> link" where
  "frames_link ds = \<lparr>lk_inbox = map (\<lambda>d. (1, Some (default_frame\<lparr>f_data := d\<rparr>))) ds, lk_fault = (\<lambda>_. None),
     lk_sends = 0, lk_trace = [], lk_waited = 0\<rparr>"

lemmas link_eval = frames_link_def iso_send_def send_single_frame_def link_send_def iso_recv_def link_recv_def
      sid_defs iso_default_config_def effective_timeout_def millis_def Let_def

section \<open>Properties\<close>

text \<open>
  A UDS request waits out up to 16 answers "response pending", whatever they say beyond the code,
  and then decides on the first other answer: an empty one is an error, a negative one is reported with
  its service and code, any other one is the result.
\<close>

theorem uds_request_waits:
  assumes "iso_send cfg req l = (Ok (), l1)" "answers cfg (pend @ [r]) l1 l2" "list_all response_pending pend"
    and "length pend \<le> 16" "\<not> response_pending r"
  shows "uds_request cfg req l = (verdict r, l2)"
  by (rule uds_waits [OF assms])

theorem uds_request_waits_witness:
  "fst (uds_request iso_default_config [0x22, 0, 7]
     (frames_link [[3, 0x7F, 0x22, 0x78], [4, 0x62, 0, 7, 9]])) = Ok [0x62, 0, 7, 9]"
proof -
  let ?l = "frames_link [[3, 0x7F, 0x22, 0x78], [4, 0x62, 0, 7, 9]]" and ?req = "[0x22, 0, 7] :: bytes"
  have s: "iso_send iso_default_config ?req ?l = (Ok (), snd (iso_send iso_default_config ?req ?l))"
    by (simp add: link_eval)
  have r: "\<exists>l2. answers iso_default_config ([[0x7F, 0x22, 0x78]] @ [[0x62, 0, 7, 9]])
      (snd (iso_send iso_default_config ?req ?l)) l2"
    by (simp add: link_eval)
  show ?thesis using r uds_request_waits [OF s, of "[[0x7F, 0x22, 0x78]]" "[0x62, 0, 7, 9]"]
    by (auto simp: response_pending_def verdict_def sid_defs)
qed

text \<open>
  A UDS request gives up after 17 answers "response pending", with an error and with nothing more
  read from the connection.
\<close>

theorem uds_request_gives_up:
  assumes "iso_send cfg req l = (Ok (), l1)" "answers cfg pend l1 l2" "list_all response_pending pend" "length pend = 17"
  shows "uds_request cfg req l =
    (Err (Other ''uds: too many consecutive response-pending (NRC 0x78) retries''), l2)"
  using request_loop_pending [OF assms(2,3), of 0] assms(1,4)
  by (simp add: uds_request_def MAX_RESPONSE_PENDING_RETRIES_def numeral_eq_Suc del: request_loop.simps(2))

theorem uds_request_gives_up_witness:
  "fst (uds_request iso_default_config [0x22, 0, 7] (frames_link (replicate 17 [3, 0x7F, 0x22, 0x78]))) =
     Err (Other ''uds: too many consecutive response-pending (NRC 0x78) retries'')"
proof -
  let ?l = "frames_link (replicate 17 [3, 0x7F, 0x22, 0x78])" and ?req = "[0x22, 0, 7] :: bytes"
  have s: "iso_send iso_default_config ?req ?l = (Ok (), snd (iso_send iso_default_config ?req ?l))"
    by (simp add: link_eval)
  have "messages_arrive (effective_timeout iso_default_config) (replicate 17 [0x7F, 0x22, 0x78])
      (lk_inbox (snd (iso_send iso_default_config ?req ?l)))"
    using short_messages_arrive [of "effective_timeout iso_default_config" "replicate 17 [0x7F, 0x22, 0x78]"]
    by (simp add: link_eval list_all_iff)
  moreover have "no_fault (snd (iso_send iso_default_config ?req ?l))"
    by (simp add: link_eval no_fault_def)
  ultimately obtain l2 where
    "answers iso_default_config (replicate 17 [0x7F, 0x22, 0x78]) (snd (iso_send iso_default_config ?req ?l)) l2"
    using messages_answers [of iso_default_config "replicate 17 [0x7F, 0x22, 0x78]"
        "lk_inbox (snd (iso_send iso_default_config ?req ?l))" "snd (iso_send iso_default_config ?req ?l)" "[]"]
    by (auto simp: list_all_iff)
  from uds_request_gives_up [OF s this] show ?thesis by (simp add: response_pending_def sid_defs list_all_iff)
qed

definition final_answer :: "iso_config \<Rightarrow> bytes \<Rightarrow> bytes \<Rightarrow> link \<Rightarrow> link \<Rightarrow> bool" where
  "final_answer cfg req r l l' \<longleftrightarrow>
     (\<exists>l1 pend. iso_send cfg req l = (Ok (), l1) \<and> answers cfg (pend @ [r]) l1 l' \<and>
        list_all response_pending pend \<and> length pend \<le> 16)"

lemma uds_request_Ok: "uds_request cfg req l = (Ok r, l') \<Longrightarrow> final_answer cfg req r l l'"
proof -
  assume r: "uds_request cfg req l = (Ok r, l')"
  obtain x l1 where s: "iso_send cfg req l = (x, l1)" by fastforce
  with r have "x = Ok ()" "request_loop cfg 17 l1 = (Ok r, l')"
    by (cases x; simp add: uds_request_def MAX_RESPONSE_PENDING_RETRIES_def)+
  with s request_loop_Ok [of cfg 17 l1 r l'] show ?thesis by (auto simp: final_answer_def)
qed

lemma two_bytes: "2 \<le> length r \<Longrightarrow> r = r ! 0 # r ! 1 # drop 2 r"
  by (cases r; cases "tl r") auto

lemma three_bytes: "3 \<le> length r \<Longrightarrow> r = r ! 0 # r ! 1 # r ! 2 # drop 3 r"
  by (cases r; cases "tl r"; cases "tl (tl r)") auto

text \<open>The shape of every service: an answer is checked and then used.\<close>

lemma checked_answer:
  assumes "(case x of (Err e, l) \<Rightarrow> (Err e, l)
      | (Ok resp, l) \<Rightarrow> if bad resp then (Err (err resp), l) else (Ok (g resp), l)) = (Ok v, l')"
  shows "\<exists>resp. x = (Ok resp, l') \<and> \<not> bad resp \<and> v = g resp"
  using assms by (auto split: prod.splits sum.splits if_splits)

lemma uds_services_Ok:
  "read_did cfg did l = (Ok d, l') \<Longrightarrow>
     final_answer cfg [0x22, ucast (drop_bit 8 did), ucast did] (0x62 # ucast (drop_bit 8 did) # ucast did # d) l l' \<and> d \<noteq> []"
  "write_did cfg did w l = (Ok (), l') \<Longrightarrow>
     \<exists>e. final_answer cfg (0x2E # ucast (drop_bit 8 did) # ucast did # w) (0x6E # ucast (drop_bit 8 did) # ucast did # e) l l'"
  "security_access_request_seed cfg lv l = (Ok d, l') \<Longrightarrow> final_answer cfg [0x27, lv] (0x67 # lv # d) l l'"
  "security_access_send_key cfg lv key l = (Ok (), l') \<Longrightarrow>
     lv \<noteq> 0xFF \<and> (\<exists>e. final_answer cfg (0x27 # (lv + 1) # key) (0x67 # (lv + 1) # e) l l')"
proof -
  assume "read_did cfg did l = (Ok d, l')"
  from checked_answer [OF this [unfolded read_did_def Let_def]] obtain resp where
    u: "uds_request cfg [0x22, ucast (drop_bit 8 did), ucast did] l = (Ok resp, l')" and d: "d = drop 3 resp"
    and "\<not> (length resp < 4 \<or> resp ! 0 \<noteq> SID_READ_DID + POSITIVE_RESPONSE_OFFSET \<or>
      resp ! 1 \<noteq> ucast (drop_bit 8 did) \<or> resp ! 2 \<noteq> ucast did)"
    unfolding SID_READ_DID_def by blast
  then have r: "4 \<le> length resp" "resp ! 0 = 0x62" "resp ! 1 = ucast (drop_bit 8 did)" "resp ! 2 = ucast did"
    by (simp_all add: sid_defs)
  then have "resp = 0x62 # ucast (drop_bit 8 did) # ucast did # d" using three_bytes [of resp] d by simp
  then have "final_answer cfg [0x22, ucast (drop_bit 8 did), ucast did]
      (0x62 # ucast (drop_bit 8 did) # ucast did # d) l l'" using uds_request_Ok [OF u] by metis
  moreover have "d \<noteq> []" unfolding d using r(1) by simp
  ultimately show "final_answer cfg [0x22, ucast (drop_bit 8 did), ucast did]
      (0x62 # ucast (drop_bit 8 did) # ucast did # d) l l' \<and> d \<noteq> []" ..
next
  assume "write_did cfg did w l = (Ok (), l')"
  from checked_answer [OF this [unfolded write_did_def Let_def]] obtain resp where
    u: "uds_request cfg (0x2E # ucast (drop_bit 8 did) # ucast did # w) l = (Ok resp, l')"
    and "\<not> (length resp < 3 \<or> resp ! 0 \<noteq> SID_WRITE_DID + POSITIVE_RESPONSE_OFFSET \<or>
      resp ! 1 \<noteq> ucast (drop_bit 8 did) \<or> resp ! 2 \<noteq> ucast did)"
    unfolding SID_WRITE_DID_def by blast
  then have "3 \<le> length resp" "resp ! 0 = 0x6E" "resp ! 1 = ucast (drop_bit 8 did)" "resp ! 2 = ucast did"
    by (simp_all add: sid_defs)
  then have "resp = 0x6E # ucast (drop_bit 8 did) # ucast did # drop 3 resp" using three_bytes [of resp] by simp
  with uds_request_Ok [OF u]
  show "\<exists>e. final_answer cfg (0x2E # ucast (drop_bit 8 did) # ucast did # w)
      (0x6E # ucast (drop_bit 8 did) # ucast did # e) l l'" by metis
next
  assume "security_access_request_seed cfg lv l = (Ok d, l')"
  from checked_answer [OF this [unfolded security_access_request_seed_def]] obtain resp where
    u: "uds_request cfg [0x27, lv] l = (Ok resp, l')"
    and d: "d = drop 2 resp"
    and "\<not> (length resp < 2 \<or> resp ! 0 \<noteq> SID_SECURITY_ACCESS + POSITIVE_RESPONSE_OFFSET \<or> resp ! 1 \<noteq> lv)"
    unfolding SID_SECURITY_ACCESS_def by blast
  then have "2 \<le> length resp" "resp ! 0 = 0x67" "resp ! 1 = lv" by (simp_all add: sid_defs)
  then have "resp = 0x67 # lv # d" using two_bytes [of resp] d by simp
  with uds_request_Ok [OF u] show "final_answer cfg [0x27, lv] (0x67 # lv # d) l l'" by metis
next
  assume k: "security_access_send_key cfg lv key l = (Ok (), l')"
  then obtain n where "key_level lv = Some n" by (auto simp: security_access_send_key_def split: option.splits)
  then have add: "key_level lv = Some (lv + 1)" and lv: "lv \<noteq> 0xFF" by (simp_all add: key_level_Some)
  from checked_answer [OF k [unfolded security_access_send_key_def add option.case]] obtain resp where
    u: "uds_request cfg (0x27 # (lv + 1) # key) l = (Ok resp, l')"
    and "\<not> (length resp < 2 \<or> resp ! 0 \<noteq> SID_SECURITY_ACCESS + POSITIVE_RESPONSE_OFFSET \<or> resp ! 1 \<noteq> lv + 1)"
    unfolding SID_SECURITY_ACCESS_def by blast
  then have "2 \<le> length resp" "resp ! 0 = 0x67" "resp ! 1 = lv + 1" by (simp_all add: sid_defs)
  then have "resp = 0x67 # (lv + 1) # drop 2 resp" using two_bytes [of resp] by simp
  with uds_request_Ok [OF u] lv
  show "lv \<noteq> 0xFF \<and> (\<exists>e. final_answer cfg (0x27 # (lv + 1) # key) (0x67 # (lv + 1) # e) l l')" by metis
qed

text \<open>
  C27: What the services \<^verbatim>\<open>read_did\<close>, \<^verbatim>\<open>write_did\<close>, \<^verbatim>\<open>security_access_request_seed\<close> and \<^verbatim>\<open>security_access_send_key\<close> report
  as a success is what the ECU answered to that very request: the final answer is positive, echoes the identifier or the access
  level of the request, and the returned record or seed is the rest of it; of these four, no negative or mismatched answer becomes a success.
\<close>

theorem uds_services_sound:
  "(read_did cfg did l = (Ok d, l') \<longrightarrow>
      final_answer cfg [0x22, ucast (drop_bit 8 did), ucast did] (0x62 # ucast (drop_bit 8 did) # ucast did # d) l l' \<and>
      d \<noteq> []) \<and>
   (write_did cfg did w l = (Ok (), l') \<longrightarrow>
      (\<exists>e. final_answer cfg (0x2E # ucast (drop_bit 8 did) # ucast did # w)
             (0x6E # ucast (drop_bit 8 did) # ucast did # e) l l')) \<and>
   (security_access_request_seed cfg lv l = (Ok d, l') \<longrightarrow> final_answer cfg [0x27, lv] (0x67 # lv # d) l l') \<and>
   (security_access_send_key cfg lv key l = (Ok (), l') \<longrightarrow>
      lv \<noteq> 0xFF \<and> (\<exists>e. final_answer cfg (0x27 # (lv + 1) # key) (0x67 # (lv + 1) # e) l l'))"
  using uds_services_Ok(1) [of cfg did l d l'] uds_services_Ok(2) [of cfg did w l l']
    uds_services_Ok(3) [of cfg lv l d l'] uds_services_Ok(4) [of cfg lv key l l'] by blast

theorem uds_services_sound_witness:
  "let l = \<lparr>lk_inbox = [(1, Some (default_frame\<lparr>f_data := [4, 0x62, 0, 0x90, 7]\<rparr>))], lk_fault = (\<lambda>_. None),
            lk_sends = 0, lk_trace = [], lk_waited = 0\<rparr>
   in final_answer iso_default_config [0x22, 0, 0x90] [0x62, 0, 0x90, 7] l
        (snd (read_did iso_default_config 0x90 l))"
proof -
  let ?l = "\<lparr>lk_inbox = [(1, Some (default_frame\<lparr>f_data := [4, 0x62, 0, 0x90, 7]\<rparr>))], lk_fault = (\<lambda>_. None),
            lk_sends = 0, lk_trace = [], lk_waited = 0\<rparr>"
  have "fst (read_did iso_default_config 0x90 ?l) = Ok [7]"
    by (simp add: read_did_def uds_request_def request_loop_max response_pending_def verdict_def iso_send_def send_single_frame_def
        link_send_def iso_recv_def link_recv_def sid_defs iso_default_config_def effective_timeout_def millis_def Let_def)
  then have "read_did iso_default_config 0x90 ?l = (Ok [7], snd (read_did iso_default_config 0x90 ?l))"
    by (simp add: prod_eq_iff)
  with uds_services_sound [of iso_default_config "0x90" ?l "[7]" "snd (read_did iso_default_config 0x90 ?l)"]
  show ?thesis by simp
qed

text \<open>
  C28: Reading a data record works end to end over ISO-TP: when the ECU's frames carry up to 16 answers
  "response pending" and then the positive answer with the record, the client sends the request as one
  frame and returns the record, of up to 4092 bytes, leaving what else is queued.
\<close>

theorem uds_read_did_served:
  assumes "no_fault l" "lk_inbox l = evs @ rest"
    and "messages_arrive (effective_timeout cfg) (pend @ [0x62 # ucast (drop_bit 8 did) # ucast did # d]) evs"
    and "list_all response_pending pend" "list_all (\<lambda>p. length p \<le> 4095) pend" "length pend \<le> 16"
    and "d \<noteq> []" "length d \<le> 4092"
  shows "let (r, l') = read_did cfg did l
         in r = Ok d \<and> lk_inbox l' = rest \<and>
            hd (drop (length (lk_trace l)) (lk_trace l')) =
              Sent (make_frame cfg [3, 0x22, ucast (drop_bit 8 did), ucast did])"
proof -
  let ?req = "[0x22, ucast (drop_bit 8 did), ucast did]" and ?r = "0x62 # ucast (drop_bit 8 did) # ucast did # d"
  obtain l1 where s: "iso_send cfg ?req l = (Ok (), l1)" "no_fault l1" "lk_inbox l1 = lk_inbox l"
    "run l [Sent (make_frame cfg (of_nat (length ?req) # ?req))] l1"
    by (rule iso_send_single_ok [OF assms(1), of ?req cfg]) simp_all
  have "list_all (\<lambda>p. p \<noteq> [] \<and> length p \<le> 4095) (pend @ [?r])"
    using assms(4,5,8) by (auto simp: list_all_iff response_pending_def)
  with messages_answers [OF assms(3), of l1 rest] s(2,3) assms(2) obtain l2 where
    l2: "answers cfg (pend @ [?r]) l1 l2" "lk_inbox l2 = rest" by auto
  have "\<not> response_pending ?r" by (simp add: response_pending_def sid_defs)
  from uds_waits [OF s(1) l2(1) assms(4,6) this] have "uds_request cfg ?req l = (Ok ?r, l2)"
    by (simp add: verdict_def sid_defs)
  then have "read_did cfg did l = (Ok d, l2)"
    using assms(7) by (cases d) (simp_all add: read_did_def Let_def sid_defs)
  moreover have "hd (drop (length (lk_trace l)) (lk_trace l2)) = Sent (make_frame cfg (3 # ?req))"
  proof -
    obtain es where "run l1 es l2" using answers_run [OF l2(1)] by blast
    from run_trans [OF s(4) this] show ?thesis by (simp add: run_def)
  qed
  ultimately show ?thesis using l2(2) by simp
qed

theorem uds_read_did_served_witness:
  "fst (read_did iso_default_config 7 (frames_link [[3, 0x7F, 0x22, 0x78], [4, 0x62, 0, 7, 9]])) = Ok [9]"
proof -
  let ?l = "frames_link [[3, 0x7F, 0x22, 0x78], [4, 0x62, 0, 7, 9]]"
  have "messages_arrive (effective_timeout iso_default_config) ([[0x7F, 0x22, 0x78]] @ [[0x62, 0, 7, 9]])
      (lk_inbox ?l)"
    using short_messages_arrive [of "effective_timeout iso_default_config" "[[0x7F, 0x22, 0x78], [0x62, 0, 7, 9]]"]
    by (simp add: link_eval)
  then show ?thesis
    using uds_read_did_served [of ?l "lk_inbox ?l" "[]" iso_default_config "[[0x7F, 0x22, 0x78]]" 7 "[9]"]
    by (simp add: response_pending_def sid_defs no_fault_def frames_link_def split: prod.splits)
qed

end
