(* ===== verification/Can_Socketcan.thy ===== *)
theory Can_Socketcan
  imports Can_Bus_Contract
begin

text \<open>
  The SocketCAN bus of \<^verbatim>\<open>src/socketcan/mod.rs\<close>. The kernel and the runtime's readiness registration
  are not part of the crate: they are the functions of a record \<open>libc\<close>, which every operation that
  makes a system call takes, and an arbitrary state \<open>'k\<close> behind the socket. A system call answers its
  result, or the error number of a negative return value. Structures go over the socket as the bytes
  of their memory image, in little-endian byte order.
\<close>

section \<open>The code\<close>

subsection \<open>Constants and raw frames\<close>

definition PF_CAN :: int where "PF_CAN = 29"
definition CAN_RAW :: int where "CAN_RAW = 1"
definition CAN_RAW_FD_FRAMES :: int where "CAN_RAW_FD_FRAMES = 5"
definition CAN_RAW_ERR_FILTER :: int where "CAN_RAW_ERR_FILTER = 4"
definition CAN_EFF_FLAG :: u32 where "CAN_EFF_FLAG = 0x80000000"
definition CAN_RTR_FLAG :: u32 where "CAN_RTR_FLAG = 0x40000000"
definition CAN_ERR_FLAG :: u32 where "CAN_ERR_FLAG = 0x20000000"
definition CAN_ERR_BUSOFF :: u32 where "CAN_ERR_BUSOFF = 0x00000040"
definition CAN_SFF_MASK :: u32 where "CAN_SFF_MASK = 0x7FF"
definition CAN_EFF_MASK :: u32 where "CAN_EFF_MASK = 0x1FFFFFFF"
definition CANFD_BRS :: u8 where "CANFD_BRS = 0x01"
definition CANFD_ESI :: u8 where "CANFD_ESI = 0x02"

lemmas flag_defs = CAN_EFF_FLAG_def CAN_RTR_FLAG_def CAN_ERR_FLAG_def CAN_ERR_BUSOFF_def CAN_SFF_MASK_def
  CAN_EFF_MASK_def CANFD_BRS_def CANFD_ESI_def

record can_frame =
  cf_id :: u32
  cf_dlc :: u8
  cf_pad :: u8
  cf_res0 :: u8
  cf_res1 :: u8
  cf_data :: bytes

record canfd_frame =
  fd_id :: u32
  fd_len :: u8
  fd_flags :: u8
  fd_res0 :: u8
  fd_res1 :: u8
  fd_data :: bytes

text \<open>\<^verbatim>\<open>size_of::<CanFrame>()\<close> and \<^verbatim>\<open>size_of::<CanFdFrame>()\<close>, and the memory image of the two structures.\<close>

definition CAN_FRAME_SIZE :: nat where "CAN_FRAME_SIZE = 16"
definition CANFD_FRAME_SIZE :: nat where "CANFD_FRAME_SIZE = 72"

definition classic_bytes :: "can_frame \<Rightarrow> bytes" where
  "classic_bytes r = u32_to_le_bytes (cf_id r) @ [cf_dlc r, cf_pad r, cf_res0 r, cf_res1 r] @ cf_data r"

definition canfd_bytes :: "canfd_frame \<Rightarrow> bytes" where
  "canfd_bytes r = u32_to_le_bytes (fd_id r) @ [fd_len r, fd_flags r, fd_res0 r, fd_res1 r] @ fd_data r"

definition classic_of_bytes :: "bytes \<Rightarrow> can_frame" where
  "classic_of_bytes m =
     \<lparr>cf_id = u32_from_le_bytes (m ! 0) (m ! 1) (m ! 2) (m ! 3), cf_dlc = m ! 4, cf_pad = m ! 5,
      cf_res0 = m ! 6, cf_res1 = m ! 7, cf_data = take 8 (drop 8 m)\<rparr>"

definition canfd_of_bytes :: "bytes \<Rightarrow> canfd_frame" where
  "canfd_of_bytes m =
     \<lparr>fd_id = u32_from_le_bytes (m ! 0) (m ! 1) (m ! 2) (m ! 3), fd_len = m ! 4, fd_flags = m ! 5,
      fd_res0 = m ! 6, fd_res1 = m ! 7, fd_data = take 64 (drop 8 m)\<rparr>"

text \<open>A zeroed buffer of \<open>n\<close> bytes after \<^verbatim>\<open>read\<close> has put \<open>bs\<close> at its start.\<close>

definition filled :: "nat \<Rightarrow> bytes \<Rightarrow> bytes" where
  "filled n bs = take n bs @ replicate (n - length bs) 0"

subsection \<open>The kernel\<close>

record 'k libc =
  SOCK_RAW :: int
  AF_CAN :: int
  SOL_CAN_RAW :: int
  IFNAMSIZ :: nat
  F_GETFL :: int
  F_SETFL :: int
  O_NONBLOCK :: int
  would_block :: "int \<Rightarrow> bool"
  sys_socket :: "int \<Rightarrow> int \<Rightarrow> int \<Rightarrow> 'k \<Rightarrow> (int, int) result \<times> 'k"
  sys_ifindex :: "int \<Rightarrow> bytes \<Rightarrow> 'k \<Rightarrow> (int, int) result \<times> 'k"
  sys_bind :: "int \<Rightarrow> int \<Rightarrow> int \<Rightarrow> 'k \<Rightarrow> (int, unit) result \<times> 'k"
  sys_setsockopt :: "int \<Rightarrow> int \<Rightarrow> int \<Rightarrow> bytes \<Rightarrow> 'k \<Rightarrow> (int, unit) result \<times> 'k"
  sys_fcntl :: "int \<Rightarrow> int \<Rightarrow> int \<Rightarrow> 'k \<Rightarrow> (int, int) result \<times> 'k"
  sys_close :: "int \<Rightarrow> 'k \<Rightarrow> (int, unit) result \<times> 'k"
  sys_read :: "int \<Rightarrow> nat \<Rightarrow> 'k \<Rightarrow> (int, bytes) result \<times> 'k"
  sys_write :: "int \<Rightarrow> bytes \<Rightarrow> 'k \<Rightarrow> (int, nat) result \<times> 'k"
  async_fd_new :: "int \<Rightarrow> 'k \<Rightarrow> (int, unit) result \<times> 'k"
  async_readable :: "int \<Rightarrow> 'k \<Rightarrow> (int, unit) result \<times> 'k"
  async_clear_ready :: "int \<Rightarrow> 'k \<Rightarrow> 'k"

subsection \<open>Frames to and from raw frames\<close>

definition build_can_id :: "frame \<Rightarrow> u32" where
  "build_can_id f =
     (let can_id = f_id f;
          can_id = (if f_ext f then can_id OR CAN_EFF_FLAG else can_id)
      in if f_rtr f then can_id OR CAN_RTR_FLAG else can_id)"

definition to_raw_classic_frame :: "frame \<Rightarrow> can_frame" where
  "to_raw_classic_frame f =
     \<lparr>cf_id = build_can_id f, cf_dlc = of_nat (length (f_data f)), cf_pad = 0, cf_res0 = 0, cf_res1 = 0,
      cf_data = (let copy_len = min (length (f_data f)) 8 in take copy_len (f_data f) @ replicate (8 - copy_len) 0)\<rparr>"

definition to_raw_fd_frame :: "frame \<Rightarrow> canfd_frame" where
  "to_raw_fd_frame f =
     \<lparr>fd_id = build_can_id f, fd_len = of_nat (length (f_data f)),
      fd_flags = (let flags = 0; flags = (if f_brs f then flags OR CANFD_BRS else flags)
                  in if f_esi f then flags OR CANFD_ESI else flags),
      fd_res0 = 0, fd_res1 = 0,
      fd_data = (let copy_len = min (length (f_data f)) 64 in take copy_len (f_data f) @ replicate (64 - copy_len) 0)\<rparr>"

definition send_classic_frame :: "'k libc \<Rightarrow> int \<Rightarrow> frame \<Rightarrow> 'k \<Rightarrow> (can_error, unit) result \<times> 'k" where
  "send_classic_frame sys fd f k =
     (case sys_write sys fd (classic_bytes (to_raw_classic_frame f)) k of
        (Err e, k) \<Rightarrow> (Err (Io e), k)
      | (Ok _, k) \<Rightarrow> (Ok (), k))"

definition send_fd_frame :: "'k libc \<Rightarrow> int \<Rightarrow> frame \<Rightarrow> 'k \<Rightarrow> (can_error, unit) result \<times> 'k" where
  "send_fd_frame sys fd f k =
     (case sys_write sys fd (canfd_bytes (to_raw_fd_frame f)) k of
        (Err e, k) \<Rightarrow> (Err (Io e), k)
      | (Ok _, k) \<Rightarrow> (Ok (), k))"

definition parse_classic_frame :: "can_frame \<Rightarrow> frame" where
  "parse_classic_frame raw =
     (let can_id = cf_id raw;
          ext = (can_id AND CAN_EFF_FLAG \<noteq> 0);
          rtr = (can_id AND CAN_RTR_FLAG \<noteq> 0);
          i = (if ext then can_id AND CAN_EFF_MASK else can_id AND CAN_SFF_MASK);
          len = min (unat (cf_dlc raw)) 8
      in default_frame\<lparr>f_id := i, f_ext := ext, f_rtr := rtr, f_data := take len (cf_data raw)\<rparr>)"

definition parse_fd_frame :: "canfd_frame \<Rightarrow> frame" where
  "parse_fd_frame raw =
     (let can_id = fd_id raw;
          ext = (can_id AND CAN_EFF_FLAG \<noteq> 0);
          i = (if ext then can_id AND CAN_EFF_MASK else can_id AND CAN_SFF_MASK);
          len = min (unat (fd_len raw)) 64
      in default_frame\<lparr>f_id := i, f_ext := ext, f_fd := True, f_brs := (fd_flags raw AND CANFD_BRS \<noteq> 0),
           f_esi := (fd_flags raw AND CANFD_ESI \<noteq> 0), f_data := take len (fd_data raw)\<rparr>)"

subsection \<open>Opening a bus\<close>

record 'k socketcan_bus =
  sc_fd :: int
  sc_closed :: bool
  sc_bus_off :: bool
  sc_subscribers :: "sub_inner list"
  sc_fd_enabled :: bool
  sc_kernel :: 'k

text \<open>
  \<^verbatim>\<open>get_iface_index\<close>: the name goes into a zeroed buffer of \<open>IFNAMSIZ\<close> bytes, with its terminating zero as
  far as it fits; a name with a zero byte in it is refused by \<^verbatim>\<open>CString::new\<close>.
\<close>

definition iface_request :: "nat \<Rightarrow> bytes \<Rightarrow> bytes" where
  "iface_request size_of_name name =
     (let name_bytes = name @ [0]; copy_len = min (length name_bytes) size_of_name
      in take copy_len name_bytes @ replicate (size_of_name - copy_len) 0)"

definition get_iface_index :: "'k libc \<Rightarrow> int \<Rightarrow> bytes \<Rightarrow> 'k \<Rightarrow> (can_error, int) result \<times> 'k" where
  "get_iface_index sys fd name k =
     (if 0 \<in> set name then (Err (Other ''invalid interface name''), k)
      else case sys_ifindex sys fd (iface_request (IFNAMSIZ sys) name) k of
        (Err e, k) \<Rightarrow> (Err (Io e), k)
      | (Ok i, k) \<Rightarrow> (Ok i, k))"

text \<open>
  \<^verbatim>\<open>SocketCanBus::new\<close>. The error number that is reported for a failed \<^verbatim>\<open>bind\<close> is read after \<^verbatim>\<open>close\<close>,
  so it is that of \<^verbatim>\<open>close\<close> if this fails too. A failed registration with the runtime drops the file
  and with it the descriptor. On success the reader task starts with the state that is returned.
\<close>

definition sc_new :: "'k libc \<Rightarrow> bytes \<Rightarrow> 'k \<Rightarrow> (can_error, 'k socketcan_bus) result \<times> 'k" where
  "sc_new sys iface k =
     (case sys_socket sys PF_CAN (SOCK_RAW sys) CAN_RAW k of
        (Err e, k) \<Rightarrow> (Err (Io e), k)
      | (Ok fd, k) \<Rightarrow>
     (case get_iface_index sys fd iface k of
        (Err e, k) \<Rightarrow> (Err e, k)
      | (Ok iface_idx, k) \<Rightarrow>
     (case sys_bind sys fd (AF_CAN sys) iface_idx k of
        (Err e, k) \<Rightarrow>
          (let (r, k) = sys_close sys fd k in (Err (Io (case r of Err e' \<Rightarrow> e' | Ok _ \<Rightarrow> e)), k))
      | (Ok _, k) \<Rightarrow>
     (let (fd_ret, k) = sys_setsockopt sys fd (SOL_CAN_RAW sys) CAN_RAW_FD_FRAMES (u32_to_le_bytes 1) k;
          fd_enabled = is_ok fd_ret;
          (_, k) = sys_setsockopt sys fd (SOL_CAN_RAW sys) CAN_RAW_ERR_FILTER (u32_to_le_bytes CAN_ERR_BUSOFF) k;
          (flags, k) = sys_fcntl sys fd (F_GETFL sys) 0 k;
          flags = (case flags of Ok v \<Rightarrow> v | Err _ \<Rightarrow> -1);
          (_, k) = sys_fcntl sys fd (F_SETFL sys) (flags OR O_NONBLOCK sys) k
      in case async_fd_new sys fd k of
           (Err e, k) \<Rightarrow> (let (_, k) = sys_close sys fd k in (Err (Io e), k))
         | (Ok _, k) \<Rightarrow>
             (Ok \<lparr>sc_fd = fd, sc_closed = False, sc_bus_off = False, sc_subscribers = [],
                  sc_fd_enabled = fd_enabled, sc_kernel = k\<rparr>, k)))))"

subsection \<open>The operations of the bus\<close>

definition sc_send :: "'k libc \<Rightarrow> frame \<Rightarrow> 'k socketcan_bus \<Rightarrow> (can_error, unit) result \<times> 'k socketcan_bus" where
  "sc_send sys f b =
     (if sc_closed b then (Err Closed, b)
      else if sc_bus_off b then (Err BusOff, b)
      else case validate_frame f of
        Err e \<Rightarrow> (Err e, b)
      | Ok _ \<Rightarrow>
          if f_xl f then
            (Err (Other ''socketcan: CAN XL frames are not supported on this transport''), b)
          else let (r, k) = (if f_fd f then send_fd_frame sys (sc_fd b) f (sc_kernel b)
                             else send_classic_frame sys (sc_fd b) f (sc_kernel b))
               in (r, b\<lparr>sc_kernel := k\<rparr>))"

definition sc_subscribe :: "nat \<Rightarrow> can_filter list \<Rightarrow> subscriber_options \<Rightarrow> 'k socketcan_bus \<Rightarrow>
    (can_error, nat) result \<times> 'k socketcan_bus" where
  "sc_subscribe now filters opts b =
     (if sc_closed b then (Err Closed, b)
      else let inner = sub_new now (chan_depth opts 64) (back_pressure opts) (rate_limit_per_sec opts)
           in (Ok (length (sc_subscribers b)), b\<lparr>sc_subscribers := sc_subscribers b @ [inner]\<rparr>))"

definition sc_close :: "'k socketcan_bus \<Rightarrow> (can_error, unit) result \<times> 'k socketcan_bus" where
  "sc_close b =
     (if sc_closed b then (Ok (), b)
      else (Ok (), b\<lparr>sc_closed := True, sc_subscribers := close_subs (sc_subscribers b)\<rparr>))"

definition sc_drop :: "'k socketcan_bus \<Rightarrow> 'k socketcan_bus" where
  "sc_drop b = b\<lparr>sc_closed := True\<rparr>"

subsection \<open>The reader task\<close>

text \<open>What the bytes that \<^verbatim>\<open>read\<close> returned mean: the frame and the identifier word with all its flags.\<close>

definition parse_read :: "bool \<Rightarrow> bytes \<Rightarrow> frame \<times> u32" where
  "parse_read fd_enabled bs =
     (if fd_enabled then
        let raw = canfd_of_bytes (filled CANFD_FRAME_SIZE bs);
            raw_can_id = fd_id raw;
            f = (if length bs = CANFD_FRAME_SIZE then parse_fd_frame raw
                 else let classic = \<lparr>cf_id = fd_id raw, cf_dlc = fd_len raw, cf_pad = 0, cf_res0 = 0,
                                     cf_res1 = 0, cf_data = take 8 (fd_data raw)\<rparr>
                      in parse_classic_frame classic)
        in (f, raw_can_id)
      else
        let raw = classic_of_bytes (filled CAN_FRAME_SIZE bs)
        in (parse_classic_frame raw, cf_id raw))"

datatype read_outcome = ReadStop | ReadAgain | ReadFrame frame u32

definition reader_read :: "'k libc \<Rightarrow> int \<Rightarrow> bool \<Rightarrow> 'k \<Rightarrow> read_outcome \<times> 'k" where
  "reader_read sys fd fd_enabled k =
     (case async_readable sys fd k of
        (Err _, k) \<Rightarrow> (ReadStop, k)
      | (Ok _, k) \<Rightarrow>
          (case sys_read sys fd (if fd_enabled then CANFD_FRAME_SIZE else CAN_FRAME_SIZE) k of
             (Err e, k) \<Rightarrow>
               if would_block sys e then (ReadAgain, async_clear_ready sys fd k) else (ReadStop, k)
           | (Ok bs, k) \<Rightarrow>
               (let (f, raw_can_id) = parse_read fd_enabled bs
                in (ReadFrame f raw_can_id, async_clear_ready sys fd k))))"

definition retain_dead :: "sub_inner list \<Rightarrow> sub_inner list" where
  "retain_dead ss = ss"

definition reader_handle :: "clock \<Rightarrow> frame \<Rightarrow> u32 \<Rightarrow> 'k socketcan_bus \<Rightarrow> 'k socketcan_bus" where
  "reader_handle clk f raw_can_id b =
     (if raw_can_id AND CAN_ERR_FLAG \<noteq> 0 then
        (if raw_can_id AND CAN_ERR_BUSOFF \<noteq> 0 then b\<lparr>sc_bus_off := True\<rparr> else b)
      else b\<lparr>sc_subscribers := deliver_all clk f 0 (retain_dead (sc_subscribers b))\<rparr>)"

text \<open>One round of the loop: whether the task goes on, and the state behind it.\<close>

definition reader_round :: "'k libc \<Rightarrow> clock \<Rightarrow> 'k socketcan_bus \<Rightarrow> bool \<times> 'k socketcan_bus" where
  "reader_round sys clk b =
     (if sc_closed b then (False, b)
      else case reader_read sys (sc_fd b) (sc_fd_enabled b) (sc_kernel b) of
        (ReadStop, k) \<Rightarrow> (False, b\<lparr>sc_kernel := k\<rparr>)
      | (ReadAgain, k) \<Rightarrow> (True, b\<lparr>sc_kernel := k\<rparr>)
      | (ReadFrame f raw_can_id, k) \<Rightarrow> (True, reader_handle clk f raw_can_id (b\<lparr>sc_kernel := k\<rparr>)))"

definition reader_exit :: "'k socketcan_bus \<Rightarrow> 'k socketcan_bus" where
  "reader_exit b = b\<lparr>sc_subscribers := close_subs (sc_subscribers b)\<rparr>"

text \<open>The task over the rounds whose clocks are given: whether it still runs, and the state.\<close>

fun reader_task :: "'k libc \<Rightarrow> clock list \<Rightarrow> 'k socketcan_bus \<Rightarrow> bool \<times> 'k socketcan_bus" where
  "reader_task sys [] b = (True, b)"
| "reader_task sys (clk # clks) b =
     (case reader_round sys clk b of
        (True, b) \<Rightarrow> reader_task sys clks b
      | (False, b) \<Rightarrow> (False, reader_exit b))"
section \<open>Identifier words\<close>

lemma id_masks:
  "unat (w :: u32) < 2 ^ 29 \<longleftrightarrow> w AND 0x1FFFFFFF = w" "unat (w :: u32) < 2 ^ 11 \<longleftrightarrow> w AND 0x7FF = w"
proof -
  have "w AND 0x1FFFFFFF = take_bit 29 w" "w AND 0x7FF = take_bit 11 w"
    by (simp_all add: take_bit_eq_mask mask_eq_exp_minus_1)
  then show "unat w < 2 ^ 29 \<longleftrightarrow> w AND 0x1FFFFFFF = w" "unat w < 2 ^ 11 \<longleftrightarrow> w AND 0x7FF = w"
    by (simp_all only: take_bit_self_iff)
qed

lemma id_no_flags:
  assumes "unat (w :: u32) < 2 ^ 29"
  shows "w AND 0x80000000 = 0" "w AND 0x40000000 = 0" "w AND 0x20000000 = 0"
proof -
  have low: "w AND m = w AND (0x1FFFFFFF AND m)" for m
    using assms unfolding id_masks and.assoc [symmetric] by simp
  from low [of "0x80000000"] low [of "0x40000000"] low [of "0x20000000"]
  show "w AND 0x80000000 = 0" "w AND 0x40000000 = 0" "w AND 0x20000000 = 0" by simp_all
qed

lemma wf_id_29: "wf_id f \<Longrightarrow> unat (f_id f) < 2 ^ 29"
  by (auto simp: wf_id_def split: if_splits)

text \<open>The identifier word keeps the identifier and the two flags apart, and never looks like an error frame.\<close>

lemma build_can_id_parts:
  assumes "wf_id f"
  shows "(build_can_id f AND CAN_EFF_FLAG \<noteq> 0) = f_ext f" "(build_can_id f AND CAN_RTR_FLAG \<noteq> 0) = f_rtr f"
    "build_can_id f AND CAN_ERR_FLAG = 0"
    "build_can_id f AND (if f_ext f then CAN_EFF_MASK else CAN_SFF_MASK) = f_id f"
proof -
  note flags = id_no_flags [OF wf_id_29 [OF assms]]
  have mask: "f_id f AND (if f_ext f then 0x1FFFFFFF else 0x7FF) = f_id f"
    using assms unfolding wf_id_def by (cases "f_ext f") (simp_all only: id_masks if_True if_False simp_thms)
  show "(build_can_id f AND CAN_EFF_FLAG \<noteq> 0) = f_ext f" "(build_can_id f AND CAN_RTR_FLAG \<noteq> 0) = f_rtr f"
    "build_can_id f AND CAN_ERR_FLAG = 0"
    by (cases "f_ext f"; cases "f_rtr f"; simp add: build_can_id_def flag_defs Let_def bit.conj_disj_distrib2 flags)+
  show "build_can_id f AND (if f_ext f then CAN_EFF_MASK else CAN_SFF_MASK) = f_id f"
    using mask by (cases "f_ext f"; cases "f_rtr f"; simp add: build_can_id_def flag_defs Let_def bit.conj_disj_distrib2)
qed

section \<open>Frames over the socket\<close>

text \<open>What of a frame the socket carries: everything but the fields of CAN XL.\<close>

definition wire_frame :: "frame \<Rightarrow> frame" where
  "wire_frame f = f\<lparr>f_sdt := 0, f_vcid := 0, f_af := 0, f_sec := False\<rparr>"

definition raw_bytes :: "frame \<Rightarrow> bytes" where
  "raw_bytes f = (if f_fd f then canfd_bytes (to_raw_fd_frame f) else classic_bytes (to_raw_classic_frame f))"

lemma filled_full: "length bs = n \<Longrightarrow> filled n bs = bs"
  by (simp add: filled_def)

lemma length_raw_bytes [simp]:
  "length (classic_bytes (to_raw_classic_frame f)) = 16" "length (canfd_bytes (to_raw_fd_frame f)) = 72"
  by (simp_all add: classic_bytes_def canfd_bytes_def to_raw_classic_frame_def to_raw_fd_frame_def Let_def)

lemma classic_of_classic_bytes: "length (cf_data r) = 8 \<Longrightarrow> classic_of_bytes (classic_bytes r) = r"
  by (simp add: classic_of_bytes_def classic_bytes_def u32_to_le_bytes_def)

lemma canfd_of_canfd_bytes: "length (fd_data r) = 64 \<Longrightarrow> canfd_of_bytes (canfd_bytes r) = r"
  by (simp add: canfd_of_bytes_def canfd_bytes_def u32_to_le_bytes_def)

text \<open>A classic frame in the larger buffer: its identifier, length and data are where those of an FD frame are.\<close>

lemma classic_in_fd_buffer:
  assumes "length (cf_data r) = 8"
  shows "let raw = canfd_of_bytes (filled CANFD_FRAME_SIZE (classic_bytes r))
    in fd_id raw = cf_id r \<and> fd_len raw = cf_dlc r \<and> take 8 (fd_data raw) = cf_data r"
  using assms
  by (simp add: canfd_of_bytes_def classic_bytes_def filled_def u32_to_le_bytes_def CANFD_FRAME_SIZE_def)

lemma wf_classic_wire:
  "wf_classic f \<Longrightarrow>
   wire_frame f = default_frame\<lparr>f_id := f_id f, f_ext := f_ext f, f_rtr := f_rtr f, f_data := f_data f\<rparr>"
  by (cases f) (simp add: wf_classic_def wire_frame_def default_frame_def)

lemma wf_fd_wire:
  "wf_fd f \<Longrightarrow>
   wire_frame f = default_frame\<lparr>f_id := f_id f, f_ext := f_ext f, f_fd := True, f_brs := f_brs f, f_esi := f_esi f,
     f_data := f_data f\<rparr>"
  by (cases f) (simp add: wf_fd_def wire_frame_def default_frame_def)

lemma parse_classic_raw:
  assumes "wf_classic f"
  shows "parse_classic_frame (to_raw_classic_frame f) = wire_frame f"
proof -
  have f: "wf_id f" "length (f_data f) \<le> 8" using assms by (simp_all add: wf_classic_def)
  have "unat (of_nat (length (f_data f)) :: u8) = length (f_data f)"
    using f(2) by (simp add: unat_of_nat)
  then show ?thesis
    using build_can_id_parts [OF f(1)] f(2) wf_classic_wire [OF assms]
    by (cases "f_ext f") (simp_all add: parse_classic_frame_def to_raw_classic_frame_def Let_def)
qed

lemma parse_fd_raw:
  assumes "wf_fd f"
  shows "parse_fd_frame (to_raw_fd_frame f) = wire_frame f"
proof -
  have f: "wf_id f" "length (f_data f) \<le> 64" using assms by (auto simp: wf_fd_def)
  have "unat (of_nat (length (f_data f)) :: u8) = length (f_data f)"
    using f(2) by (simp add: unat_of_nat)
  moreover have "(fd_flags (to_raw_fd_frame f) AND CANFD_BRS \<noteq> 0) = f_brs f"
    "(fd_flags (to_raw_fd_frame f) AND CANFD_ESI \<noteq> 0) = f_esi f"
    by (cases "f_brs f"; cases "f_esi f"; simp add: to_raw_fd_frame_def flag_defs Let_def)+
  ultimately show ?thesis
    using build_can_id_parts [OF f(1)] f(2) wf_fd_wire [OF assms]
    by (cases "f_ext f") (simp_all add: parse_fd_frame_def to_raw_fd_frame_def Let_def)
qed
lemma raw_frame_fields [simp]:
  "fd_id (to_raw_fd_frame f) = build_can_id f" "length (fd_data (to_raw_fd_frame f)) = 64"
  "cf_id (to_raw_classic_frame f) = build_can_id f" "length (cf_data (to_raw_classic_frame f)) = 8"
  by (simp_all add: to_raw_fd_frame_def to_raw_classic_frame_def Let_def)

lemma parse_read_raw:
  assumes "wf_frame f" "\<not> f_xl f" "fd_enabled \<or> \<not> f_fd f"
  shows "parse_read fd_enabled (raw_bytes f) = (wire_frame f, build_can_id f)"
proof (cases "f_fd f")
  case True
  with assms have "wf_fd f" by (auto simp: wf_frame_def wf_xl_def wf_classic_def)
  moreover have "canfd_of_bytes (filled CANFD_FRAME_SIZE (canfd_bytes (to_raw_fd_frame f))) = to_raw_fd_frame f"
    by (simp add: filled_full CANFD_FRAME_SIZE_def canfd_of_canfd_bytes)
  ultimately show ?thesis
    using True assms(3) parse_fd_raw [of f]
    by (simp add: parse_read_def raw_bytes_def CANFD_FRAME_SIZE_def Let_def)
next
  case False
  with assms have "wf_classic f" by (auto simp: wf_frame_def wf_xl_def wf_fd_def)
  note parsed = parse_classic_raw [OF this]
  have raw: "to_raw_classic_frame f = \<lparr>cf_id = cf_id (to_raw_classic_frame f), cf_dlc = cf_dlc (to_raw_classic_frame f),
      cf_pad = 0, cf_res0 = 0, cf_res1 = 0, cf_data = cf_data (to_raw_classic_frame f)\<rparr>"
    by (simp add: to_raw_classic_frame_def)
  show ?thesis
  proof (cases fd_enabled)
    case True
    then show ?thesis
      using classic_in_fd_buffer [of "to_raw_classic_frame f"] False parsed raw
      by (simp add: parse_read_def raw_bytes_def CANFD_FRAME_SIZE_def Let_def)
  next
    case False
    then show ?thesis
      using \<open>\<not> f_fd f\<close> parsed classic_of_classic_bytes [of "to_raw_classic_frame f"]
      by (simp add: parse_read_def raw_bytes_def CAN_FRAME_SIZE_def filled_full)
  qed
qed

text \<open>\<^verbatim>\<open>send\<close> in one equation: the checks in their order, then one write of the raw frame.\<close>

lemma sc_send_open:
  assumes "\<not> sc_closed b" "\<not> sc_bus_off b" "wf_frame f" "\<not> f_xl f"
  shows "sc_send sys f b =
    (case sys_write sys (sc_fd b) (raw_bytes f) (sc_kernel b) of
       (Err e, k) \<Rightarrow> (Err (Io e), b\<lparr>sc_kernel := k\<rparr>)
     | (Ok n, k) \<Rightarrow> (Ok (), b\<lparr>sc_kernel := k\<rparr>))"
  using assms validate_frame_iff [of f]
  by (simp add: sc_send_def raw_bytes_def send_fd_frame_def send_classic_frame_def split: prod.split sum.split)

lemma sc_send_refused:
  "sc_closed b \<Longrightarrow> sc_send sys f b = (Err Closed, b)"
  "\<not> sc_closed b \<Longrightarrow> sc_bus_off b \<Longrightarrow> sc_send sys f b = (Err BusOff, b)"
  "\<not> sc_closed b \<Longrightarrow> \<not> sc_bus_off b \<Longrightarrow> \<not> wf_frame f \<Longrightarrow> \<exists>s. sc_send sys f b = (Err (InvalidFrame s), b)"
  "\<not> sc_closed b \<Longrightarrow> \<not> sc_bus_off b \<Longrightarrow> f_xl f \<Longrightarrow> wf_frame f \<Longrightarrow> \<exists>s. sc_send sys f b = (Err (Other s), b)"
  using validate_frame_iff [of f] validate_frame_cases [of f] by (auto simp: sc_send_def)

lemma sc_send_frame [simp]:
  "sc_closed (snd (sc_send sys f b)) = sc_closed b" "sc_bus_off (snd (sc_send sys f b)) = sc_bus_off b"
  "sc_subscribers (snd (sc_send sys f b)) = sc_subscribers b" "sc_fd (snd (sc_send sys f b)) = sc_fd b"
  by (auto simp: sc_send_def Let_def split: sum.split prod.split)

section \<open>The contracts\<close>

definition sc_inv :: "'k socketcan_bus \<Rightarrow> bool" where
  "sc_inv b \<longleftrightarrow> (sc_closed b \<longrightarrow> list_all si_closed (sc_subscribers b))"

definition sc_update :: "nat \<Rightarrow> (sub_inner \<Rightarrow> sub_inner) \<Rightarrow> 'k socketcan_bus \<Rightarrow> 'k socketcan_bus" where
  "sc_update h g b = b\<lparr>sc_subscribers := (sc_subscribers b)[h := g (sc_subscribers b ! h)]\<rparr>"

lemmas sc_defs = sc_inv_def sc_subscribe_def sc_close_def Let_def

interpretation scbus: bus_lifecycle "\<lambda>clk. sc_send sys" sc_subscribe sc_close sc_closed sc_subscribers sc_inv
  for sys :: "'k libc"
  by unfold_locales (auto simp: sc_defs list_all_length sc_send_refused)

text \<open>A frame arrives when the reader task handles one that is not an error frame.\<close>

interpretation scports: bus_endpoints "\<lambda>clk f. reader_handle clk f 0" sc_update sc_subscribers "\<lambda>b h f. True" sc_inv
proof unfold_locales
  fix b :: "'k socketcan_bus" and h and g :: "sub_inner \<Rightarrow> sub_inner"
  assume "sc_inv b" "si_closed (sc_subscribers b ! h) \<Longrightarrow> si_closed (g (sc_subscribers b ! h))"
  then show "sc_inv (sc_update h g b)"
    by (cases "sc_closed b") (simp_all add: sc_inv_def sc_update_def list_all_length [symmetric],
      rule list_all_update, auto simp: list_all_length)
qed (auto simp: sc_inv_def reader_handle_def retain_dead_def sc_update_def deliver_all_closed nth_deliver_all)
section \<open>Calls and reader rounds in any order\<close>

text \<open>The reader task handles a frame after it has waited, so a call may come between; each is a step.\<close>

datatype sc_event =
    ScCall bus_op
  | ScRound clock
  | ScHandle clock frame u32
  | ScExit

fun sc_step :: "'k libc \<Rightarrow> sc_event \<Rightarrow> 'k socketcan_bus \<Rightarrow> 'k socketcan_bus" where
  "sc_step sys (ScCall c) b = snd (bus_call (\<lambda>clk. sc_send sys) sc_subscribe sc_close c b)"
| "sc_step sys (ScRound clk) b = snd (reader_round sys clk b)"
| "sc_step sys (ScHandle clk f raw_can_id) b = reader_handle clk f raw_can_id b"
| "sc_step sys ScExit b = reader_exit b"

lemma reader_handle_bus_off: "sc_bus_off b \<Longrightarrow> sc_bus_off (reader_handle clk f i b)"
  by (simp add: reader_handle_def)

lemma sc_step_bus_off: "sc_bus_off b \<Longrightarrow> sc_bus_off (sc_step sys e b)"
proof (cases e)
  case (ScCall c)
  moreover assume "sc_bus_off b"
  ultimately show ?thesis by (cases c) (simp_all add: case_prod_unfold sc_defs)
next
  case (ScRound clk)
  moreover assume "sc_bus_off b"
  ultimately show ?thesis
    by (simp add: reader_round_def reader_handle_bus_off split: prod.split read_outcome.split)
qed (simp_all add: reader_handle_bus_off reader_exit_def)

lemma sc_fold_bus_off: "sc_bus_off b \<Longrightarrow> sc_bus_off (fold (sc_step sys) es b)"
  by (induction es arbitrary: b) (simp_all add: sc_step_bus_off)

text \<open>A system without a network, for the witnesses: written frames are read back in their order.\<close>

definition pipe_libc :: "bytes list libc" where
  "pipe_libc =
     \<lparr>SOCK_RAW = 3, AF_CAN = 29, SOL_CAN_RAW = 101, IFNAMSIZ = 16, F_GETFL = 3, F_SETFL = 4, O_NONBLOCK = 2048,
      would_block = (\<lambda>e. e = 11), sys_socket = (\<lambda>d t p k. (Ok 5, [] # k)),
      sys_ifindex = (\<lambda>fd r k. (if hd r = 118 then Ok 2 else Err 19, k)),
      sys_bind = (\<lambda>fd a i k. (Ok (), k)), sys_setsockopt = (\<lambda>fd l n v k. (Ok (), k)),
      sys_fcntl = (\<lambda>fd c v k. (Ok 0, k)), sys_close = (\<lambda>fd k. (Ok (), filter (\<lambda>x. x \<noteq> []) k)),
      sys_read = (\<lambda>fd n k. case k of [] \<Rightarrow> (Err 11, []) | w # ws \<Rightarrow> (Ok (take n w), ws)),
      sys_write = (\<lambda>fd w k. (Ok (length w), k @ [w])), async_fd_new = (\<lambda>fd k. (Ok (), k)),
      async_readable = (\<lambda>fd k. (Ok (), k)), async_clear_ready = (\<lambda>fd k. k)\<rparr>"

definition pipe_bus :: "bytes list socketcan_bus" where
  "pipe_bus = \<lparr>sc_fd = 5, sc_closed = False, sc_bus_off = False, sc_subscribers = [], sc_fd_enabled = True, sc_kernel = []\<rparr>"

section \<open>Properties\<close>

text \<open>
  C29: A valid frame that is not CAN XL goes over the socket unchanged: \<^verbatim>\<open>send\<close> writes one raw frame, and
  when those bytes are read by the reader task of a bus (with FD support if the frame needs it), every
  open subscriber gets the frame, with all flags and with nothing lost but the fields of CAN XL.
\<close>

theorem sc_wire_roundtrip:
  assumes "wf_frame f" "\<not> f_xl f" "\<not> sc_closed t" "\<not> sc_bus_off t" "\<not> sc_closed r"
    and "sc_fd_enabled r \<or> \<not> f_fd f"
    and "sys_write sys (sc_fd t) (raw_bytes f) (sc_kernel t) = (Ok n, k)"
    and "async_readable sys (sc_fd r) (sc_kernel r) = (Ok (), k1)"
    and "sys_read sys (sc_fd r) (if sc_fd_enabled r then 72 else 16) k1 = (Ok (raw_bytes f), k2)"
  shows "sc_send sys f t = (Ok (), t\<lparr>sc_kernel := k\<rparr>) \<and>
    reader_round sys clk r = (True, r\<lparr>sc_kernel := async_clear_ready sys (sc_fd r) k2,
      sc_subscribers := deliver_all clk (wire_frame f) 0 (sc_subscribers r)\<rparr>)"
proof -
  have "wf_id f" using assms(1,2) by (auto simp: wf_frame_def wf_xl_def wf_fd_def wf_classic_def)
  from build_can_id_parts(3) [OF this] parse_read_raw [OF assms(1,2,6)] assms(5,8,9)
  have "reader_round sys clk r = (True, r\<lparr>sc_kernel := async_clear_ready sys (sc_fd r) k2,
      sc_subscribers := deliver_all clk (wire_frame f) 0 (sc_subscribers r)\<rparr>)"
    by (cases "sc_fd_enabled r")
      (simp_all add: reader_round_def reader_read_def reader_handle_def retain_dead_def CANFD_FRAME_SIZE_def CAN_FRAME_SIZE_def)
  with sc_send_open [OF assms(3,4,1,2), of sys] assms(7) show ?thesis by simp
qed

theorem sc_wire_roundtrip_witness:
  "let f = default_frame\<lparr>f_id := 0x18DAF110, f_ext := True, f_fd := True, f_esi := True, f_data := replicate 12 7\<rparr>;
       r = pipe_bus\<lparr>sc_subscribers := [sub_new 0 4 DropNewest 0], sc_kernel := [raw_bytes f]\<rparr>
   in map si_queue (sc_subscribers (snd (reader_round pipe_libc (\<lambda>_. 1) r))) = [[f]]"
proof -
  let ?f = "default_frame\<lparr>f_id := 0x18DAF110, f_ext := True, f_fd := True, f_esi := True, f_data := replicate 12 7\<rparr>"
  let ?r = "pipe_bus\<lparr>sc_subscribers := [sub_new 0 4 DropNewest 0], sc_kernel := [raw_bytes ?f]\<rparr>"
  have "wf_frame ?f" by (simp add: wf_frame_def wf_fd_def wf_id_def default_frame_def)
  moreover have "wire_frame ?f = ?f" by (simp add: wire_frame_def default_frame_def)
  moreover have "length (raw_bytes ?f) = 72" by (simp add: raw_bytes_def)
  ultimately show ?thesis
    using sc_wire_roundtrip [of ?f pipe_bus ?r pipe_libc 72 "[raw_bytes ?f]" "[raw_bytes ?f]" "[]" "\<lambda>_. 1"]
    by (simp add: pipe_bus_def pipe_libc_def default_frame_def sub_new_def sub_push_def rate_admit_def)
qed

text \<open>
  What \<^verbatim>\<open>send\<close> answers, and when it writes: a closed bus, a bus that is off, an invalid frame and a CAN
  XL frame are refused, in this order, each with its own error and without touching the bus; any other
  frame is written exactly once, as its raw frame, and only a failed write is an I/O error.
\<close>

theorem sc_send_outcomes:
  "let (r, b') = sc_send sys f b; (w, k) = sys_write sys (sc_fd b) (raw_bytes f) (sc_kernel b)
   in if sc_closed b then r = Err Closed \<and> b' = b
      else if sc_bus_off b then r = Err BusOff \<and> b' = b
      else if \<not> wf_frame f then (\<exists>s. r = Err (InvalidFrame s)) \<and> b' = b
      else if f_xl f then (\<exists>s. r = Err (Other s)) \<and> b' = b
      else r = (case w of Ok n \<Rightarrow> Ok () | Err e \<Rightarrow> Err (Io e)) \<and> b' = b\<lparr>sc_kernel := k\<rparr>"
proof -
  consider "sc_closed b" | "\<not> sc_closed b" "sc_bus_off b" | "\<not> sc_closed b" "\<not> sc_bus_off b" "\<not> wf_frame f"
    | "\<not> sc_closed b" "\<not> sc_bus_off b" "wf_frame f" "f_xl f" | "\<not> sc_closed b" "\<not> sc_bus_off b" "wf_frame f" "\<not> f_xl f"
    by blast
  then show ?thesis
  proof cases
    case 3
    with sc_send_refused(3) [OF 3, of sys] show ?thesis by auto
  next
    case 4
    with sc_send_refused(4) [OF 4(1,2,4,3), of sys] show ?thesis by auto
  next
    case 5
    then show ?thesis by (simp add: sc_send_open split: prod.split sum.split)
  qed (simp_all add: sc_send_refused split: prod.split)
qed

text \<open>
  A bus-off error frame that the reader task reads is delivered to no subscriber, and it stops the bus
  for good: after any further calls and reader rounds every \<^verbatim>\<open>send\<close> answers \<^verbatim>\<open>Closed\<close> or \<^verbatim>\<open>BusOff\<close> and writes
  nothing.
\<close>

theorem sc_bus_off_latches:
  assumes "reader_read sys (sc_fd b) (sc_fd_enabled b) (sc_kernel b) = (ReadFrame e raw_can_id, k)" "\<not> sc_closed b"
    and "raw_can_id AND CAN_ERR_FLAG \<noteq> 0" "raw_can_id AND CAN_ERR_BUSOFF \<noteq> 0"
  shows "let b1 = snd (reader_round sys clk b); b2 = fold (sc_step sys) es b1
    in sc_subscribers b1 = sc_subscribers b \<and> sc_send sys f b2 = (Err (if sc_closed b2 then Closed else BusOff), b2)"
proof -
  have r: "snd (reader_round sys clk b) = b\<lparr>sc_kernel := k, sc_bus_off := True\<rparr>"
    using assms by (simp add: reader_round_def reader_handle_def)
  then have "sc_bus_off (snd (reader_round sys clk b))" by simp
  from sc_fold_bus_off [OF this, of sys es] r show ?thesis by (simp add: Let_def sc_send_refused)
qed

theorem sc_bus_off_latches_witness:
  "let err = [0x40, 0, 0, 0x20, 8, 0, 0, 0, 0, 0, 0, 0, 0, 0, 0, 0];
       b = snd (reader_round pipe_libc (\<lambda>_. 0) (pipe_bus\<lparr>sc_kernel := [err]\<rparr>))
   in fst (sc_send pipe_libc default_frame b) = Err BusOff"
proof -
  let ?b = "pipe_bus\<lparr>sc_kernel := [[0x40, 0, 0, 0x20, 8, 0, 0, 0, 0, 0, 0, 0, 0, 0, 0, 0]]\<rparr>"
  have id: "u32_from_le_bytes 0x40 0 0 0x20 = 0x20000040" by (simp add: u32_from_le_bytes_def)
  obtain e k where "reader_read pipe_libc (sc_fd ?b) (sc_fd_enabled ?b) (sc_kernel ?b) = (ReadFrame e 0x20000040, k)"
    by (simp add: reader_read_def pipe_libc_def pipe_bus_def CANFD_FRAME_SIZE_def parse_read_def canfd_of_bytes_def filled_def id Let_def)
  from sc_bus_off_latches [OF this, of "\<lambda>_. 0" "[]" default_frame] show ?thesis
    by (simp add: flag_defs pipe_bus_def Let_def reader_round_def reader_read_def pipe_libc_def CANFD_FRAME_SIZE_def
      parse_read_def canfd_of_bytes_def filled_def id reader_handle_def)
qed
lemma pending_queue_kept:
  "\<not> sc_closed b \<Longrightarrow> OpClose \<notin> set cs \<Longrightarrow> h < length (sc_subscribers b) \<Longrightarrow>
   let b' = snd (bus_run (\<lambda>clk. sc_send sys) sc_subscribe sc_close cs b)
   in \<not> sc_closed b' \<and> sc_subscribers b' ! h = sc_subscribers b ! h"
proof (induction cs arbitrary: b)
  case (Cons c cs)
  let ?b = "snd (bus_call (\<lambda>clk. sc_send sys) sc_subscribe sc_close c b)"
  have "\<not> sc_closed ?b \<and> h < length (sc_subscribers ?b) \<and> sc_subscribers ?b ! h = sc_subscribers b ! h"
    using Cons.prems by (cases c) (simp_all add: case_prod_unfold sc_subscribe_def Let_def nth_append)
  with Cons.IH [of ?b] Cons.prems(2) show ?case by (simp add: case_prod_unfold Let_def)
qed simp

text \<open>
  When the socket fails, the reader task closes the queues it knows and ends, but the bus stays open:
  a later \<^verbatim>\<open>subscribe\<close> succeeds, and its receiver waits on a queue that no call short of \<^verbatim>\<open>close\<close> ever fills
  or ends.
\<close>

theorem sc_dead_reader:
  assumes "reader_read sys (sc_fd b) (sc_fd_enabled b) (sc_kernel b) = (ReadStop, k)" "\<not> sc_closed b" "OpClose \<notin> set cs"
  shows "let (running, b1) = reader_task sys [clk] b; (r, b2) = sc_subscribe now fs opts b1;
             b3 = snd (bus_run (\<lambda>clk. sc_send sys) sc_subscribe sc_close cs b2); h = length (sc_subscribers b)
         in \<not> running \<and> list_all si_closed (sc_subscribers b1) \<and> \<not> sc_closed b1 \<and> r = Ok h \<and>
            fst (recv_poll (sc_subscribers b3 ! h)) = Pending"
proof -
  let ?b1 = "reader_exit (b\<lparr>sc_kernel := k\<rparr>)"
  let ?q = "sub_new now (chan_depth opts 64) (back_pressure opts) (rate_limit_per_sec opts)"
  let ?b2 = "?b1\<lparr>sc_subscribers := sc_subscribers ?b1 @ [?q]\<rparr>"
  have t: "reader_task sys [clk] b = (False, ?b1)"
    using assms(1,2) by (simp add: reader_round_def)
  have s: "sc_subscribe now fs opts ?b1 = (Ok (length (sc_subscribers b)), ?b2)"
    using assms(2) by (simp add: sc_subscribe_def reader_exit_def Let_def)
  have "\<not> sc_closed ?b2" "length (sc_subscribers b) < length (sc_subscribers ?b2)"
    "sc_subscribers ?b2 ! length (sc_subscribers b) = ?q"
    using assms(2) by (simp_all add: reader_exit_def nth_append)
  with pending_queue_kept [of ?b2 cs "length (sc_subscribers b)" sys] assms(3)
  have "fst (recv_poll (sc_subscribers (snd (bus_run (\<lambda>clk. sc_send sys) sc_subscribe sc_close cs ?b2)) !
      length (sc_subscribers b))) = Pending"
    by (simp add: Let_def recv_poll_def sub_pop_def sub_new_def)
  with assms(2) show ?thesis unfolding t s Let_def prod.case by (simp add: reader_exit_def)
qed

theorem sc_dead_reader_witness:
  "let sys = pipe_libc\<lparr>would_block := (\<lambda>_. False)\<rparr>; b = snd (reader_task sys [\<lambda>_. 0] pipe_bus);
       b = snd (sc_subscribe 0 [] default_options b); b = snd (sc_send sys default_frame b)
   in fst (recv_poll (sc_subscribers b ! 0)) = Pending"
proof -
  let ?sys = "pipe_libc\<lparr>would_block := (\<lambda>_. False)\<rparr>"
  have "reader_read ?sys (sc_fd pipe_bus) (sc_fd_enabled pipe_bus) (sc_kernel pipe_bus) = (ReadStop, [])"
    by (simp add: reader_read_def pipe_libc_def pipe_bus_def)
  from sc_dead_reader [OF this, of "[OpSend (\<lambda>_. 0) default_frame]" "\<lambda>_. 0" 0 "[]" default_options]
  show ?thesis by (simp add: pipe_bus_def Let_def case_prod_unfold)
qed

text \<open>
  Which failures of opening a bus give the socket back, for a kernel where only \<^verbatim>\<open>socket\<close> opens and only
  \<^verbatim>\<open>close\<close> closes a descriptor: a failed \<^verbatim>\<open>bind\<close> or registration leaves no descriptor behind; a failed
  look-up of the interface leaves the new socket open, with nobody to close it.
\<close>

theorem sc_new_descriptors:
  assumes "sys_socket sys PF_CAN (SOCK_RAW sys) CAN_RAW k = (Ok fd, k1)" "opened k1 = insert fd (opened k)" "fd \<notin> opened k"
    and "\<And>k. opened (snd (sys_close sys fd k)) = opened k - {fd}"
    and "\<And>r k. opened (snd (sys_ifindex sys fd r k)) = opened k"
    and "\<And>a i k. opened (snd (sys_bind sys fd a i k)) = opened k"
    and "\<And>l n v k. opened (snd (sys_setsockopt sys fd l n v k)) = opened k"
    and "\<And>c v k. opened (snd (sys_fcntl sys fd c v k)) = opened k"
    and "\<And>k. opened (snd (async_fd_new sys fd k)) = opened k"
  shows "let (r, k') = sc_new sys iface k; found = is_ok (fst (get_iface_index sys fd iface k1))
    in opened k' = (if is_ok r \<or> \<not> found then insert fd (opened k) else opened k)"
proof -
  have get: "opened (snd (get_iface_index sys fd iface k)) = opened k" for k
    using assms(5) by (auto simp: get_iface_index_def split: prod.split sum.split) (metis snd_conv)+
  have closed: "insert fd (opened k) - {fd} = opened k" using assms(3) by simp
  obtain i k2 where i: "get_iface_index sys fd iface k1 = (i, k2)" by fastforce
  with get [of k1] assms(2) have k2: "opened k2 = insert fd (opened k)" by simp
  show ?thesis
  proof (cases i)
    case (Inl e)
    with assms(1) i k2 show ?thesis by (simp add: sc_new_def)
  next
    case (Inr idx)
    obtain w k3 where w: "sys_bind sys fd (AF_CAN sys) idx k2 = (w, k3)" by fastforce
    with assms(6) [of "AF_CAN sys" idx k2] k2 have k3: "opened k3 = insert fd (opened k)" by simp
    show ?thesis
    proof (cases w)
      case (Inl e)
      with assms(1) i w Inr k3 closed assms(4) [of k3] show ?thesis
        by (simp add: sc_new_def case_prod_unfold Let_def)
    next
      case (Inr u)
      with assms(1) i w \<open>i = Ok idx\<close> k3 closed assms(4,7,8,9) show ?thesis
        by (simp add: sc_new_def case_prod_unfold Let_def split: sum.split)
    qed
  qed
qed
text \<open>A kernel that is only its set of open descriptors, and knows no interface.\<close>

definition fd_libc :: "int set libc" where
  "fd_libc =
     \<lparr>SOCK_RAW = 3, AF_CAN = 29, SOL_CAN_RAW = 101, IFNAMSIZ = 16, F_GETFL = 3, F_SETFL = 4, O_NONBLOCK = 2048,
      would_block = (\<lambda>e. e = 11), sys_socket = (\<lambda>d t p k. (Ok 5, insert 5 k)),
      sys_ifindex = (\<lambda>fd r k. (Err 19, k)), sys_bind = (\<lambda>fd a i k. (Ok (), k)),
      sys_setsockopt = (\<lambda>fd l n v k. (Ok (), k)), sys_fcntl = (\<lambda>fd c v k. (Ok 0, k)),
      sys_close = (\<lambda>fd k. (Ok (), k - {fd})), sys_read = (\<lambda>fd n k. (Err 11, k)),
      sys_write = (\<lambda>fd w k. (Ok (length w), k)), async_fd_new = (\<lambda>fd k. (Ok (), k)),
      async_readable = (\<lambda>fd k. (Ok (), k)), async_clear_ready = (\<lambda>fd k. k)\<rparr>"

theorem sc_new_descriptors_witness:
  "fst (sc_new fd_libc [99, 97, 110, 57] {1}) = Err (Io 19) \<and> snd (sc_new fd_libc [99, 97, 110, 57] {1}) = {1, 5}"
proof -
  have "fst (sc_new fd_libc [99, 97, 110, 57] {1}) = Err (Io 19)"
    by (simp add: sc_new_def fd_libc_def get_iface_index_def)
  moreover have "\<not> is_ok (fst (get_iface_index fd_libc 5 [99, 97, 110, 57] {1, 5}))"
    by (simp add: fd_libc_def get_iface_index_def)
  moreover have "let (r, k') = sc_new fd_libc [99, 97, 110, 57] {1};
      found = is_ok (fst (get_iface_index fd_libc 5 [99, 97, 110, 57] {1, 5}))
    in k' = (if is_ok r \<or> \<not> found then insert 5 {1} else {1})"
    by (rule sc_new_descriptors) (simp_all add: fd_libc_def insert_commute)
  ultimately show ?thesis by (simp only: case_prod_unfold Let_def) (simp add: insert_commute)
qed

end
