(* ===== verification/Can_Adapt.thy ===== *)
theory Can_Adapt
  imports Can_Bus_Contract Can_Receiver_Steps
begin

text \<open>
  The RELAY adapter of \<^verbatim>\<open>src/adapt.rs\<close>: frames to messages and back, the message buffer \<open>adapt_queue\<close>,
  the adapter's calls, and the two tasks behind a subscription. \<^verbatim>\<open>Utc::now()\<close> is an argument, the bus
  behind the adapter a parameter of its calls, and the channel to the caller the environment that
  answers each \<^verbatim>\<open>tx.send\<close>. The tasks run in atomic steps, like \<^verbatim>\<open>recv\<close> in \<open>Can_Receiver_Steps\<close>: a critical section of a mutex
  is a step, and so is every access of a closed flag or of a \<^verbatim>\<open>Notify\<close> outside of one.
\<close>

section \<open>The code\<close>

subsection \<open>Frames and messages\<close>

definition meta_insert_if :: "bool \<Rightarrow> string \<Rightarrow> string \<Rightarrow> (string \<rightharpoonup> string) \<Rightarrow> (string \<rightharpoonup> string)" where
  "meta_insert_if c k v meta = (if c then meta(k \<mapsto> v) else meta)"

definition to_message :: "int \<Rightarrow> frame \<Rightarrow> message" where
  "to_message now f =
     (let meta = Map.empty
            (''can.ext'' \<mapsto> show_bool (f_ext f), ''can.fd'' \<mapsto> show_bool (f_fd f),
             ''can.rtr'' \<mapsto> show_bool (f_rtr f), ''can.brs'' \<mapsto> show_bool (f_brs f));
          meta = meta_insert_if (f_esi f) ''can.esi'' ''true'' meta;
          meta = (if f_xl f then
                    let meta = meta(''can.xl'' \<mapsto> ''true'');
                        meta = meta_insert_if (f_sdt f \<noteq> 0) ''can.sdt'' (show_dec (unat (f_sdt f))) meta;
                        meta = meta_insert_if (f_vcid f \<noteq> 0) ''can.vcid'' (show_dec (unat (f_vcid f))) meta;
                        meta = meta_insert_if (f_af f \<noteq> 0) ''can.af'' (show_dec (unat (f_af f))) meta
                    in meta_insert_if (f_sec f) ''can.sec'' ''true'' meta
                  else meta)
      in \<lparr>m_protocol = Can, m_version = default_version, m_id = show_dec (unat (f_id f)), m_payload = f_data f,
          m_timestamp = now, m_seq = 0, m_meta = meta\<rparr>)"

definition meta_flag :: "message \<Rightarrow> string \<Rightarrow> bool" where
  "meta_flag m k = (case m_meta m k of None \<Rightarrow> False | Some v \<Rightarrow> v = ''true'')"

definition meta_number :: "(string \<Rightarrow> 'w :: zero option) \<Rightarrow> message \<Rightarrow> string \<Rightarrow> 'w" where
  "meta_number parse m k = (case Option.bind (m_meta m k) parse of None \<Rightarrow> 0 | Some n \<Rightarrow> n)"

definition from_message :: "message \<Rightarrow> (can_error, frame) result" where
  "from_message m =
     (case parse_u32 (m_id m) of
        None \<Rightarrow> Err (invalid_frame (''invalid CAN ID: '' @ [CHR 0x27] @ m_id m @ [CHR 0x27]))
      | Some i \<Rightarrow>
          Ok \<lparr>f_id = i, f_ext = meta_flag m ''can.ext'', f_rtr = meta_flag m ''can.rtr'', f_fd = meta_flag m ''can.fd'',
              f_brs = meta_flag m ''can.brs'', f_esi = meta_flag m ''can.esi'', f_xl = meta_flag m ''can.xl'',
              f_sdt = meta_number parse_u8 m ''can.sdt'', f_vcid = meta_number parse_u8 m ''can.vcid'',
              f_af = meta_number parse_u32 m ''can.af'', f_sec = meta_flag m ''can.sec'', f_data = m_payload m\<rparr>)"

subsection \<open>The message buffer\<close>

record adapt_queue =
  aq_queue :: "message list"
  aq_capacity :: nat
  aq_policy :: back_pressure
  aq_closed :: bool

definition aq_new :: "nat \<Rightarrow> back_pressure \<Rightarrow> adapt_queue" where
  "aq_new capacity policy = \<lparr>aq_queue = [], aq_capacity = max capacity 1, aq_policy = policy, aq_closed = False\<rparr>"

text \<open>
  What \<^verbatim>\<open>push\<close> does while it holds the mutex: it stores the message (and has to notify), drops it, or finds no room
  under \<^verbatim>\<open>Block\<close> (and has to wait).
\<close>

datatype aq_outcome = Stored | Dropped | No_room

definition aq_push :: "message \<Rightarrow> adapt_queue \<Rightarrow> aq_outcome \<times> adapt_queue" where
  "aq_push m q =
     (case aq_policy q of
        DropNewest \<Rightarrow>
          if length (aq_queue q) < aq_capacity q then (Stored, q\<lparr>aq_queue := aq_queue q @ [m]\<rparr>) else (Dropped, q)
      | DropOldest \<Rightarrow>
          (let ms = (if length (aq_queue q) \<ge> aq_capacity q then tl (aq_queue q) else aq_queue q)
           in (Stored, q\<lparr>aq_queue := ms @ [m]\<rparr>))
      | Block \<Rightarrow>
          if length (aq_queue q) < aq_capacity q then (Stored, q\<lparr>aq_queue := aq_queue q @ [m]\<rparr>) else (No_room, q))"

text \<open>A \<^verbatim>\<open>pop_front\<close> under the mutex.\<close>

definition aq_pop :: "adapt_queue \<Rightarrow> message option \<times> adapt_queue" where
  "aq_pop q = (case aq_queue q of m # ms \<Rightarrow> (Some m, q\<lparr>aq_queue := ms\<rparr>) | [] \<Rightarrow> (None, q))"

text \<open>The store of \<^verbatim>\<open>close\<close>; its \<^verbatim>\<open>notify_waiters\<close> is a step of its own.\<close>

definition aq_close :: "adapt_queue \<Rightarrow> adapt_queue" where
  "aq_close q = q\<lparr>aq_closed := True\<rparr>"

subsection \<open>The two tasks\<close>

text \<open>
  Where the tasks of one subscription stand. While it is \<open>Receiving\<close> the producer is inside \<^verbatim>\<open>frame_rx.recv()\<close>, whose own position
  is \<open>rx_pc\<close>. \<open>Storing\<close>, \<open>Notifying\<close>, \<open>Room_wait\<close> and \<open>Room_asleep\<close> are the steps of \<^verbatim>\<open>push\<close>: the mutex, the
  notification, the call of \<^verbatim>\<open>notify_pop.notified()\<close> and its wait. \<open>Ending\<close> and \<open>Ending_notify\<close> are the two of \<^verbatim>\<open>close\<close>.
\<close>

datatype producer_pc =
    Receiving
  | Storing message
  | Notifying
  | Room_wait message
  | Room_asleep message
  | Ending
  | Ending_notify
  | Producer_done

text \<open>
  The forwarder inside \<^verbatim>\<open>pop\<close>: the first look at the queue, the notification after a message is taken, the look at
  the closed flag, the last look, the call of \<^verbatim>\<open>notify_push.notified()\<close> and its wait; and in \<^verbatim>\<open>tx.send\<close>.
\<close>

datatype forwarder_pc =
    Popping
  | Popped message
  | Loading
  | Last_pop
  | Push_wait
  | Push_asleep
  | Handing message
  | Forwarder_done

text \<open>
  \<open>pl_rx\<close> is the receiver of the bus subscription with its queue and its \<^verbatim>\<open>Notify\<close>; \<open>pl_pushed\<close> and \<open>pl_popped\<close> are
  \<^verbatim>\<open>notify_push\<close>, on which only the forwarder waits, and \<^verbatim>\<open>notify_pop\<close>, on which only the producer waits.
\<close>

record 'n pipeline =
  pl_rx :: "'n rx_state"
  pl_seq :: u64
  pl_queue :: adapt_queue
  pl_pushed :: 'n
  pl_popped :: 'n
  pl_producer :: producer_pc
  pl_forwarder :: forwarder_pc

definition pipeline_new :: "'n notify \<Rightarrow> sub_inner \<Rightarrow> nat \<Rightarrow> back_pressure \<Rightarrow> 'n pipeline" where
  "pipeline_new nt frame_rx depth policy =
     \<lparr>pl_rx = rx_init nt frame_rx, pl_seq = 0, pl_queue = aq_new depth policy, pl_pushed = nt_new nt, pl_popped = nt_new nt,
      pl_producer = Receiving, pl_forwarder = Popping\<rparr>"

text \<open>One step of a task: a critical section, or one access outside of them; \<open>None\<close> while it sleeps or when it has ended.\<close>

definition recv_again :: "'n pipeline \<Rightarrow> 'n pipeline" where
  "recv_again p = p\<lparr>pl_producer := Receiving, pl_rx := (pl_rx p)\<lparr>rx_pc := Pop_next\<rparr>\<rparr>"

definition producer_step :: "'n notify \<Rightarrow> int \<Rightarrow> 'n pipeline \<Rightarrow> 'n pipeline option" where
  "producer_step nt now p =
     (case pl_producer p of
        Receiving \<Rightarrow>
          (case rx_pc (pl_rx p) of
             Got None \<Rightarrow> Some (p\<lparr>pl_producer := Ending\<rparr>)
           | Got (Some f) \<Rightarrow> Some (p\<lparr>pl_producer := Storing ((to_message now f)\<lparr>m_seq := pl_seq p\<rparr>), pl_seq := pl_seq p + 1\<rparr>)
           | _ \<Rightarrow> map_option (\<lambda>rx. p\<lparr>pl_rx := rx\<rparr>) (rx_step nt (pl_rx p)))
      | Storing m \<Rightarrow>
          (case aq_push m (pl_queue p) of
             (Stored, q) \<Rightarrow> Some (p\<lparr>pl_queue := q, pl_producer := Notifying\<rparr>)
           | (Dropped, q) \<Rightarrow> Some (recv_again (p\<lparr>pl_queue := q\<rparr>))
           | (No_room, q) \<Rightarrow> Some (p\<lparr>pl_queue := q, pl_producer := Room_wait m\<rparr>))
      | Notifying \<Rightarrow> Some (recv_again (p\<lparr>pl_pushed := nt_one nt (pl_pushed p)\<rparr>))
      | Room_wait m \<Rightarrow> Some (p\<lparr>pl_popped := nt_wait nt (pl_popped p), pl_producer := Room_asleep m\<rparr>)
      | Room_asleep m \<Rightarrow>
          if nt_task nt (pl_popped p) = Woken_task
          then Some (p\<lparr>pl_popped := nt_resume nt (pl_popped p), pl_producer := Storing m\<rparr>) else None
      | Ending \<Rightarrow> Some (p\<lparr>pl_queue := aq_close (pl_queue p), pl_producer := Ending_notify\<rparr>)
      | Ending_notify \<Rightarrow> Some (p\<lparr>pl_pushed := nt_waiters nt (pl_pushed p), pl_producer := Producer_done\<rparr>)
      | Producer_done \<Rightarrow> None)"

text \<open>\<open>sent\<close> is the channel's answer to \<^verbatim>\<open>tx.send\<close>: false when the caller has dropped its receiver.\<close>

definition forwarder_step :: "'n notify \<Rightarrow> bool \<Rightarrow> 'n pipeline \<Rightarrow> 'n pipeline option" where
  "forwarder_step nt sent p =
     (case pl_forwarder p of
        Popping \<Rightarrow>
          (case aq_pop (pl_queue p) of
             (Some m, q) \<Rightarrow> Some (p\<lparr>pl_queue := q, pl_forwarder := Popped m\<rparr>)
           | (None, q) \<Rightarrow> Some (p\<lparr>pl_queue := q, pl_forwarder := Loading\<rparr>))
      | Popped m \<Rightarrow> Some (p\<lparr>pl_popped := nt_one nt (pl_popped p), pl_forwarder := Handing m\<rparr>)
      | Loading \<Rightarrow> Some (p\<lparr>pl_forwarder := if aq_closed (pl_queue p) then Last_pop else Push_wait\<rparr>)
      | Last_pop \<Rightarrow>
          (case aq_pop (pl_queue p) of
             (Some m, q) \<Rightarrow> Some (p\<lparr>pl_queue := q, pl_forwarder := Handing m\<rparr>)
           | (None, q) \<Rightarrow> Some (p\<lparr>pl_queue := q, pl_forwarder := Forwarder_done\<rparr>))
      | Push_wait \<Rightarrow> Some (p\<lparr>pl_pushed := nt_wait nt (pl_pushed p), pl_forwarder := Push_asleep\<rparr>)
      | Push_asleep \<Rightarrow>
          if nt_task nt (pl_pushed p) = Woken_task
          then Some (p\<lparr>pl_pushed := nt_resume nt (pl_pushed p), pl_forwarder := Popping\<rparr>) else None
      | Handing m \<Rightarrow> Some (p\<lparr>pl_forwarder := if sent then Popping else Forwarder_done\<rparr>)
      | Forwarder_done \<Rightarrow> None)"

subsection \<open>The adapter's calls\<close>

definition adapter_protocol :: protocol where
  "adapter_protocol = Can"

definition adapter_send ::
    "(frame \<Rightarrow> 'b \<Rightarrow> (can_error, unit) result \<times> 'b) \<Rightarrow> message \<Rightarrow> 'b \<Rightarrow> (relay_error, unit) result \<times> 'b" where
  "adapter_send bus_send m b =
     (case from_message m of
        Err _ \<Rightarrow> (Err RelayNotConnected, b)
      | Ok f \<Rightarrow>
          (case bus_send f b of
             (Err e, b) \<Rightarrow>
               (Err (case e of
                       Closed \<Rightarrow> RelayClosed
                     | NotConnected \<Rightarrow> RelayNotConnected
                     | Timeout \<Rightarrow> RelayTimeout
                     | PayloadTooLarge \<Rightarrow> RelayPayloadTooLarge
                     | _ \<Rightarrow> RelayClosed), b)
           | (Ok u, b) \<Rightarrow> (Ok u, b)))"

text \<open>
  \<^verbatim>\<open>subscribe\<close> subscribes on the bus to all frames, with twice the depth and dropping the newest; \<open>store\<close>
  gives the queue behind the receiver that the bus returns.
\<close>

definition adapter_subscribe ::
    "'n notify \<Rightarrow> (can_filter list \<Rightarrow> subscriber_options \<Rightarrow> 'b \<Rightarrow> (can_error, nat) result \<times> 'b) \<Rightarrow> ('b \<Rightarrow> nat \<Rightarrow> sub_inner) \<Rightarrow>
     subscriber_options \<Rightarrow> 'b \<Rightarrow> (relay_error, 'n pipeline) result \<times> 'b" where
  "adapter_subscribe nt bus_subscribe store opts b =
     (let depth = chan_depth opts 64;
          policy = back_pressure opts
      in case bus_subscribe []
             \<lparr>channel_depth = depth * 2, back_pressure = DropNewest, rate_limit_per_sec = 0\<rparr> b of
           (Err _, b) \<Rightarrow> (Err RelayClosed, b)
         | (Ok h, b) \<Rightarrow> (Ok (pipeline_new nt (store b h) depth policy), b))"

definition adapter_close ::
    "('b \<Rightarrow> (can_error, unit) result \<times> 'b) \<Rightarrow> 'b \<Rightarrow> (relay_error, unit) result \<times> 'b" where
  "adapter_close bus_close b =
     (case bus_close b of (Err _, b) \<Rightarrow> (Err RelayClosed, b) | (Ok u, b) \<Rightarrow> (Ok u, b))"

section \<open>The queue contract\<close>

text \<open>Under the two dropping policies the buffer is a policy queue; under \<^verbatim>\<open>Block\<close> a push may have to wait.\<close>

definition dropping :: "adapt_queue \<Rightarrow> bool" where
  "dropping q \<longleftrightarrow> aq_policy q \<noteq> Block \<and> 0 < aq_capacity q"

interpretation adaptq: policy_queue "\<lambda>m q. snd (aq_push m q)" aq_pop aq_queue aq_capacity aq_policy dropping
  by unfold_locales
    (auto simp: aq_push_def aq_pop_def dropping_def enqueue_spec_def split: back_pressure.splits list.splits)

lemma aq_push_frame [simp]:
  "aq_capacity (snd (aq_push m q)) = aq_capacity q" "aq_policy (snd (aq_push m q)) = aq_policy q"
  "aq_closed (snd (aq_push m q)) = aq_closed q"
  by (simp_all add: aq_push_def split: back_pressure.split)

lemma aq_push_bounded:
  "0 < aq_capacity q \<Longrightarrow> length (aq_queue q) \<le> aq_capacity q \<Longrightarrow> length (aq_queue (snd (aq_push m q))) \<le> aq_capacity q"
  by (auto simp: aq_push_def split: back_pressure.split)

text \<open>What a push makes of the buffer and the message, outcome by outcome.\<close>

lemma aq_push_Stored:
  assumes "aq_push m q = (Stored, q')"
  shows "subseq (aq_queue q') (aq_queue q @ [m])"
    "aq_policy q = Block \<or> length (aq_queue q) < aq_capacity q \<Longrightarrow> aq_queue q' = aq_queue q @ [m]"
    "length (aq_queue q') \<le> Suc (length (aq_queue q))"
proof -
  have tl: "subseq (tl xs @ [m]) (xs @ [m])" "subseq xs (xs @ [m])" for xs
    by (cases xs) (auto intro: prefix_imp_subseq)
  show "subseq (aq_queue q') (aq_queue q @ [m])"
    "aq_policy q = Block \<or> length (aq_queue q) < aq_capacity q \<Longrightarrow> aq_queue q' = aq_queue q @ [m]"
    "length (aq_queue q') \<le> Suc (length (aq_queue q))"
    using assms tl [of "aq_queue q"] by (auto simp: aq_push_def split: back_pressure.splits if_splits)
qed

lemma aq_push_refused:
  "aq_push m q = (Dropped, q') \<Longrightarrow> q' = q \<and> aq_policy q = DropNewest \<and> aq_capacity q \<le> length (aq_queue q)"
  "aq_push m q = (No_room, q') \<Longrightarrow> q' = q \<and> aq_policy q = Block \<and> aq_capacity q \<le> length (aq_queue q)"
  by (auto simp: aq_push_def Let_def split: back_pressure.splits if_splits)

lemma aq_pop_eqs [simp]:
  "aq_pop q = (None, q') \<longleftrightarrow> aq_queue q = [] \<and> q' = q"
  "aq_pop q = (Some m, q') \<longleftrightarrow> (\<exists>ms. aq_queue q = m # ms \<and> q' = q\<lparr>aq_queue := ms\<rparr>)"
  by (auto simp: aq_pop_def split: list.splits)

section \<open>Runs of the two tasks\<close>

datatype adapt_label =
    Took int frame
  | Producer_moves
  | Handed message bool
  | Forwarder_moves
  | BusPush nat frame bool
  | BusClose
  | BusNotify

definition produced :: "int \<Rightarrow> 'n pipeline \<Rightarrow> adapt_label" where
  "produced now p =
     (case (pl_producer p, rx_pc (pl_rx p)) of (Receiving, Got (Some f)) \<Rightarrow> Took now f | _ \<Rightarrow> Producer_moves)"

definition forwarded :: "bool \<Rightarrow> 'n pipeline \<Rightarrow> adapt_label" where
  "forwarded sent p = (case pl_forwarder p of Handing m \<Rightarrow> Handed m sent | _ \<Rightarrow> Forwarder_moves)"

text \<open>
  The tasks and the bus in any order. The bus pushes and closes while it holds its mutex, so it never pushes to a queue
  that it has closed; the label of a push says whether the queue took the frame.
\<close>

inductive adapt_step :: "'n notify \<Rightarrow> 'n pipeline \<Rightarrow> adapt_label \<Rightarrow> 'n pipeline \<Rightarrow> bool" for nt where
  produce: "producer_step nt now p = Some p' \<Longrightarrow> adapt_step nt p (produced now p) p'"
| forward: "forwarder_step nt sent p = Some p' \<Longrightarrow> adapt_step nt p (forwarded sent p) p'"
| bus_push: "\<not> si_closed (rx_sub (pl_rx p)) \<Longrightarrow>
    adapt_step nt p (BusPush t f (fst (sub_push t f (rx_sub (pl_rx p))))) (p\<lparr>pl_rx := push_step nt t f (pl_rx p)\<rparr>)"
| bus_close: "adapt_step nt p BusClose (p\<lparr>pl_rx := close_store (pl_rx p)\<rparr>)"
| bus_notify: "rx_closers (pl_rx p) > 0 \<Longrightarrow> adapt_step nt p BusNotify (p\<lparr>pl_rx := close_notify nt (pl_rx p)\<rparr>)"

inductive adapt_run :: "'n notify \<Rightarrow> 'n pipeline \<Rightarrow> adapt_label list \<Rightarrow> 'n pipeline \<Rightarrow> bool" for nt where
  nothing: "adapt_run nt p [] p"
| more: "adapt_run nt p ls p' \<Longrightarrow> adapt_step nt p' l p'' \<Longrightarrow> adapt_run nt p (ls @ [l]) p''"

definition took :: "adapt_label list \<Rightarrow> (int \<times> frame) list" where
  "took ls = List.map_filter (\<lambda>l. case l of Took now f \<Rightarrow> Some (now, f) | _ \<Rightarrow> None) ls"

definition handed :: "adapt_label list \<Rightarrow> message list" where
  "handed ls = List.map_filter (\<lambda>l. case l of Handed m sent \<Rightarrow> Some m | _ \<Rightarrow> None) ls"

text \<open>The frames that the subscription took from the bus.\<close>

definition arrivals_of :: "adapt_label list \<Rightarrow> frame list" where
  "arrivals_of ls = List.map_filter (\<lambda>l. case l of BusPush t f ok \<Rightarrow> if ok then Some f else None | _ \<Rightarrow> None) ls"

lemma traces_snoc [simp]:
  "took [] = []" "handed [] = []" "arrivals_of [] = []"
  "took (ls @ [l]) = took ls @ (case l of Took now f \<Rightarrow> [(now, f)] | _ \<Rightarrow> [])"
  "handed (ls @ [l]) = handed ls @ (case l of Handed m sent \<Rightarrow> [m] | _ \<Rightarrow> [])"
  "arrivals_of (ls @ [l]) = arrivals_of ls @ (case l of BusPush t f ok \<Rightarrow> if ok then [f] else [] | _ \<Rightarrow> [])"
  by (simp_all add: took_def handed_def arrivals_of_def List.map_filter_def split: adapt_label.split)

text \<open>The messages for a sequence of frames: converted, and numbered from \<open>k\<close> on.\<close>

fun numbered_messages :: "nat \<Rightarrow> (int \<times> frame) list \<Rightarrow> message list" where
  "numbered_messages k [] = []"
| "numbered_messages k ((now, f) # tfs) = (to_message now f)\<lparr>m_seq := of_nat k\<rparr> # numbered_messages (Suc k) tfs"

lemma numbered_messages_snoc:
  "numbered_messages k (tfs @ [(now, f)]) =
     numbered_messages k tfs @ [(to_message now f)\<lparr>m_seq := of_nat (k + length tfs)\<rparr>]"
  by (induction tfs arbitrary: k) auto

lemma numbered_messages_length [simp]: "length (numbered_messages k tfs) = length tfs"
  by (induction k tfs rule: numbered_messages.induct) simp_all

text \<open>The messages between the two ends: with the forwarder, in the buffer, and with the producer.\<close>

definition at_forwarder :: "forwarder_pc \<Rightarrow> message list" where
  "at_forwarder pc = (case pc of Popped m \<Rightarrow> [m] | Handing m \<Rightarrow> [m] | _ \<Rightarrow> [])"

definition at_producer :: "producer_pc \<Rightarrow> message list" where
  "at_producer pc = (case pc of Storing m \<Rightarrow> [m] | Room_wait m \<Rightarrow> [m] | Room_asleep m \<Rightarrow> [m] | _ \<Rightarrow> [])"

definition in_flight :: "'n pipeline \<Rightarrow> message list" where
  "in_flight p = at_forwarder (pl_forwarder p) @ aq_queue (pl_queue p) @ at_producer (pl_producer p)"

lemma at_forwarder_simps [simp]:
  "at_forwarder Popping = []" "at_forwarder (Popped m) = [m]" "at_forwarder Loading = []" "at_forwarder Last_pop = []" "at_forwarder Push_wait = []"
  "at_forwarder Push_asleep = []" "at_forwarder (Handing m) = [m]" "at_forwarder Forwarder_done = []" "length (at_forwarder pc) \<le> 1"
  by (simp_all add: at_forwarder_def split: forwarder_pc.split)

lemma at_producer_simps [simp]:
  "at_producer Receiving = []" "at_producer (Storing m) = [m]" "at_producer Notifying = []" "at_producer (Room_wait m) = [m]"
  "at_producer (Room_asleep m) = [m]" "at_producer Ending = []" "at_producer Ending_notify = []" "at_producer Producer_done = []"
  "length (at_producer pc) \<le> 1"
  by (simp_all add: at_producer_def split: producer_pc.split)

section \<open>Conversion\<close>

lemma meta_insert_if_apply: "meta_insert_if c k v meta k' = (if c \<and> k' = k then Some v else meta k')"
  by (simp add: meta_insert_if_def)

lemma show_bool_true [simp]: "show_bool b = ''true'' \<longleftrightarrow> b"
  by (simp add: show_bool_def)

text \<open>The metadata of a frame's message, key by key.\<close>

lemma to_message_flags:
  "meta_flag (to_message now f) ''can.ext'' = f_ext f" "meta_flag (to_message now f) ''can.rtr'' = f_rtr f"
  "meta_flag (to_message now f) ''can.fd'' = f_fd f" "meta_flag (to_message now f) ''can.brs'' = f_brs f"
  "meta_flag (to_message now f) ''can.esi'' = f_esi f" "meta_flag (to_message now f) ''can.xl'' = f_xl f"
  "meta_flag (to_message now f) ''can.sec'' = (f_xl f \<and> f_sec f)"
  by (cases "f_xl f"; simp add: meta_flag_def to_message_def meta_insert_if_apply Let_def)+

lemma to_message_numbers:
  "meta_number parse_u8 (to_message now f) ''can.sdt'' = (if f_xl f then f_sdt f else 0)"
  "meta_number parse_u8 (to_message now f) ''can.vcid'' = (if f_xl f then f_vcid f else 0)"
  "meta_number parse_u32 (to_message now f) ''can.af'' = (if f_xl f then f_af f else 0)"
  by (cases "f_xl f"; simp add: meta_number_def to_message_def meta_insert_if_apply Let_def)+

lemma from_to_message:
  "from_message (to_message now f) =
     Ok (if f_xl f then f else f\<lparr>f_sdt := 0, f_vcid := 0, f_af := 0, f_sec := False\<rparr>)"
proof -
  have "m_id (to_message now f) = show_dec (unat (f_id f))" "m_payload (to_message now f) = f_data f"
    by (simp_all add: to_message_def Let_def)
  then show ?thesis by (simp add: from_message_def to_message_flags to_message_numbers)
qed

lemma from_message_seq [simp]: "from_message (m\<lparr>m_seq := n\<rparr>) = from_message m"
  by (simp add: from_message_def meta_flag_def meta_number_def split: option.split)


section \<open>The stream\<close>

text \<open>What every run keeps: the numbering, the bound of the buffer, and the stream; nothing is missing from it under \<open>Block\<close>,
  nor before more frames have been taken than the buffer holds.\<close>

definition adapt_inv :: "nat \<Rightarrow> back_pressure \<Rightarrow> adapt_label list \<Rightarrow> 'n pipeline \<Rightarrow> bool" where
  "adapt_inv depth policy ls p \<longleftrightarrow>
     pl_seq p = of_nat (length (took ls)) \<and> aq_policy (pl_queue p) = policy \<and>
     aq_capacity (pl_queue p) = max depth 1 \<and> length (aq_queue (pl_queue p)) \<le> max depth 1 \<and>
     subseq (handed ls @ in_flight p) (numbered_messages 0 (took ls)) \<and>
     (policy = Block \<or> length (took ls) \<le> max depth 1 \<longrightarrow> handed ls @ in_flight p = numbered_messages 0 (took ls))"

lemma adapt_inv_new: "adapt_inv depth policy [] (pipeline_new nt s depth policy)"
  by (simp add: adapt_inv_def pipeline_new_def aq_new_def in_flight_def)

text \<open>A step that takes no frame and moves no message but from one place to the next keeps it.\<close>

lemma adapt_inv_moves:
  assumes "adapt_inv depth policy ls p" "pl_seq p' = pl_seq p" "took (ls @ [l]) = took ls"
    and "aq_capacity (pl_queue p') = aq_capacity (pl_queue p)" "aq_policy (pl_queue p') = aq_policy (pl_queue p)"
    and "length (aq_queue (pl_queue p')) \<le> length (aq_queue (pl_queue p))"
    and "handed (ls @ [l]) @ in_flight p' = handed ls @ in_flight p"
  shows "adapt_inv depth policy (ls @ [l]) p'"
  using assms by (simp add: adapt_inv_def)

lemma store_step_inv:
  assumes "adapt_inv depth policy ls p" "pl_producer p = Storing m" "aq_push m (pl_queue p) = (out, q)"
    and "p' = (case out of Stored \<Rightarrow> p\<lparr>pl_queue := q, pl_producer := Notifying\<rparr>
                 | Dropped \<Rightarrow> recv_again (p\<lparr>pl_queue := q\<rparr>)
                 | No_room \<Rightarrow> p\<lparr>pl_queue := q, pl_producer := Room_wait m\<rparr>)"
  shows "adapt_inv depth policy (ls @ [Producer_moves]) p'"
proof -
  let ?h = "handed ls @ at_forwarder (pl_forwarder p)" and ?n = "numbered_messages 0 (took ls)"
  note keep = aq_push_frame [of m "pl_queue p", unfolded assms(3) snd_conv]
  have cap: "0 < aq_capacity (pl_queue p)" using assms(1) by (simp add: adapt_inv_def)
  have here: "subseq (?h @ aq_queue (pl_queue p) @ [m]) ?n"
    "policy = Block \<or> length (took ls) \<le> max depth 1 \<Longrightarrow> ?h @ aq_queue (pl_queue p) @ [m] = ?n"
    using assms(1,2) by (simp_all add: adapt_inv_def in_flight_def)
  have fits: "length (aq_queue (pl_queue p)) < aq_capacity (pl_queue p)" if "length (took ls) \<le> max depth 1"
  proof -
    have "length (?h @ aq_queue (pl_queue p) @ [m]) = length (took ls)" using here(2) that by (metis numbered_messages_length)
    then show ?thesis using that assms(1) by (simp add: adapt_inv_def)
  qed
  show ?thesis
  proof (cases out)
    case Stored
    note push = aq_push_Stored [OF assms(3) [unfolded Stored]]
    have "length (aq_queue q) \<le> max depth 1"
      using aq_push_bounded [OF cap, of m] assms(1,3) by (auto simp: adapt_inv_def)
    moreover have "subseq (?h @ aq_queue q) (?h @ aq_queue (pl_queue p) @ [m])"
      using push(1) by (simp only: append_assoc subseq_append')
    then have "subseq (?h @ aq_queue q) ?n" using here(1) by (rule subseq_order.order_trans)
    moreover have "?h @ aq_queue q = ?n" if "policy = Block \<or> length (took ls) \<le> max depth 1"
      using that push(2) here(2) fits assms(1) by (auto simp: adapt_inv_def)
    ultimately show ?thesis
      using assms(1,4) keep Stored by (simp add: adapt_inv_def in_flight_def)
  next
    case Dropped
    note push = aq_push_refused(1) [OF assms(3) [unfolded Dropped]]
    have "subseq (?h @ aq_queue q) (?h @ aq_queue (pl_queue p) @ [m])" using push by (simp add: prefix_imp_subseq)
    then have "subseq (?h @ aq_queue q) ?n" using here(1) by (rule subseq_order.order_trans)
    moreover have "policy \<noteq> Block" "\<not> length (took ls) \<le> max depth 1"
      using push fits assms(1) by (auto simp: adapt_inv_def)
    ultimately show ?thesis
      using assms(1,4) push Dropped by (simp add: adapt_inv_def in_flight_def recv_again_def)
  next
    case No_room
    with aq_push_refused(2) [OF assms(3) [unfolded No_room]] assms show ?thesis
      by (intro adapt_inv_moves [OF assms(1)]) (simp_all add: in_flight_def)
  qed
qed

lemma producer_step_inv:
  assumes inv: "adapt_inv depth policy ls p" and step: "producer_step nt now p = Some p'"
  shows "adapt_inv depth policy (ls @ [produced now p]) p'"
proof (cases "pl_producer p")
  case (Storing m)
  obtain out q where q: "aq_push m (pl_queue p) = (out, q)" by fastforce
  from store_step_inv [OF inv Storing q refl] step show ?thesis
    by (cases out) (simp_all add: producer_step_def produced_def Storing q)
next
  case Receiving
  show ?thesis
  proof (cases "\<exists>f. rx_pc (pl_rx p) = Got (Some f)")
    case True
    then obtain f where f: "rx_pc (pl_rx p) = Got (Some f)" ..
    let ?m = "(to_message now f)\<lparr>m_seq := pl_seq p\<rparr>"
    have p': "p' = p\<lparr>pl_producer := Storing ?m, pl_seq := pl_seq p + 1\<rparr>"
      using step by (simp add: producer_step_def Receiving f)
    have "subseq (handed ls @ in_flight p @ [?m]) (numbered_messages 0 (took ls) @ [?m])"
      using inv unfolding adapt_inv_def append_assoc [symmetric] by (simp only: subseq_append)
    then show ?thesis using inv
      by (auto simp: p' adapt_inv_def produced_def in_flight_def Receiving f numbered_messages_snoc add.commute)
  next
    case False
    then have "produced now p = Producer_moves" by (auto simp: produced_def Receiving split: recv_pc.split option.split)
    moreover from False step have "pl_queue p' = pl_queue p \<and> pl_seq p' = pl_seq p \<and> in_flight p' = in_flight p"
      by (auto simp: producer_step_def Receiving in_flight_def split: recv_pc.splits option.splits)
    ultimately show ?thesis by (intro adapt_inv_moves [OF inv]) simp_all
  qed
qed (use step in \<open>auto simp: producer_step_def produced_def recv_again_def in_flight_def aq_close_def
      intro!: adapt_inv_moves [OF inv] split: if_splits\<close>)

lemma forwarder_step_inv:
  assumes inv: "adapt_inv depth policy ls p" and step: "forwarder_step nt sent p = Some p'"
  shows "adapt_inv depth policy (ls @ [forwarded sent p]) p'"
  by (cases "pl_forwarder p"; cases "aq_queue (pl_queue p)")
    (use step in \<open>auto simp: forwarder_step_def forwarded_def in_flight_def aq_pop_def intro!: adapt_inv_moves [OF inv] split: if_splits\<close>)

lemma adapt_run_inv:
  "adapt_run nt p ls p' \<Longrightarrow> p = pipeline_new nt s depth policy \<Longrightarrow> adapt_inv depth policy ls p'"
proof (induction rule: adapt_run.induct)
  case (nothing p)
  then show ?case by (simp add: adapt_inv_new)
next
  case (more p ls p' l p'')
  note inv = more.IH [OF more.prems]
  from more.hyps(2) show ?case
    by cases (use producer_step_inv [OF inv] forwarder_step_inv [OF inv] in
      \<open>auto intro!: adapt_inv_moves [OF inv] simp: in_flight_def\<close>)
qed

section \<open>Who waits for what\<close>

text \<open>
  The receiver of the subscription: \<open>rx_inv\<close>, and its stream ends only when the queue is closed and empty. The producer
  leaves it alone until it calls \<^verbatim>\<open>recv\<close> again.
\<close>

definition rx_live :: "'n notify \<Rightarrow> 'n pipeline \<Rightarrow> bool" where
  "rx_live nt p \<longleftrightarrow>
     rx_inv nt (pl_rx p) \<and>
     (rx_pc (pl_rx p) = Final_pop \<longrightarrow> si_closed (rx_sub (pl_rx p))) \<and>
     (rx_pc (pl_rx p) = Got None \<longrightarrow> si_closed (rx_sub (pl_rx p)) \<and> si_queue (rx_sub (pl_rx p)) = []) \<and>
     (pl_producer p \<noteq> Receiving \<longrightarrow> (\<exists>r. rx_pc (pl_rx p) = Got r)) \<and>
     (pl_producer p \<in> {Ending, Ending_notify, Producer_done} \<longrightarrow> rx_pc (pl_rx p) = Got None)"

text \<open>
  The forwarder is registered exactly while it sleeps. Beside a message it never sleeps unwoken, nor is it about to
  sleep without a permit, unless the producer is just about to notify.
\<close>

definition pushed_live :: "'n notify \<Rightarrow> 'n pipeline \<Rightarrow> bool" where
  "pushed_live nt p \<longleftrightarrow>
     (pl_forwarder p = Push_asleep \<longleftrightarrow> nt_task nt (pl_pushed p) \<noteq> No_task) \<and>
     (pl_producer p = Notifying \<or> aq_queue (pl_queue p) = [] \<or>
        (pl_forwarder p \<in> {Loading, Push_wait} \<longrightarrow> nt_permit nt (pl_pushed p)) \<and> nt_task nt (pl_pushed p) \<noteq> Waiting_task)"

text \<open>The producer that waits for room, in the same way.\<close>

definition popped_live :: "'n notify \<Rightarrow> 'n pipeline \<Rightarrow> bool" where
  "popped_live nt p \<longleftrightarrow>
     ((\<exists>m. pl_producer p = Room_asleep m) \<longleftrightarrow> nt_task nt (pl_popped p) \<noteq> No_task) \<and>
     ((\<exists>m. pl_forwarder p = Popped m) \<or> aq_capacity (pl_queue p) \<le> length (aq_queue (pl_queue p)) \<or>
        ((\<exists>m. pl_producer p = Room_wait m) \<longrightarrow> nt_permit nt (pl_popped p)) \<and> nt_task nt (pl_popped p) \<noteq> Waiting_task)"

text \<open>The producer closes the buffer when it ends; the forwarder ends behind the last message, or when the caller has refused one.\<close>

definition ends_live :: "bool \<Rightarrow> 'n pipeline \<Rightarrow> bool" where
  "ends_live refused p \<longleftrightarrow>
     aq_closed (pl_queue p) = (pl_producer p \<in> {Ending_notify, Producer_done}) \<and>
     (pl_forwarder p = Last_pop \<longrightarrow> aq_closed (pl_queue p)) \<and>
     (pl_forwarder p = Forwarder_done \<longrightarrow> refused \<or> aq_closed (pl_queue p) \<and> aq_queue (pl_queue p) = [])"

definition adapt_live :: "'n notify \<Rightarrow> bool \<Rightarrow> 'n pipeline \<Rightarrow> bool" where
  "adapt_live nt refused p \<longleftrightarrow> rx_live nt p \<and> pushed_live nt p \<and> popped_live nt p \<and> ends_live refused p"

lemma rx_move_live:
  assumes laws: "notify_laws nt" and "rx_live nt p" "rx_move nt (pl_rx p) l rx" "pl_producer p = Receiving \<or> l \<noteq> Receive"
    and "l \<noteq> Call_recv" "\<And>t f. l = Push t f \<Longrightarrow> \<not> si_closed (rx_sub (pl_rx p))"
  shows "rx_live nt (p\<lparr>pl_rx := rx\<rparr>)"
proof -
  have "rx_inv nt rx" using rx_inv_step [OF laws _ assms(3)] assms(2) by (simp add: rx_live_def)
  with assms(3) show ?thesis
  proof cases
    case receive
    with assms(2,4) \<open>rx_inv nt rx\<close> show ?thesis
      by (cases "rx_pc (pl_rx p)") (auto simp: rx_live_def rx_step_def sub_pop_def Let_def split: if_splits list.splits)
  next
    case (push t f)
    with assms(2,6) \<open>rx_inv nt rx\<close> show ?thesis by (auto simp: rx_live_def push_step_def case_prod_unfold Let_def)
  qed (use assms(2,5) \<open>rx_inv nt rx\<close> in \<open>auto simp: rx_live_def close_store_def close_notify_def sub_close_def\<close>)
qed

lemma rx_again_live:
  "rx_live nt p \<Longrightarrow> rx_pc (pl_rx p) = Got r \<Longrightarrow> pl_rx p' = (pl_rx p)\<lparr>rx_pc := Pop_next\<rparr> \<Longrightarrow> pl_producer p' = Receiving \<Longrightarrow>
   rx_live nt p'"
  by (simp add: rx_live_def rx_inv_def)

lemma rx_kept_live:
  "rx_live nt p \<Longrightarrow> pl_rx p' = pl_rx p \<Longrightarrow> pl_producer p \<noteq> Receiving \<Longrightarrow>
   pl_producer p' \<in> {Ending, Ending_notify, Producer_done} \<longrightarrow> pl_producer p \<in> {Ending, Ending_notify, Producer_done} \<Longrightarrow>
   rx_live nt p'"
  by (auto simp: rx_live_def)

lemma producer_step_rx_live:
  assumes laws: "notify_laws nt" and live: "rx_live nt p" and step: "producer_step nt now p = Some p'"
  shows "rx_live nt p'"
proof (cases "pl_producer p")
  case Receiving
  show ?thesis
  proof (cases "\<exists>r. rx_pc (pl_rx p) = Got r")
    case True
    with live step Receiving show ?thesis by (auto simp: producer_step_def rx_live_def split: option.splits)
  next
    case False
    with step Receiving obtain rx where rx: "rx_step nt (pl_rx p) = Some rx" "p' = p\<lparr>pl_rx := rx\<rparr>"
      by (auto simp: producer_step_def split: recv_pc.splits)
    from rx_move_live [OF laws live rx_move.receive [OF rx(1)]] show ?thesis by (simp add: rx(2) Receiving)
  qed
next
  case (Storing m)
  then have "pl_producer p \<noteq> Receiving" by simp
  with live obtain r where r: "rx_pc (pl_rx p) = Got r" by (auto simp: rx_live_def)
  obtain out q where q: "aq_push m (pl_queue p) = (out, q)" by fastforce
  show ?thesis
  proof (cases out)
    case Dropped
    with step Storing q show ?thesis by (intro rx_again_live [OF live r]) (auto simp: producer_step_def recv_again_def)
  qed (use step Storing q in \<open>auto simp: producer_step_def intro: rx_kept_live [OF live]\<close>)
next
  case Notifying
  then have "pl_producer p \<noteq> Receiving" by simp
  with live obtain r where r: "rx_pc (pl_rx p) = Got r" by (auto simp: rx_live_def)
  from step Notifying show ?thesis by (intro rx_again_live [OF live r]) (auto simp: producer_step_def recv_again_def)
qed (use step in \<open>auto simp: producer_step_def intro: rx_kept_live [OF live] split: if_splits\<close>)

text \<open>Inside \<^verbatim>\<open>recv\<close> the producer leaves the message buffer alone.\<close>

lemma receiving_step:
  assumes "pl_producer p = Receiving" "producer_step nt now p = Some p'"
  shows "pl_queue p' = pl_queue p" "pl_pushed p' = pl_pushed p" "pl_popped p' = pl_popped p" "pl_forwarder p' = pl_forwarder p"
    "pl_producer p' \<in> {Receiving, Ending} \<union> range Storing"
  using assms by (auto simp: producer_step_def split: recv_pc.splits option.splits)

text \<open>The three outcomes of the producer's critical section.\<close>

lemma storing_step:
  assumes "pl_producer p = Storing m" "producer_step nt now p = Some p'"
  shows "pl_pushed p' = pl_pushed p" "pl_popped p' = pl_popped p" "pl_forwarder p' = pl_forwarder p"
    "aq_closed (pl_queue p') = aq_closed (pl_queue p)" "aq_capacity (pl_queue p') = aq_capacity (pl_queue p)"
    "pl_producer p' = Notifying \<and> length (aq_queue (pl_queue p)) \<le> length (aq_queue (pl_queue p')) \<or>
     pl_producer p' = Receiving \<and> pl_queue p' = pl_queue p \<or>
     pl_producer p' = Room_wait m \<and> pl_queue p' = pl_queue p \<and> aq_capacity (pl_queue p) \<le> length (aq_queue (pl_queue p))"
proof -
  obtain out q where q: "aq_push m (pl_queue p) = (out, q)" by fastforce
  note keep = aq_push_frame [of m "pl_queue p", unfolded q snd_conv]
  have "pl_pushed p' = pl_pushed p \<and> pl_popped p' = pl_popped p \<and> pl_forwarder p' = pl_forwarder p \<and>
    aq_closed (pl_queue p') = aq_closed (pl_queue p) \<and> aq_capacity (pl_queue p') = aq_capacity (pl_queue p)"
    using assms keep q by (cases out) (auto simp: producer_step_def recv_again_def)
  then show "pl_pushed p' = pl_pushed p" "pl_popped p' = pl_popped p" "pl_forwarder p' = pl_forwarder p"
    "aq_closed (pl_queue p') = aq_closed (pl_queue p)" "aq_capacity (pl_queue p') = aq_capacity (pl_queue p)" by simp_all
  have grows: "length (aq_queue (pl_queue p)) \<le> length (aq_queue q)" if "out = Stored"
    using q that by (auto simp: aq_push_def split: back_pressure.splits if_splits)
  show "pl_producer p' = Notifying \<and> length (aq_queue (pl_queue p)) \<le> length (aq_queue (pl_queue p')) \<or>
     pl_producer p' = Receiving \<and> pl_queue p' = pl_queue p \<or>
     pl_producer p' = Room_wait m \<and> pl_queue p' = pl_queue p \<and> aq_capacity (pl_queue p) \<le> length (aq_queue (pl_queue p))"
    using assms grows aq_push_refused [of m "pl_queue p" q] q by (cases out) (auto simp: producer_step_def recv_again_def)
qed

lemma producer_step_pushed_live:
  assumes laws: "notify_laws nt" and live: "pushed_live nt p" and step: "producer_step nt now p = Some p'"
  shows "pushed_live nt p'"
proof (cases "pl_producer p")
  case Receiving
  from live receiving_step [OF Receiving step] Receiving show ?thesis by (auto simp: pushed_live_def)
next
  case (Storing m)
  from live storing_step [OF Storing step] Storing show ?thesis by (auto simp: pushed_live_def)
qed (use live step notify_laws_simps(3-6) [OF laws] in
  \<open>auto simp: producer_step_def recv_again_def aq_close_def pushed_live_def split: if_splits\<close>)

lemma producer_step_popped_live:
  assumes laws: "notify_laws nt" and live: "popped_live nt p" and step: "producer_step nt now p = Some p'"
  shows "popped_live nt p'"
proof (cases "pl_producer p")
  case Receiving
  from live receiving_step [OF Receiving step] Receiving show ?thesis by (auto simp: popped_live_def)
next
  case (Storing m)
  from live storing_step [OF Storing step] Storing show ?thesis by (auto simp: popped_live_def)
qed (use live step notify_laws_simps(7-10) [OF laws] in
  \<open>auto simp: producer_step_def recv_again_def aq_close_def popped_live_def split: if_splits\<close>)

lemma producer_step_ends_live:
  assumes live: "ends_live refused p" and step: "producer_step nt now p = Some p'"
  shows "ends_live refused p'"
proof (cases "pl_producer p")
  case Receiving
  from live receiving_step [OF Receiving step] Receiving show ?thesis by (auto simp: ends_live_def)
next
  case (Storing m)
  from live storing_step [OF Storing step] Storing show ?thesis by (auto simp: ends_live_def)
qed (use live step in \<open>auto simp: producer_step_def recv_again_def aq_close_def ends_live_def split: if_splits\<close>)

lemma forwarder_step_pushed_live:
  assumes laws: "notify_laws nt" and live: "pushed_live nt p" and step: "forwarder_step nt sent p = Some p'"
  shows "pushed_live nt p'"
proof (cases "pl_forwarder p")
  case Popping
  with live step show ?thesis by (auto simp: forwarder_step_def aq_pop_def pushed_live_def split: list.splits)
next
  case Last_pop
  with live step show ?thesis by (auto simp: forwarder_step_def aq_pop_def pushed_live_def split: list.splits)
qed (use live step notify_laws_simps(7-10) [OF laws] in
  \<open>auto simp: forwarder_step_def pushed_live_def split: if_splits\<close>)

lemma forwarder_step_popped_live:
  assumes laws: "notify_laws nt" and live: "popped_live nt p" and last: "pl_forwarder p = Last_pop \<longrightarrow> \<not> (\<exists>m. pl_producer p = Room_wait m \<or> pl_producer p = Room_asleep m)"
    and step: "forwarder_step nt sent p = Some p'"
  shows "popped_live nt p'"
proof (cases "pl_forwarder p")
  case Popping
  with live step show ?thesis by (auto simp: forwarder_step_def aq_pop_def popped_live_def split: list.splits)
next
  case Last_pop
  with live step last show ?thesis by (auto simp: forwarder_step_def aq_pop_def popped_live_def split: list.splits)
qed (use live step notify_laws_simps(3-6) [OF laws] in
  \<open>auto simp: forwarder_step_def popped_live_def split: if_splits\<close>)

lemma forwarder_step_ends_live:
  assumes live: "ends_live refused p" and step: "forwarder_step nt sent p = Some p'"
  shows "ends_live (refused \<or> (\<exists>m. forwarded sent p = Handed m False)) p'"
  by (cases "pl_forwarder p"; cases "aq_queue (pl_queue p)")
    (use live step in \<open>auto simp: forwarder_step_def forwarded_def aq_pop_def ends_live_def split: if_splits\<close>)

text \<open>The bus and the two tasks keep all of it.\<close>

definition refused :: "adapt_label list \<Rightarrow> bool" where
  "refused ls \<longleftrightarrow> (\<exists>m. Handed m False \<in> set ls)"

lemma adapt_live_new: "notify_laws nt \<Longrightarrow> adapt_live nt False (pipeline_new nt s depth policy)"
  using notify_laws_simps(1,2) [of nt]
  by (simp add: adapt_live_def rx_live_def pushed_live_def popped_live_def ends_live_def pipeline_new_def rx_init_def rx_inv_def aq_new_def)

lemma others_keep_rx:
  assumes "adapt_live nt r p" "rx_live nt (p\<lparr>pl_rx := rx\<rparr>)"
  shows "adapt_live nt r (p\<lparr>pl_rx := rx\<rparr>)"
  using assms by (auto simp: adapt_live_def pushed_live_def popped_live_def ends_live_def)

lemma adapt_step_live:
  assumes laws: "notify_laws nt" and live: "adapt_live nt r p" and step: "adapt_step nt p l p'"
  shows "adapt_live nt (r \<or> (\<exists>m. l = Handed m False)) p'"
proof -
  note parts = live [unfolded adapt_live_def]
  from step show ?thesis
  proof cases
    case (produce now)
    have "l \<noteq> Handed m False" for m
      using produce by (auto simp: produced_def split: producer_pc.splits recv_pc.splits option.splits)
    with producer_step_rx_live [OF laws _ produce(2)] producer_step_pushed_live [OF laws _ produce(2)]
      producer_step_popped_live [OF laws _ produce(2)] producer_step_ends_live [OF _ produce(2)] parts
    show ?thesis by (simp add: adapt_live_def)
  next
    case (forward sent)
    have "pl_rx p' = pl_rx p" "pl_producer p' = pl_producer p"
      using forward(2) by (auto simp: forwarder_step_def split: forwarder_pc.splits prod.splits option.splits if_splits)
    then have "rx_live nt p'" using parts by (simp add: rx_live_def)
    moreover have "pl_forwarder p = Last_pop \<longrightarrow> \<not> (\<exists>m. pl_producer p = Room_wait m \<or> pl_producer p = Room_asleep m)"
      using parts by (auto simp: ends_live_def)
    ultimately show ?thesis
      using forwarder_step_pushed_live [OF laws _ forward(2)] forwarder_step_popped_live [OF laws _ _ forward(2)]
        forwarder_step_ends_live [OF _ forward(2)] parts by (simp add: adapt_live_def forward(1))
  next
    case (bus_push t f)
    then show ?thesis using others_keep_rx [OF live rx_move_live [OF laws _ rx_move.push]] parts by simp
  next
    case bus_close
    then show ?thesis using others_keep_rx [OF live rx_move_live [OF laws _ rx_move.store]] parts by simp
  next
    case bus_notify
    then show ?thesis using others_keep_rx [OF live rx_move_live [OF laws _ rx_move.notify]] parts by simp
  qed
qed

lemma adapt_run_live:
  "adapt_run nt p ls p' \<Longrightarrow> notify_laws nt \<Longrightarrow> p = pipeline_new nt s depth policy \<Longrightarrow> adapt_live nt (refused ls) p'"
proof (induction rule: adapt_run.induct)
  case (nothing p)
  then show ?case by (simp add: adapt_live_new refused_def)
next
  case (more p ls p' l p'')
  have "refused (ls @ [l]) = (refused ls \<or> (\<exists>m. l = Handed m False))" by (auto simp: refused_def)
  then show ?case using adapt_step_live [OF more.prems(1) more.IH [OF more.prems] more.hyps(2)] by simp
qed

text \<open>When neither task can move and the caller has taken everything, nothing is left anywhere.\<close>

definition at_rest :: "'n notify \<Rightarrow> 'n pipeline \<Rightarrow> bool" where
  "at_rest nt p \<longleftrightarrow> (\<forall>now sent. producer_step nt now p = None \<and> forwarder_step nt sent p = None)"

lemma producer_rests:
  assumes live: "adapt_live nt r p" and rest: "producer_step nt now p = None"
  shows "pl_producer p = Receiving \<and> rx_pc (pl_rx p) = Asleep \<and> si_queue (rx_sub (pl_rx p)) = [] \<or>
    (\<exists>m. pl_producer p = Room_asleep m) \<and> nt_task nt (pl_popped p) = Waiting_task \<or>
    pl_producer p = Producer_done \<and> rx_pc (pl_rx p) = Got None \<and> si_queue (rx_sub (pl_rx p)) = []"
proof (cases "pl_producer p")
  case Receiving
  have asleep: "rx_pc (pl_rx p) = Asleep" "nt_task nt (rx_notify (pl_rx p)) \<noteq> Woken_task"
    using rest Receiving
    by (auto simp: producer_step_def rx_step_def Let_def split: recv_pc.splits option.splits prod.splits if_splits)
  then have "nt_task nt (rx_notify (pl_rx p)) = Waiting_task"
    using live by (cases "nt_task nt (rx_notify (pl_rx p))") (auto simp: adapt_live_def rx_live_def rx_inv_def)
  then show ?thesis using live asleep Receiving by (simp add: adapt_live_def rx_live_def rx_inv_def)
next
  case (Storing m)
  with rest show ?thesis by (auto simp: producer_step_def split: prod.splits aq_outcome.splits)
next
  case (Room_asleep m)
  then have "nt_task nt (pl_popped p) \<noteq> Woken_task" using rest by (auto simp: producer_step_def split: if_splits)
  then have "nt_task nt (pl_popped p) = Waiting_task"
    using live Room_asleep by (cases "nt_task nt (pl_popped p)") (auto simp: adapt_live_def popped_live_def)
  then show ?thesis using Room_asleep by simp
next
  case Producer_done
  then show ?thesis using live by (simp add: adapt_live_def rx_live_def)
qed (use rest in \<open>simp_all add: producer_step_def\<close>)

lemma forwarder_rests:
  assumes live: "adapt_live nt r p" and rest: "forwarder_step nt sent p = None"
  shows "pl_forwarder p = Push_asleep \<and> (pl_producer p = Notifying \<or> aq_queue (pl_queue p) = []) \<or>
    pl_forwarder p = Forwarder_done \<and> (r \<or> aq_closed (pl_queue p) \<and> aq_queue (pl_queue p) = [])"
proof (cases "pl_forwarder p")
  case Push_asleep
  then have "nt_task nt (pl_pushed p) \<noteq> Woken_task" using rest by (auto simp: forwarder_step_def split: if_splits)
  then have "nt_task nt (pl_pushed p) = Waiting_task"
    using live Push_asleep by (cases "nt_task nt (pl_pushed p)") (auto simp: adapt_live_def pushed_live_def)
  then show ?thesis using live Push_asleep by (auto simp: adapt_live_def pushed_live_def)
next
  case Forwarder_done
  then show ?thesis using live by (auto simp: adapt_live_def ends_live_def)
qed (use rest in \<open>auto simp: forwarder_step_def split: prod.splits option.splits\<close>)

lemma at_rest_empty:
  assumes live: "adapt_live nt False p" and rest: "at_rest nt p" and cap: "0 < aq_capacity (pl_queue p)"
  shows "in_flight p = []" "si_queue (rx_sub (pl_rx p)) = []" "\<forall>f. pl_producer p = Receiving \<longrightarrow> rx_pc (pl_rx p) \<noteq> Got (Some f)"
proof -
  have "producer_step nt 0 p = None" "forwarder_step nt True p = None" using rest by (simp_all add: at_rest_def)
  note p = producer_rests [OF live this(1)] and f = forwarder_rests [OF live this(2)]
  have "pl_producer p \<noteq> Notifying" using p by auto
  then have empty: "aq_queue (pl_queue p) = []" and fw: "at_forwarder (pl_forwarder p) = []" using f by auto
  have "\<not> ((\<exists>m. pl_producer p = Room_asleep m) \<and> nt_task nt (pl_popped p) = Waiting_task)"
  proof
    assume room: "(\<exists>m. pl_producer p = Room_asleep m) \<and> nt_task nt (pl_popped p) = Waiting_task"
    then have "\<exists>m. pl_forwarder p = Popped m" using live empty cap by (auto simp: adapt_live_def popped_live_def)
    then show False using f by auto
  qed
  with p show "in_flight p = []" "si_queue (rx_sub (pl_rx p)) = []"
    "\<forall>f. pl_producer p = Receiving \<longrightarrow> rx_pc (pl_rx p) \<noteq> Got (Some f)"
    using empty fw by (auto simp: in_flight_def)
qed

section \<open>Progress\<close>

text \<open>
  What each task may still do, as a number that every step of a task lowers: so much for each frame and message on
  the way, for each notification that is stored or has just woken a task, and for where the tasks stand.
\<close>

definition notify_weight :: "'n notify \<Rightarrow> 'n \<Rightarrow> nat" where
  "notify_weight nt n = (if nt_permit nt n then 4 else 0) + (if nt_task nt n = Woken_task then 4 else 0)"

fun recv_weight :: "recv_pc \<Rightarrow> nat" where
  "recv_weight Pop_next = 10" | "recv_weight Load_closed = 9" | "recv_weight Await_notify = 8" | "recv_weight Asleep = 7"
| "recv_weight Final_pop = 8" | "recv_weight (Got None) = 7" | "recv_weight (Got (Some f)) = 24"

fun producer_weight :: "producer_pc \<Rightarrow> recv_pc \<Rightarrow> nat" where
  "producer_weight Receiving pc = recv_weight pc" | "producer_weight (Storing m) pc = 23"
| "producer_weight Notifying pc = 15" | "producer_weight (Room_wait m) pc = 22" | "producer_weight (Room_asleep m) pc = 21"
| "producer_weight Ending pc = 6" | "producer_weight Ending_notify pc = 5" | "producer_weight Producer_done pc = 0"

fun forwarder_weight :: "forwarder_pc \<Rightarrow> nat" where
  "forwarder_weight Popping = 3" | "forwarder_weight (Popped m) = 9" | "forwarder_weight Loading = 2"
| "forwarder_weight Last_pop = 1" | "forwarder_weight Push_wait = 1" | "forwarder_weight Push_asleep = 0"
| "forwarder_weight (Handing m) = 4" | "forwarder_weight Forwarder_done = 0"

definition rx_weight :: "'n notify \<Rightarrow> 'n rx_state \<Rightarrow> nat" where
  "rx_weight nt s = 17 * length (si_queue (rx_sub s)) + notify_weight nt (rx_notify s)"

definition adapt_weight :: "'n notify \<Rightarrow> 'n pipeline \<Rightarrow> nat" where
  "adapt_weight nt p =
     rx_weight nt (pl_rx p) + producer_weight (pl_producer p) (rx_pc (pl_rx p)) + 7 * length (aq_queue (pl_queue p)) +
     notify_weight nt (pl_pushed p) + notify_weight nt (pl_popped p) + forwarder_weight (pl_forwarder p)"

lemma notify_weight_laws:
  assumes "notify_laws nt"
  shows "notify_weight nt (nt_new nt) = 0" "notify_weight nt (nt_one nt n) \<le> notify_weight nt n + 4"
    "notify_weight nt (nt_waiters nt n) \<le> notify_weight nt n + 4" "notify_weight nt (nt_wait nt n) \<le> notify_weight nt n"
    "nt_task nt n = Woken_task \<Longrightarrow> notify_weight nt (nt_resume nt n) + 4 = notify_weight nt n"
  using notify_laws_simps [OF assms] by (simp_all add: notify_weight_def)

lemma sub_push_length: "length (si_queue (snd (sub_push t f s))) \<le> Suc (length (si_queue s))"
  by (auto simp: sub_push_def rate_admit_def Let_def split: back_pressure.splits if_splits)

lemma rx_step_weight:
  assumes laws: "notify_laws nt" and "rx_step nt s = Some s'"
  shows "rx_weight nt s' + recv_weight (rx_pc s') < rx_weight nt s + recv_weight (rx_pc s)"
  using assms(2) notify_weight_laws(4,5) [OF laws, of "rx_notify s"]
  by (cases "rx_pc s"; cases "si_queue (rx_sub s)")
    (auto simp: rx_step_def rx_weight_def sub_pop_def split: if_splits)

lemma producer_step_weight:
  assumes laws: "notify_laws nt" and step: "producer_step nt now p = Some p'"
  shows "adapt_weight nt p' < adapt_weight nt p"
proof (cases "pl_producer p")
  case Receiving
  show ?thesis
  proof (cases "\<exists>r. rx_pc (pl_rx p) = Got r")
    case True
    with step Receiving show ?thesis by (auto simp: producer_step_def adapt_weight_def split: option.splits)
  next
    case False
    with step Receiving obtain rx where "rx_step nt (pl_rx p) = Some rx" "p' = p\<lparr>pl_rx := rx\<rparr>"
      by (auto simp: producer_step_def split: recv_pc.splits)
    with rx_step_weight [OF laws this(1)] Receiving show ?thesis by (simp add: adapt_weight_def)
  qed
next
  case (Storing m)
  obtain out q where q: "aq_push m (pl_queue p) = (out, q)" by fastforce
  show ?thesis
  proof (cases out)
    case Stored
    with step Storing q aq_push_Stored(3) [of m "pl_queue p" q] show ?thesis
      by (auto simp: producer_step_def adapt_weight_def)
  next
    case Dropped
    with step Storing q aq_push_refused(1) [of m "pl_queue p" q] show ?thesis
      by (auto simp: producer_step_def adapt_weight_def recv_again_def rx_weight_def)
  next
    case No_room
    with step Storing q aq_push_refused(2) [of m "pl_queue p" q] show ?thesis
      by (auto simp: producer_step_def adapt_weight_def)
  qed
qed (use step notify_weight_laws(2,3) [OF laws, of "pl_pushed p"] notify_weight_laws(4,5) [OF laws, of "pl_popped p"] in
  \<open>auto simp: producer_step_def adapt_weight_def recv_again_def rx_weight_def aq_close_def split: if_splits\<close>)

lemma forwarder_step_weight:
  assumes laws: "notify_laws nt" and step: "forwarder_step nt sent p = Some p'"
  shows "adapt_weight nt p' < adapt_weight nt p"
  by (cases "pl_forwarder p"; cases "aq_queue (pl_queue p)")
    (use step notify_weight_laws(4,5) [OF laws, of "pl_pushed p"] notify_weight_laws(2) [OF laws, of "pl_popped p"] in
      \<open>auto simp: forwarder_step_def adapt_weight_def aq_pop_def split: if_splits\<close>)

lemma bus_push_weight:
  assumes "notify_laws nt"
  shows "adapt_weight nt (p\<lparr>pl_rx := push_step nt t f (pl_rx p)\<rparr>) \<le> adapt_weight nt p + 21"
  using notify_weight_laws(2) [OF assms, of "rx_notify (pl_rx p)"] sub_push_length [of t f "rx_sub (pl_rx p)"]
  by (simp add: adapt_weight_def rx_weight_def push_step_def case_prod_unfold Let_def)

lemma bus_close_weight:
  assumes "notify_laws nt"
  shows "adapt_weight nt (p\<lparr>pl_rx := close_store (pl_rx p)\<rparr>) = adapt_weight nt p"
    "adapt_weight nt (p\<lparr>pl_rx := close_notify nt (pl_rx p)\<rparr>) \<le> adapt_weight nt p + 4"
  using notify_weight_laws(3) [OF assms, of "rx_notify (pl_rx p)"]
  by (simp_all add: adapt_weight_def rx_weight_def close_store_def close_notify_def)

text \<open>The steps of the tasks among the labels, and what the bus adds to the work.\<close>

fun task_label :: "adapt_label \<Rightarrow> bool" where
  "task_label (BusPush t f ok) = False" | "task_label BusClose = False" | "task_label BusNotify = False" | "task_label l = True"

fun bus_work :: "adapt_label \<Rightarrow> nat" where
  "bus_work (BusPush t f ok) = 21" | "bus_work BusNotify = 4" | "bus_work l = 0"

lemma task_labels [simp]: "task_label (produced now p)" "task_label (forwarded sent p)"
  by (simp_all add: produced_def forwarded_def split: producer_pc.split recv_pc.split option.split forwarder_pc.split)

lemma adapt_step_work:
  assumes "notify_laws nt" "adapt_step nt p l p'"
  shows "adapt_weight nt p' + (if task_label l then 1 else 0) \<le> adapt_weight nt p + bus_work l"
  using assms(2)
proof cases
  case (produce now)
  with producer_step_weight [OF assms(1) produce(2)] show ?thesis by simp
next
  case (forward sent)
  with forwarder_step_weight [OF assms(1) forward(2)] show ?thesis by simp
qed (use bus_push_weight [OF assms(1), where p = p] bus_close_weight [OF assms(1), where p = p] in simp_all)

lemma adapt_run_work:
  "adapt_run nt p ls p' \<Longrightarrow> notify_laws nt \<Longrightarrow>
   length (filter task_label ls) + adapt_weight nt p' \<le> adapt_weight nt p + (\<Sum>l\<leftarrow>ls. bus_work l)"
  by (induction rule: adapt_run.induct) (fastforce dest: adapt_step_work split: if_splits)+

lemma adapt_weight_new: "notify_laws nt \<Longrightarrow> adapt_weight nt (pipeline_new nt s depth policy) = 13 + 17 * length (si_queue s)"
  using notify_weight_laws(1) [of nt] by (simp add: adapt_weight_def rx_weight_def pipeline_new_def rx_init_def aq_new_def)

section \<open>Nothing is lost between the bus and the producer\<close>

definition rx_holds :: "'n pipeline \<Rightarrow> frame list" where
  "rx_holds p = (case (pl_producer p, rx_pc (pl_rx p)) of (Receiving, Got (Some f)) \<Rightarrow> [f] | _ \<Rightarrow> []) @ si_queue (rx_sub (pl_rx p))"

lemma sub_push_newest:
  "si_policy s = DropNewest \<Longrightarrow> si_queue (snd (sub_push t f s)) = si_queue s @ (if fst (sub_push t f s) then [f] else [])"
  by (auto simp: sub_push_def rate_admit_def Let_def split: if_splits)

lemma rx_step_received:
  assumes "rx_step nt s = Some s'"
  shows "(case rx_pc s' of Got (Some f) \<Rightarrow> [f] | _ \<Rightarrow> []) @ si_queue (rx_sub s') = si_queue (rx_sub s)" "si_policy (rx_sub s') = si_policy (rx_sub s)"
  using assms by (cases "rx_pc s"; cases "si_queue (rx_sub s)"; auto simp: rx_step_def sub_pop_def split: if_splits)+

lemma adapt_step_received:
  assumes "adapt_step nt p l p'" "si_policy (rx_sub (pl_rx p)) = DropNewest"
  shows "map snd (took [l]) @ rx_holds p' = rx_holds p @ arrivals_of [l] \<and> si_policy (rx_sub (pl_rx p')) = DropNewest"
  using assms(1)
proof cases
  case (produce now)
  show ?thesis
  proof (cases "pl_producer p = Receiving \<and> \<not> (\<exists>r. rx_pc (pl_rx p) = Got r)")
    case True
    with produce(2) obtain rx where rx: "rx_step nt (pl_rx p) = Some rx" "p' = p\<lparr>pl_rx := rx\<rparr>"
      by (auto simp: producer_step_def split: recv_pc.splits)
    from True have "l = Producer_moves" using produce(1) by (auto simp: produced_def split: recv_pc.split option.split)
    with rx_step_received [OF rx(1)] True rx(2) assms(2) show ?thesis
      by (auto simp: rx_holds_def took_def arrivals_of_def List.map_filter_def split: recv_pc.splits option.splits)
  next
    case False
    with produce assms(2) show ?thesis
      by (cases "pl_producer p")
        (auto simp: producer_step_def produced_def rx_holds_def took_def arrivals_of_def List.map_filter_def recv_again_def
          split: option.splits prod.splits aq_outcome.splits if_splits)
  qed
next
  case (forward sent)
  then have "pl_rx p' = pl_rx p" "pl_producer p' = pl_producer p"
    by (auto simp: forwarder_step_def split: forwarder_pc.splits prod.splits option.splits if_splits)
  with forward(1) assms(2) show ?thesis
    by (auto simp: rx_holds_def took_def arrivals_of_def List.map_filter_def forwarded_def split: forwarder_pc.splits)
next
  case (bus_push t f)
  with sub_push_newest [OF assms(2), of t f] assms(2) show ?thesis
    by (auto simp: rx_holds_def took_def arrivals_of_def List.map_filter_def push_step_def case_prod_unfold Let_def
        split: producer_pc.splits recv_pc.splits option.splits)
qed (use assms(2) in \<open>auto simp: rx_holds_def took_def arrivals_of_def List.map_filter_def close_store_def close_notify_def sub_close_def
  split: producer_pc.splits recv_pc.splits option.splits\<close>)

lemma adapt_run_received:
  "adapt_run nt p ls p' \<Longrightarrow> p = pipeline_new nt s depth policy \<Longrightarrow> si_policy s = DropNewest \<Longrightarrow>
   map snd (took ls) @ rx_holds p' = si_queue s @ arrivals_of ls \<and> si_policy (rx_sub (pl_rx p')) = DropNewest"
proof (induction rule: adapt_run.induct)
  case (nothing p)
  then show ?case by (simp add: rx_holds_def pipeline_new_def rx_init_def)
next
  case (more p ls p' l p'')
  note step = adapt_step_received [OF more.hyps(2) conjunct2 [OF more.IH [OF more.prems]]]
  have "took (ls @ [l]) = took ls @ took [l]" "arrivals_of (ls @ [l]) = arrivals_of ls @ arrivals_of [l]"
    by (simp_all add: took_def arrivals_of_def List.map_filter_def)
  with step more.IH [OF more.prems] show ?case by (metis append_assoc map_append)
qed

text \<open>
  So every message comes through, with whatever policy: the tasks take a bounded number of steps, and while the caller keeps its receiver
  they go on until all that the bus has put in is taken and nothing is on the way.
\<close>

lemma adapt_delivers:
  assumes "notify_laws nt" "adapt_run nt (pipeline_new nt s depth policy) ls p" "si_policy s = DropNewest"
  shows "length (filter task_label ls) \<le> 13 + 17 * length (si_queue s) + (\<Sum>l\<leftarrow>ls. bus_work l)"
    and "at_rest nt p \<Longrightarrow> \<not> refused ls \<Longrightarrow> map snd (took ls) = si_queue s @ arrivals_of ls \<and> in_flight p = []"
proof -
  show "length (filter task_label ls) \<le> 13 + 17 * length (si_queue s) + (\<Sum>l\<leftarrow>ls. bus_work l)"
    using adapt_run_work [OF assms(2,1)] by (simp add: adapt_weight_new [OF assms(1)])
next
  assume rest: "at_rest nt p" and kept: "\<not> refused ls"
  have "adapt_live nt False p" using adapt_run_live [OF assms(2,1) refl] kept by simp
  moreover have "0 < aq_capacity (pl_queue p)" using adapt_run_inv [OF assms(2) refl] by (simp add: adapt_inv_def)
  ultimately have empty: "in_flight p = []" "rx_holds p = []"
    using at_rest_empty [OF _ rest] by (auto simp: rx_holds_def split: producer_pc.split recv_pc.split option.split)
  with adapt_run_received [OF assms(2) refl assms(3)] show "map snd (took ls) = si_queue s @ arrivals_of ls \<and> in_flight p = []" by simp
qed

text \<open>A given interleaving, to run it: the turns of the producer (at the instant 0), of the forwarder, and of the bus.\<close>

datatype adapt_turn = Producer_turn | Forwarder_turn bool | Bus_turn rx_label

fun turn_taken :: "'n notify \<Rightarrow> adapt_turn \<Rightarrow> 'n pipeline \<Rightarrow> (adapt_label \<times> 'n pipeline) option" where
  "turn_taken nt Producer_turn p = map_option (Pair (produced 0 p)) (producer_step nt 0 p)"
| "turn_taken nt (Forwarder_turn sent) p = map_option (Pair (forwarded sent p)) (forwarder_step nt sent p)"
| "turn_taken nt (Bus_turn (Push t f)) p =
     (if si_closed (rx_sub (pl_rx p)) then None
      else Some (BusPush t f (fst (sub_push t f (rx_sub (pl_rx p)))), p\<lparr>pl_rx := push_step nt t f (pl_rx p)\<rparr>))"
| "turn_taken nt (Bus_turn Close_store) p = Some (BusClose, p\<lparr>pl_rx := close_store (pl_rx p)\<rparr>)"
| "turn_taken nt (Bus_turn Close_notify) p =
     (if rx_closers (pl_rx p) > 0 then Some (BusNotify, p\<lparr>pl_rx := close_notify nt (pl_rx p)\<rparr>) else None)"
| "turn_taken nt (Bus_turn l) p = None"

fun adapt_exec :: "'n notify \<Rightarrow> adapt_turn list \<Rightarrow> adapt_label list \<Rightarrow> 'n pipeline \<Rightarrow> (adapt_label list \<times> 'n pipeline) option" where
  "adapt_exec nt [] ls p = Some (ls, p)"
| "adapt_exec nt (x # xs) ls p = (case turn_taken nt x p of None \<Rightarrow> None | Some (l, p') \<Rightarrow> adapt_exec nt xs (ls @ [l]) p')"

lemma turn_taken_step: "turn_taken nt x p = Some (l, p') \<Longrightarrow> adapt_step nt p l p'"
  by (induction nt x p rule: turn_taken.induct) (auto intro: adapt_step.intros split: if_splits)

lemma adapt_exec_run: "adapt_exec nt xs ls p = Some (ls', p') \<Longrightarrow> adapt_run nt p0 ls p \<Longrightarrow> adapt_run nt p0 ls' p'"
proof (induction xs arbitrary: ls p)
  case (Cons x xs)
  then obtain l q where "turn_taken nt x p = Some (l, q)" "adapt_exec nt xs (ls @ [l]) q = Some (ls', p')"
    by (auto split: option.splits)
  with Cons.IH adapt_run.more [OF Cons.prems(2) turn_taken_step] show ?case by blast
qed simp

lemmas exec_eval = pipeline_new_def aq_new_def producer_step_def forwarder_step_def produced_def forwarded_def recv_again_def
  aq_push_def aq_pop_def aq_close_def rx_steps

section \<open>Properties\<close>

text \<open>
  C30: Every frame survives the conversion to a RELAY message and back, except that the four CAN XL fields
  of a frame that is not CAN XL are lost.
\<close>

theorem adapt_roundtrip:
  "from_message (to_message now f) =
     Ok (if f_xl f then f else f\<lparr>f_sdt := 0, f_vcid := 0, f_af := 0, f_sec := False\<rparr>)"
  by (rule from_to_message)

text \<open>
  The errors of the adapter's \<^verbatim>\<open>send\<close>: an identifier that is no 32-bit number never reaches the bus and is
  \<^verbatim>\<open>NotConnected\<close>; an error of the bus keeps its RELAY kind if it has one and is \<^verbatim>\<open>Closed\<close> otherwise, so an
  invalid frame or a bus-off looks to the caller like a closed bus.
\<close>

theorem adapt_send_errors:
  "adapter_send bus_send m b =
     (if parse_u32 (m_id m) = None then (Err RelayNotConnected, b)
      else let (r, b') = bus_send (projr (from_message m)) b
           in (case r of Ok u \<Rightarrow> Ok u | Err e \<Rightarrow> Err (case error_kind e of Some k \<Rightarrow> k | None \<Rightarrow> RelayClosed), b'))"
proof (cases "parse_u32 (m_id m)")
  case None
  then show ?thesis by (simp add: adapter_send_def from_message_def)
next
  case (Some i)
  then obtain f where "from_message m = Ok f" by (simp add: from_message_def)
  then show ?thesis using Some
    by (auto simp: adapter_send_def split: prod.split sum.split can_error.split)
qed

text \<open>
  C31: The stream of an adapter subscription: in every interleaving of its two tasks with the bus, atomic step by atomic step, what has
  been handed to the caller is a subsequence, in order and without repetition, of the messages of the
  frames taken from the bus, numbered from 0; under \<^verbatim>\<open>Block\<close> nothing is missing from it, and at most the
  depth and two messages are under way.
\<close>

theorem adapt_stream:
  assumes "adapt_run nt (pipeline_new nt s depth policy) ls p"
  shows "subseq (handed ls) (numbered_messages 0 (took ls)) \<and>
    (policy = Block \<longrightarrow> numbered_messages 0 (took ls) = handed ls @ in_flight p) \<and>
    length (in_flight p) \<le> max depth 1 + 2"
proof -
  note i = adapt_run_inv [OF assms refl, unfolded adapt_inv_def]
  have "subseq (handed ls) (handed ls @ in_flight p)" by (simp add: prefix_imp_subseq)
  then have "subseq (handed ls) (numbered_messages 0 (took ls))" using i subseq_order.order_trans by blast
  moreover have "length (in_flight p) \<le> length (aq_queue (pl_queue p)) + 2"
    using at_forwarder_simps(9) [of "pl_forwarder p"] at_producer_simps(9) [of "pl_producer p"] by (simp add: in_flight_def)
  ultimately show ?thesis using i by fastforce
qed

text \<open>Two frames; the first is taken, stored and handed over, and the second is with the producer.\<close>

theorem adapt_stream_witness:
  "\<exists>ls p. adapt_exec notify_example
       ([Bus_turn (Push 0 default_frame), Bus_turn (Push 1 default_frame), Producer_turn, Producer_turn, Producer_turn, Producer_turn] @
        [Forwarder_turn True, Forwarder_turn True, Forwarder_turn True, Producer_turn, Producer_turn]) []
       (pipeline_new notify_example (sub_new 0 4 DropNewest 0) 1 Block) = Some (ls, p) \<and>
     length (handed ls) = 1 \<and> length (in_flight p) = 1 \<and> numbered_messages 0 (took ls) = handed ls @ in_flight p"
proof -
  let ?p0 = "pipeline_new notify_example (sub_new 0 4 DropNewest 0) 1 Block"
  let ?xs = "[Bus_turn (Push 0 default_frame), Bus_turn (Push 1 default_frame), Producer_turn, Producer_turn, Producer_turn, Producer_turn] @
        [Forwarder_turn True, Forwarder_turn True, Forwarder_turn True, Producer_turn, Producer_turn]"
  obtain ls p where e: "adapt_exec notify_example ?xs [] ?p0 = Some (ls, p)" "length (handed ls) = 1" "length (in_flight p) = 1"
    by (simp add: exec_eval handed_def List.map_filter_def in_flight_def)
  with adapt_stream [OF adapt_exec_run [OF e(1) adapt_run.nothing]] show ?thesis by blast
qed

text \<open>
  The end of a stream can be lost, like a close of the bus: when the producer's whole \<^verbatim>\<open>close\<close> falls between the forwarder's look at
  the closed flag and its wait, \<^verbatim>\<open>notify_waiters\<close> finds no waiting task and leaves no permit. Both tasks are then at
  rest for ever, the forwarder asleep, so the caller's channel is never closed.
\<close>

theorem adapt_end_lost:
  assumes "notify_laws nt"
  shows "\<exists>ls p. adapt_run nt (pipeline_new nt (sub_close (sub_new now capacity bus_policy 0)) depth policy) ls p \<and> handed ls = [] \<and>
    pl_producer p = Producer_done \<and> aq_closed (pl_queue p) \<and> pl_forwarder p = Push_asleep \<and>
    (\<forall>ls' p'. adapt_run nt p ls' p' \<longrightarrow> pl_forwarder p' = Push_asleep)"
proof -
  let ?p0 = "pipeline_new nt (sub_close (sub_new now capacity bus_policy 0)) depth policy"
  let ?xs = "[Forwarder_turn True, Forwarder_turn True, Producer_turn, Producer_turn, Producer_turn, Producer_turn, Producer_turn, Producer_turn, Forwarder_turn True]"
  obtain ls p where e: "adapt_exec nt ?xs [] ?p0 = Some (ls, p)" "handed ls = []" "pl_producer p = Producer_done" "aq_closed (pl_queue p)"
    "pl_forwarder p = Push_asleep" "nt_task nt (pl_pushed p) = Waiting_task"
    using notify_laws_simps [OF assms] by (simp add: exec_eval handed_def List.map_filter_def)
  have "pl_producer p' = Producer_done \<and> pl_forwarder p' = Push_asleep \<and> nt_task nt (pl_pushed p') = Waiting_task"
    if "adapt_run nt q ls' p'" "q = p" for q ls' p'
    using that
  proof (induction rule: adapt_run.induct)
    case (more q ls q' l q'')
    from more.hyps(2) more.IH [OF more.prems] show ?case
      by cases (simp_all add: producer_step_def forwarder_step_def)
  qed (simp add: e)
  with e adapt_exec_run [OF e(1) adapt_run.nothing] show ?thesis by blast
qed

theorem adapt_end_lost_witness:
  "\<exists>ls p. adapt_run notify_example (pipeline_new notify_example (sub_close (sub_new 0 4 DropNewest 0)) 1 Block) ls p \<and>
     pl_producer p = Producer_done \<and> pl_forwarder p = Push_asleep"
  using adapt_end_lost [OF notify_example_laws] by blast

text \<open>
  Under \<^verbatim>\<open>Block\<close> a caller that drops its receiver leaves the producer behind: it waits for room that
  nobody makes any more, takes no further frame, and not even closing the bus ends it.
\<close>

theorem adapt_block_stuck:
  assumes "adapt_run nt p ls p'" "pl_forwarder p = Forwarder_done" "pl_producer p = Room_asleep m" "nt_task nt (pl_popped p) = Waiting_task"
  shows "pl_producer p' = Room_asleep m \<and> took ls = []"
proof -
  from assms have "took ls = [] \<and> pl_forwarder p' = Forwarder_done \<and> pl_producer p' = Room_asleep m \<and> nt_task nt (pl_popped p') = Waiting_task"
  proof (induction rule: adapt_run.induct)
    case (more p ls p' l p'')
    from more.hyps(2) more.IH [OF more.prems] show ?case
      by cases (simp_all add: producer_step_def forwarder_step_def)
  qed simp
  then show ?thesis by simp
qed

text \<open>The depth is one, and the caller refuses the first of three messages; then the bus is closed.\<close>

theorem adapt_block_stuck_witness:
  "\<exists>ls p p'. adapt_exec notify_example
       ([Bus_turn (Push 0 default_frame), Bus_turn (Push 1 default_frame), Bus_turn (Push 2 default_frame)] @
        [Producer_turn, Producer_turn, Producer_turn, Producer_turn, Forwarder_turn True, Forwarder_turn True, Forwarder_turn False] @
        [Producer_turn, Producer_turn, Producer_turn, Producer_turn, Producer_turn, Producer_turn, Producer_turn, Producer_turn] @
        [Producer_turn, Producer_turn, Producer_turn]) []
       (pipeline_new notify_example (sub_new 0 4 DropNewest 0) 1 Block) = Some (ls, p) \<and>
     adapt_run notify_example p [BusClose, BusNotify] p' \<and> (\<exists>m. pl_producer p' = Room_asleep m)"
proof -
  let ?p0 = "pipeline_new notify_example (sub_new 0 4 DropNewest 0) 1 Block"
  let ?xs = "[Bus_turn (Push 0 default_frame), Bus_turn (Push 1 default_frame), Bus_turn (Push 2 default_frame)] @
        [Producer_turn, Producer_turn, Producer_turn, Producer_turn, Forwarder_turn True, Forwarder_turn True, Forwarder_turn False] @
        [Producer_turn, Producer_turn, Producer_turn, Producer_turn, Producer_turn, Producer_turn, Producer_turn, Producer_turn] @
        [Producer_turn, Producer_turn, Producer_turn]"
  obtain ls p m where e: "adapt_exec notify_example ?xs [] ?p0 = Some (ls, p)" "pl_forwarder p = Forwarder_done"
    "pl_producer p = Room_asleep m" "nt_task notify_example (pl_popped p) = Waiting_task"
    by (simp add: exec_eval)
  let ?p' = "p\<lparr>pl_rx := close_notify notify_example (close_store (pl_rx p))\<rparr>"
  have "adapt_run notify_example p [BusClose] (p\<lparr>pl_rx := close_store (pl_rx p)\<rparr>)"
    using adapt_run.more [OF adapt_run.nothing adapt_step.bus_close] by simp
  from adapt_run.more [OF this adapt_step.bus_notify] have "adapt_run notify_example p [BusClose, BusNotify] ?p'"
    by (simp add: close_store_def)
  with adapt_block_stuck [OF this e(2-4)] e(1) show ?thesis by blast
qed

end
