(* ===== verification/Can_Dbc.thy ===== *)
theory Can_Dbc
  imports Can_Text
begin

text \<open>
  The DBC parser and signal decoder of \<^verbatim>\<open>src/dbc/mod.rs\<close>. The operations of \<^verbatim>\<open>f64\<close> are a parameter
  \<open>fl\<close>: parsing, conversion of an integer, product and sum. A slice or a shift out of range and an
  overflowing subtraction are \<open>Panics\<close> (the subtractions and shifts in a build with overflow checks).
\<close>

section \<open>The code\<close>

subsection \<open>Types\<close>

datatype byte_order = LittleEndian | BigEndian

datatype value_type = Unsigned | Signed

record 'f dbc_signal =
  sg_name :: string
  sg_start_bit :: u8
  sg_length :: u8
  sg_byte_order :: byte_order
  sg_value_type :: value_type
  sg_factor :: 'f
  sg_offset :: 'f
  sg_min :: 'f
  sg_max :: 'f
  sg_unit :: string

record 'f dbc_message =
  bo_id :: u32
  bo_name :: string
  bo_dlc :: u8
  bo_signals :: "'f dbc_signal list"

type_synonym 'f dbc_database = "u32 \<rightharpoonup> 'f dbc_message"

record 'f float_ops =
  fl_parse :: "string \<Rightarrow> 'f option"
  fl_of_int :: "int \<Rightarrow> 'f"
  fl_mul :: "'f \<Rightarrow> 'f \<Rightarrow> 'f"
  fl_add :: "'f \<Rightarrow> 'f \<Rightarrow> 'f"

subsection \<open>Signal decoding\<close>

text \<open>\<^verbatim>\<open>1u64 << i\<close> and the test of one bit of the data.\<close>

definition shl_one :: "nat \<Rightarrow> u64 outcome" where
  "shl_one i = (if i < 64 then Returns (push_bit i 1) else Panics)"

definition data_bit :: "bytes \<Rightarrow> nat \<Rightarrow> nat \<Rightarrow> bool" where
  "data_bit data byte_idx bit_idx \<longleftrightarrow> byte_idx < length data \<and> drop_bit bit_idx (data ! byte_idx) AND 1 = 1"

fun extract_le :: "bytes \<Rightarrow> nat \<Rightarrow> nat list \<Rightarrow> u64 \<Rightarrow> u64 outcome" where
  "extract_le data start [] raw = Returns raw"
| "extract_le data start (i # is) raw =
     (let b = start + i
      in if data_bit data (b div 8) (b mod 8)
         then and_then (shl_one i) (\<lambda>v. extract_le data start is (raw OR v))
         else extract_le data start is raw)"

definition USIZE_MAX :: nat where
  "USIZE_MAX = 2 ^ 64 - 1"

fun extract_be :: "bytes \<Rightarrow> nat \<Rightarrow> nat list \<Rightarrow> nat \<Rightarrow> nat \<Rightarrow> u64 \<Rightarrow> u64 outcome" where
  "extract_be data len [] byte_idx bit_idx raw = Returns raw"
| "extract_be data len (i # is) byte_idx bit_idx raw =
     and_then (if data_bit data byte_idx bit_idx
               then and_then (shl_one (len - 1 - i)) (\<lambda>v. Returns (raw OR v)) else Returns raw)
       (\<lambda>raw. if bit_idx = 0
              then extract_be data len is (if byte_idx < USIZE_MAX then byte_idx + 1 else byte_idx) 7 raw
              else extract_be data len is byte_idx (bit_idx - 1) raw)"

definition extract_raw :: "bytes \<Rightarrow> nat \<Rightarrow> nat \<Rightarrow> byte_order \<Rightarrow> u64 outcome" where
  "extract_raw data start_bit len order =
     (case order of
        LittleEndian \<Rightarrow> extract_le data start_bit [0..<len] 0
      | BigEndian \<Rightarrow> extract_be data len [0..<len] (start_bit div 8) (start_bit mod 8) 0)"

text \<open>\<^verbatim>\<open>a - b\<close> on \<^verbatim>\<open>i64\<close>.\<close>

definition sub_i64 :: "int \<Rightarrow> int \<Rightarrow> int outcome" where
  "sub_i64 a b = (if - (2 ^ 63) \<le> a - b \<and> a - b < 2 ^ 63 then Returns (a - b) else Panics)"

text \<open>The sign extension of \<^verbatim>\<open>decode_signal\<close>: \<^verbatim>\<open>bits - 1\<close> underflows for a length of 0, and \<^verbatim>\<open>1i64 << bits\<close>
  overflows from 64 on.\<close>

definition sign_extend :: "u64 \<Rightarrow> nat \<Rightarrow> int outcome" where
  "sign_extend raw bits =
     (if bits = 0 then Panics
      else and_then (shl_one (bits - 1)) (\<lambda>top.
        if raw AND top \<noteq> 0 then
          (if bits < 64 then sub_i64 (sint raw) (sint (push_bit bits (1 :: u64))) else Panics)
        else Returns (sint raw)))"

definition decode_signal :: "'f float_ops \<Rightarrow> 'f dbc_signal \<Rightarrow> bytes \<Rightarrow> 'f outcome" where
  "decode_signal fl sig data =
     and_then (extract_raw data (unat (sg_start_bit sig)) (unat (sg_length sig)) (sg_byte_order sig)) (\<lambda>raw.
       case sg_value_type sig of
         Unsigned \<Rightarrow> Returns (fl_add fl (fl_mul fl (fl_of_int fl (uint raw)) (sg_factor sig)) (sg_offset sig))
       | Signed \<Rightarrow>
           and_then (sign_extend raw (unat (sg_length sig))) (\<lambda>signed.
             Returns (fl_add fl (fl_mul fl (fl_of_int fl signed) (sg_factor sig)) (sg_offset sig))))"

fun decode_signals :: "'f float_ops \<Rightarrow> 'f dbc_signal list \<Rightarrow> bytes \<Rightarrow> (string \<rightharpoonup> 'f) \<Rightarrow> (string \<rightharpoonup> 'f) outcome" where
  "decode_signals fl [] data result = Returns result"
| "decode_signals fl (sig # sigs) data result =
     and_then (decode_signal fl sig data) (\<lambda>v. decode_signals fl sigs data (result(sg_name sig \<mapsto> v)))"

definition db_decode :: "'f float_ops \<Rightarrow> 'f dbc_database \<Rightarrow> u32 \<Rightarrow> bytes \<Rightarrow> (string \<rightharpoonup> 'f) outcome" where
  "db_decode fl db i data =
     (case db i of None \<Rightarrow> Returns Map.empty | Some msg \<Rightarrow> decode_signals fl (bo_signals msg) data Map.empty)"

subsection \<open>Line parsers\<close>

definition nth_char :: "string \<Rightarrow> nat \<Rightarrow> char option" where
  "nth_char s i = (if i < length s then Some (s ! i) else None)"

definition parse_message_line :: "string \<Rightarrow> (can_error, 'f dbc_message) result" where
  "parse_message_line line =
     (let parts = splitn 5 (CHR '' '') line
      in if length parts < 4 then Err (Other (''dbc: malformed BO_ line: '' @ quoted line))
         else case parse_u32 (parts ! 1) of
           None \<Rightarrow> Err (Other (''dbc: invalid message ID: '' @ quoted (parts ! 1)))
         | Some i \<Rightarrow>
             (let name = trim_end_matches (CHR '':'') (parts ! 2)
              in case parse_u8 (parts ! 3) of
                   None \<Rightarrow> Err (Other (''dbc: invalid DLC: '' @ quoted (parts ! 3)))
                 | Some dlc \<Rightarrow> Ok \<lparr>bo_id = i, bo_name = name, bo_dlc = dlc, bo_signals = []\<rparr>))"

text \<open>
  \<^verbatim>\<open>parse_signal_line\<close>, in its four parts: the layout \<^verbatim>\<open>start|length@order sign\<close>, the factor and offset, the
  bounds, and the unit with the composition of the parts. Each part answers its values and the rest.
\<close>

definition parse_layout :: "string \<Rightarrow> (can_error, u8 \<times> u8 \<times> byte_order \<times> value_type) result outcome" where
  "parse_layout layout =
     try_then (ok_or (Other (''dbc: missing '' @ quoted ''|'' @ '' in signal layout'')) (find_char (CHR ''|'') layout)) (\<lambda>pipe_pos.
     try_then (ok_or (Other (''dbc: missing '' @ quoted ''@'' @ '' in signal layout'')) (find_char (CHR ''@'') layout)) (\<lambda>at_pos.
     and_then (slice_to layout pipe_pos) (\<lambda>start_str.
     try_then (ok_or (Other (''dbc: invalid start bit: '' @ quoted start_str)) (parse_u8 start_str)) (\<lambda>start_bit.
     and_then (slice_from layout (pipe_pos + 1)) (\<lambda>len_and_flags.
     and_then (if at_pos < pipe_pos + 1 then Panics else slice_to len_and_flags (at_pos - pipe_pos - 1)) (\<lambda>len_str.
     try_then (ok_or (Other (''dbc: invalid signal length: '' @ quoted len_str)) (parse_u8 len_str)) (\<lambda>len.
     and_then (slice_from layout (at_pos + 1)) (\<lambda>flags.
     try_then (if nth_char flags 0 = Some (CHR ''1'') then Ok LittleEndian
               else if nth_char flags 0 = Some (CHR ''0'') then Ok BigEndian
               else Err (Other (''dbc: unknown byte order: '' @ debug_char_option (nth_char flags 0)))) (\<lambda>order.
     try_then (if nth_char flags 1 = Some (CHR ''+'') then Ok Unsigned
               else if nth_char flags 1 = Some (CHR ''-'') then Ok Signed
               else Err (Other (''dbc: unknown value type: '' @ debug_char_option (nth_char flags 1)))) (\<lambda>vtype.
     Returns (Ok (start_bit, len, order, vtype))))))))))))"

definition parse_factor_offset :: "'f float_ops \<Rightarrow> string \<Rightarrow> (can_error, 'f \<times> 'f \<times> string) result outcome" where
  "parse_factor_offset fl rest =
     try_then (ok_or (Other (''dbc: missing '' @ quoted ''('' @ '' in signal'')) (find_char (CHR ''('') rest)) (\<lambda>lparen.
     try_then (ok_or (Other (''dbc: missing '' @ quoted '')'' @ '' in signal'')) (find_char (CHR '')'') rest)) (\<lambda>rparen.
     and_then (slice rest (lparen + 1) rparen) (\<lambda>fo.
     try_then (ok_or (Other (''dbc: missing '' @ quoted '','' @ '' in factor/offset'')) (find_char (CHR '','') fo)) (\<lambda>comma_pos.
     and_then (slice_to fo comma_pos) (\<lambda>factor_str.
     try_then (ok_or (Other ''dbc: invalid factor'') (fl_parse fl factor_str)) (\<lambda>factor.
     and_then (slice_from fo (comma_pos + 1)) (\<lambda>offset_str.
     try_then (ok_or (Other ''dbc: invalid offset'') (fl_parse fl offset_str)) (\<lambda>offset.
     and_then (slice_from rest (rparen + 1)) (\<lambda>rest.
     Returns (Ok (factor, offset, trim rest)))))))))))"

definition parse_or_zero :: "'f float_ops \<Rightarrow> string \<Rightarrow> 'f" where
  "parse_or_zero fl s = (case fl_parse fl s of None \<Rightarrow> fl_of_int fl 0 | Some v \<Rightarrow> v)"

definition parse_min_max :: "'f float_ops \<Rightarrow> string \<Rightarrow> ('f \<times> 'f \<times> string) outcome" where
  "parse_min_max fl rest =
     (let lbrace = (case find_char (CHR ''['') rest of None \<Rightarrow> 0 | Some i \<Rightarrow> i);
          rbrace = (case find_char (CHR '']'') rest of None \<Rightarrow> 0 | Some i \<Rightarrow> i)
      in and_then
           (if lbrace < rbrace then
              and_then (slice rest (lbrace + 1) rbrace) (\<lambda>mm.
                let pipe = (case find_char (CHR ''|'') mm of None \<Rightarrow> length mm | Some i \<Rightarrow> i)
                in and_then (slice_to mm pipe) (\<lambda>min_str.
                   and_then (if pipe < length mm
                             then and_then (slice_from mm (pipe + 1)) (\<lambda>max_str. Returns (parse_or_zero fl max_str))
                             else Returns (fl_of_int fl 0)) (\<lambda>max.
                   Returns (parse_or_zero fl min_str, max))))
            else Returns (fl_of_int fl 0, fl_of_int fl 0)) (\<lambda>(min, max).
         and_then (if rbrace < length rest then and_then (slice_from rest (rbrace + 1)) (\<lambda>r. Returns (trim r))
                   else Returns '''') (\<lambda>rest.
         Returns (min, max, rest))))"

definition parse_unit :: "string \<Rightarrow> string" where
  "parse_unit rest =
     (if starts_with rest [CHR 0x22] then
        (let rest_inner = tl rest
         in take (case find_char (CHR 0x22) rest_inner of None \<Rightarrow> length rest_inner | Some i \<Rightarrow> i) rest_inner)
      else '''')"

definition parse_signal_line :: "'f float_ops \<Rightarrow> string \<Rightarrow> (can_error, 'f dbc_signal) result outcome" where
  "parse_signal_line fl line =
     try_then (ok_or (Other (''dbc: missing '' @ quoted '':'' @ '' in SG_ line: '' @ quoted line)) (find_char (CHR '':'') line)) (\<lambda>colon_pos.
     and_then (slice line 4 colon_pos) (\<lambda>name_str.
     let name_part = trim name_str;
         name = (case split_whitespace name_part of [] \<Rightarrow> name_part | n # _ \<Rightarrow> n)
     in and_then (slice_from line (colon_pos + 1)) (\<lambda>rest.
     let rest = trim rest
     in try_then (ok_or (Other (''dbc: malformed SG_ layout: '' @ quoted rest)) (find_char (CHR '' '') rest)) (\<lambda>space_pos.
     and_then (slice_to rest space_pos) (\<lambda>layout.
     and_then (slice_from rest space_pos) (\<lambda>after.
     let rest = trim after
     in and_then (parse_layout layout) (\<lambda>r.
     try_then r (\<lambda>(start_bit, len, order, vtype).
     and_then (parse_factor_offset fl rest) (\<lambda>r.
     try_then r (\<lambda>(factor, offset, rest).
     and_then (parse_min_max fl rest) (\<lambda>(min, max, rest).
     Returns (Ok \<lparr>sg_name = name, sg_start_bit = start_bit, sg_length = len, sg_byte_order = order,
       sg_value_type = vtype, sg_factor = factor, sg_offset = offset, sg_min = min, sg_max = max,
       sg_unit = parse_unit rest\<rparr>))))))))))))"

subsection \<open>The file parser\<close>

definition commit :: "'f dbc_message option \<Rightarrow> 'f dbc_database \<Rightarrow> 'f dbc_database" where
  "commit cur db = (case cur of None \<Rightarrow> db | Some msg \<Rightarrow> db(bo_id msg \<mapsto> msg))"

fun parse_lines ::
    "'f float_ops \<Rightarrow> string list \<Rightarrow> 'f dbc_database \<Rightarrow> 'f dbc_message option \<Rightarrow> (can_error, 'f dbc_database) result outcome" where
  "parse_lines fl [] db cur = Returns (Ok (commit cur db))"
| "parse_lines fl (raw_line # ls) db cur =
     (let line = trim raw_line
      in if line = [] \<or> starts_with line ''//'' then
           (if \<not> starts_with line ''SG_'' then parse_lines fl ls (commit cur db) None
            else parse_lines fl ls db cur)
         else if starts_with line ''BO_ '' then
           try_then (parse_message_line line) (\<lambda>msg. parse_lines fl ls (commit cur db) (Some msg))
         else if starts_with line ''SG_ '' then
           (case cur of
              None \<Rightarrow> parse_lines fl ls db cur
            | Some msg \<Rightarrow>
                and_then (parse_signal_line fl line) (\<lambda>r.
                try_then r (\<lambda>sig. parse_lines fl ls db (Some (msg\<lparr>bo_signals := bo_signals msg @ [sig]\<rparr>)))))
         else parse_lines fl ls (commit cur db) None)"

definition dbc_parse :: "'f float_ops \<Rightarrow> string \<Rightarrow> (can_error, 'f dbc_database) result outcome" where
  "dbc_parse fl input = parse_lines fl (lines input) Map.empty None"
section \<open>The data as a number\<close>

text \<open>The bytes read with the least significant one first, and with the most significant one first.\<close>

fun le_nat :: "bytes \<Rightarrow> nat" where
  "le_nat [] = 0"
| "le_nat (b # bs) = unat b + 256 * le_nat bs"

definition be_nat :: "bytes \<Rightarrow> nat" where
  "be_nat bs = le_nat (rev bs)"

lemma data_bit_iff: "data_bit data i j \<longleftrightarrow> i < length data \<and> bit (data ! i) j"
  unfolding data_bit_def and_one_eq mod_2_eq_odd bit_iff_odd_drop_bit by simp

lemma bit_le_nat: "bit (le_nat data) k \<longleftrightarrow> k div 8 < length data \<and> bit (data ! (k div 8)) (k mod 8)"
proof (induction data arbitrary: k)
  case (Cons b bs)
  have "le_nat (b # bs) = push_bit 8 (le_nat bs) OR unat b"
    using unat_less [of b] push_bit_or_byte [of "unat b" "le_nat bs"] by simp
  then have low: "bit (le_nat (b # bs)) k \<longleftrightarrow> 8 \<le> k \<and> bit (le_nat bs) (k - 8) \<or> bit b k"
    by (simp only: bit_or_iff bit_push_bit_iff bit_unsigned_iff) (auto dest: bit_imp_le_length)
  show ?case
  proof (cases "8 \<le> k")
    case True
    then have "\<not> bit b k" using bit_imp_le_length [of b k] by auto
    moreover have "k div 8 = Suc ((k - 8) div 8)" "(k - 8) mod 8 = k mod 8" using True by (simp_all add: le_div_geq le_mod_geq)
    ultimately show ?thesis unfolding low Cons using True by simp
  next
    case False
    then have "k div 8 = 0" "k mod 8 = k" by simp_all
    then show ?thesis unfolding low using False by simp
  qed
qed simp

lemma data_bit_le_nat: "data_bit data (k div 8) (k mod 8) \<longleftrightarrow> bit (le_nat data) k"
  by (simp add: data_bit_iff bit_le_nat)

lemma byte_parts: "r < 8 \<Longrightarrow> (8 * a + r) div 8 = a \<and> (8 * a + r) mod 8 = (r :: nat)"
  by simp

lemma reversed_index: "p < 8 * n \<Longrightarrow> (8 * n - 1 - p) div 8 = n - 1 - p div 8 \<and> (8 * n - 1 - p) mod 8 = 7 - p mod (8 :: nat)"
proof -
  assume p: "p < 8 * n"
  then have "p div 8 \<le> n - 1" "1 \<le> n" by (auto simp: less_mult_imp_div_less mult.commute Suc_leI)
  then have eq: "8 * n - 1 - p = 8 * (n - 1 - p div 8) + (7 - p mod 8)"
    using mult_div_mod_eq [of 8 p] by (auto simp: diff_mult_distrib2)
  show ?thesis unfolding eq by (rule byte_parts) simp
qed

text \<open>Position \<open>p\<close> of the bit string with the most significant bit of each byte first.\<close>

lemma data_bit_be_nat:
  "data_bit data (p div 8) (7 - p mod 8) \<longleftrightarrow> p < 8 * length data \<and> bit (be_nat data) (8 * length data - 1 - p)"
proof (cases "p < 8 * length data")
  case True
  then have "p div 8 < length data" by (simp add: less_mult_imp_div_less mult.commute)
  moreover from this have "length data - 1 - p div 8 < length data"
    "rev data ! (length data - 1 - p div 8) = data ! (p div 8)" by (simp_all add: rev_nth)
  ultimately show ?thesis using True reversed_index [OF True]
    by (simp add: data_bit_iff be_nat_def bit_le_nat)
next
  case False
  then have "\<not> p div 8 < length data" by (simp add: less_mult_imp_div_less div_less_iff_less_mult mult.commute)
  with False show ?thesis by (simp add: data_bit_iff)
qed

section \<open>Extraction\<close>

lemma shl_one_bit: "i < 64 \<Longrightarrow> \<exists>v. shl_one i = Returns v \<and> (\<forall>j. bit v j \<longleftrightarrow> j = i)"
  by (auto simp: shl_one_def bit_simps)

lemma extract_le_bits:
  "\<forall>i \<in> set is. i < 64 \<Longrightarrow>
   \<exists>r. extract_le data start is raw = Returns r \<and>
     (\<forall>j. bit r j \<longleftrightarrow> bit raw j \<or> j \<in> set is \<and> bit (le_nat data) (start + j))"
proof (induction "is" arbitrary: raw)
  case (Cons i "is")
  obtain v where v: "shl_one i = Returns v" "\<forall>j. bit v j \<longleftrightarrow> j = i"
    using shl_one_bit [of i] Cons.prems by auto
  show ?case
  proof (cases "bit (le_nat data) (start + i)")
    case True
    obtain r where "extract_le data start is (raw OR v) = Returns r"
      "\<forall>j. bit r j \<longleftrightarrow> bit (raw OR v) j \<or> j \<in> set is \<and> bit (le_nat data) (start + j)"
      using Cons.IH [of "raw OR v"] Cons.prems by auto
    with True v show ?thesis by (auto simp: data_bit_le_nat Let_def bit_or_iff)
  next
    case False
    with Cons.IH [of raw] Cons.prems show ?thesis by (auto simp: data_bit_le_nat Let_def)
  qed
qed simp

lemma extract_be_bits:
  "m \<le> n \<Longrightarrow> n \<le> 64 \<Longrightarrow> k + m < USIZE_MAX \<Longrightarrow>
   \<exists>r. extract_be data n [n - m..<n] (k div 8) (7 - k mod 8) raw = Returns r \<and>
     (\<forall>j. bit r j \<longleftrightarrow> bit raw j \<or> j < m \<and> data_bit data ((k + m - 1 - j) div 8) (7 - (k + m - 1 - j) mod 8))"
proof (induction m arbitrary: k raw)
  case (Suc m)
  let ?raw = "\<lambda>v. if data_bit data (k div 8) (7 - k mod 8) then raw OR v else raw"
  have upt: "[n - Suc m..<n] = (n - Suc m) # [n - m..<n]"
    using Suc.prems(1) by (simp add: upt_conv_Cons Suc_diff_Suc)
  obtain v where v: "shl_one m = Returns v" "\<forall>j. bit v j \<longleftrightarrow> j = m"
    using shl_one_bit [of m] Suc.prems(1,2) by auto
  have idx: "n - 1 - (n - Suc m) = m" using Suc.prems(1) by simp
  have next_pos: "(if 7 - k mod 8 = 0
        then extract_be data n [n - m..<n] (if k div 8 < USIZE_MAX then k div 8 + 1 else k div 8) 7 (?raw v)
        else extract_be data n [n - m..<n] (k div 8) (7 - k mod 8 - 1) (?raw v)) =
      extract_be data n [n - m..<n] (Suc k div 8) (7 - Suc k mod 8) (?raw v)"
  proof (cases "k mod 8 = 7")
    case True
    then have "Suc k div 8 = Suc (k div 8)" "Suc k mod 8 = 0" by (simp_all add: div_Suc mod_Suc)
    with True Suc.prems(3) show ?thesis by (simp add: USIZE_MAX_def)
  next
    case False
    then have "k mod 8 < 7" using mod_less_divisor [of 8 k] by linarith
    then have "Suc k div 8 = k div 8" "Suc k mod 8 = Suc (k mod 8)" by (simp_all add: div_Suc mod_Suc)
    with False \<open>k mod 8 < 7\<close> show ?thesis by simp
  qed
  have step: "(if data_bit data (k div 8) (7 - k mod 8) then and_then (shl_one m) (\<lambda>v. Returns (raw OR v)) else Returns raw) =
      Returns (?raw v)" using v(1) by simp
  obtain r where r: "extract_be data n [n - m..<n] (Suc k div 8) (7 - Suc k mod 8) (?raw v) = Returns r"
    "\<forall>j. bit r j \<longleftrightarrow> bit (?raw v) j \<or> j < m \<and> data_bit data ((Suc k + m - 1 - j) div 8) (7 - (Suc k + m - 1 - j) mod 8)"
    using Suc.IH [of "Suc k" "?raw v"] Suc.prems by auto
  have "extract_be data n [n - Suc m..<n] (k div 8) (7 - k mod 8) raw =
      extract_be data n [n - m..<n] (Suc k div 8) (7 - Suc k mod 8) (?raw v)"
    unfolding upt extract_be.simps idx step and_then.simps by (rule next_pos)
  moreover have "bit r j \<longleftrightarrow> bit raw j \<or> j < Suc m \<and>
      data_bit data ((k + Suc m - 1 - j) div 8) (7 - (k + Suc m - 1 - j) mod 8)" for j
    using r(2) v(2) by (cases "j = m") (auto simp: bit_or_iff)
  ultimately show ?case using r(1) by (intro exI [of _ r] conjI allI) (simp_all only:)
qed simp
text \<open>The value of a signal: the bits of the number that the data are in the byte order of the signal.\<close>

definition signal_value :: "byte_order \<Rightarrow> bytes \<Rightarrow> nat \<Rightarrow> nat \<Rightarrow> nat" where
  "signal_value order data s n =
     (case order of
        LittleEndian \<Rightarrow> le_nat data div 2 ^ s mod 2 ^ n
      | BigEndian \<Rightarrow>
          let p = 8 * (s div 8) + (7 - s mod 8)
          in be_nat data * 2 ^ (p + n) div 2 ^ (8 * length data) mod 2 ^ n)"

lemma signal_value_less: "signal_value order data s n < 2 ^ n"
  by (simp add: signal_value_def Let_def split: byte_order.split)

lemma bit_signal_value_le: "bit (signal_value LittleEndian data s n) j \<longleftrightarrow> j < n \<and> bit (le_nat data) (s + j)"
proof -
  have "signal_value LittleEndian data s n = take_bit n (drop_bit s (le_nat data))"
    by (simp add: signal_value_def take_bit_eq_mod drop_bit_eq_div)
  then show ?thesis by (simp add: bit_take_bit_iff bit_drop_bit_eq)
qed

lemma bit_signal_value_be:
  assumes "p = 8 * (s div 8) + (7 - s mod 8)"
  shows "bit (signal_value BigEndian data s n) j \<longleftrightarrow>
    j < n \<and> data_bit data ((p + n - 1 - j) div 8) (7 - (p + n - 1 - j) mod 8)"
proof -
  have "signal_value BigEndian data s n = take_bit n (drop_bit (8 * length data) (push_bit (p + n) (be_nat data)))"
    by (simp add: signal_value_def take_bit_eq_mod drop_bit_eq_div push_bit_eq_mult assms Let_def)
  then have "bit (signal_value BigEndian data s n) j \<longleftrightarrow>
      j < n \<and> p + n \<le> 8 * length data + j \<and> bit (be_nat data) (8 * length data + j - (p + n))"
    by (simp add: bit_take_bit_iff bit_drop_bit_eq bit_push_bit_iff)
  moreover have "p + n \<le> L + j \<longleftrightarrow> p + n - 1 - j < L" "L + j - (p + n) = L - 1 - (p + n - 1 - j)" if "j < n" for L
  proof -
    obtain m where "n = m + j + 1" using \<open>j < n\<close> less_iff_Suc_add by fastforce
    then show "p + n \<le> L + j \<longleftrightarrow> p + n - 1 - j < L" "L + j - (p + n) = L - 1 - (p + n - 1 - j)" by auto
  qed
  ultimately show ?thesis unfolding data_bit_be_nat by (cases "j < n") (simp_all only: simp_thms)
qed

lemma u64_of_bits:
  assumes "\<forall>j. bit (r :: u64) j \<longleftrightarrow> bit (v :: nat) j"
  shows "r = of_nat v" "unat r = v"
proof -
  show "unat r = v" by (rule bit_eqI) (simp add: bit_unsigned_iff assms)
  then have v: "v = unat r" by simp
  show "r = of_nat v" unfolding v by simp
qed

lemma extract_raw_value:
  assumes "n \<le> 64" "s < 256"
  shows "\<exists>r. extract_raw data s n order = Returns r \<and> unat r = signal_value order data s n"
proof (cases order)
  case LittleEndian
  obtain r where r: "extract_le data s [0..<n] 0 = Returns r"
    "\<forall>j. bit r j \<longleftrightarrow> bit (0 :: u64) j \<or> j \<in> set [0..<n] \<and> bit (le_nat data) (s + j)"
    using extract_le_bits [of "[0..<n]" data s 0] assms(1) by auto
  then have "\<forall>j. bit r j \<longleftrightarrow> bit (signal_value LittleEndian data s n) j" by (simp add: bit_signal_value_le)
  with r(1) LittleEndian u64_of_bits(2) show ?thesis by (auto simp: extract_raw_def)
next
  case BigEndian
  let ?p = "8 * (s div 8) + (7 - s mod 8)"
  have p: "?p div 8 = s div 8" "7 - ?p mod 8 = s mod 8" using byte_parts [of "7 - s mod 8" "s div 8"] by auto
  have "?p + n < USIZE_MAX" using assms by (simp add: USIZE_MAX_def)
  from extract_be_bits [OF order_refl assms(1) this, of data 0] obtain r where
    r: "extract_be data n [0..<n] (s div 8) (s mod 8) 0 = Returns r"
      "\<forall>j. bit r j \<longleftrightarrow> j < n \<and> data_bit data ((?p + n - 1 - j) div 8) (7 - (?p + n - 1 - j) mod 8)"
    unfolding p by auto
  then have "\<forall>j. bit r j \<longleftrightarrow> bit (signal_value BigEndian data s n) j" by (simp only: bit_signal_value_be [OF refl] simp_thms)
  with r(1) BigEndian u64_of_bits(2) show ?thesis by (auto simp: extract_raw_def)
qed

section \<open>Sign extension\<close>

lemma sint_small: "unat (r :: u64) < 2 ^ 63 \<Longrightarrow> sint r = int (unat r)"
proof -
  assume "unat r < 2 ^ 63"
  then have "int (unat r) < int (2 ^ 63)" by (rule iffD2 [OF of_nat_less_iff])
  then have "uint r < 2 ^ 63" by simp
  then have "signed_take_bit 63 (uint r) = uint r" by (intro signed_take_bit_int_eq_self) (auto intro: order_trans [of _ 0])
  then show "sint r = int (unat r)" by (simp add: sint_uint)
qed

lemma top_bit_value:
  assumes "unat (r :: u64) < 2 ^ Suc k" "k < 64"
  shows "(r AND push_bit k 1 \<noteq> 0) \<longleftrightarrow> 2 ^ k \<le> unat r"
proof -
  have "(r AND push_bit k 1 \<noteq> 0) \<longleftrightarrow> bit r k"
    by (simp add: bit_iff_and_push_bit_not_eq_0)
  also have "\<dots> \<longleftrightarrow> odd (unat r div 2 ^ k)" using assms(2) by (simp add: bit_unsigned_iff bit_iff_odd [symmetric])
  also have "\<dots> \<longleftrightarrow> 2 ^ k \<le> unat r"
  proof -
    have "unat r div 2 ^ k < 2" using assms(1) by (simp add: less_mult_imp_div_less)
    then have "odd (unat r div 2 ^ k) \<longleftrightarrow> unat r div 2 ^ k = 1" by (auto simp: less_2_cases_iff)
    also have "\<dots> \<longleftrightarrow> 2 ^ k \<le> unat r" using \<open>unat r div 2 ^ k < 2\<close>
      by (metis One_nat_def Suc_leI div_less div_greater_zero_iff le_antisym less_2_cases_iff not_le zero_less_numeral zero_less_power zero_neq_one)
    finally show ?thesis .
  qed
  finally show ?thesis .
qed

lemma sign_extend_value:
  assumes "unat r < 2 ^ n" "1 \<le> n" "n \<le> 64"
  shows "sign_extend r n =
    (if unat r < 2 ^ (n - 1) then Returns (int (unat r))
     else if n \<le> 62 then Returns (int (unat r) - 2 ^ n) else Panics)"
proof -
  obtain k where k: "n = Suc k" "k < 64" using assms(2,3) by (cases n) auto
  note top = top_bit_value [OF assms(1) [unfolded k(1)] k(2)]
  show ?thesis
  proof (cases "unat r < 2 ^ k")
    case True
    have "(2 :: nat) ^ k \<le> 2 ^ 63" using k(2) by (intro power_increasing) auto
    with True k top sint_small [of r] show ?thesis by (simp add: sign_extend_def shl_one_def)
  next
    case False
    consider "n \<le> 62" | "n = 63" | "n = 64" using assms(3) by arith
    then show ?thesis
    proof cases
      case 1
      have pow: "(2 :: nat) ^ n \<le> 2 ^ 62" using 1 by (intro power_increasing) auto
      with assms(1) have r: "sint r = int (unat r)" by (intro sint_small) simp
      have "unat (push_bit n (1 :: u64)) = 2 ^ n"
        using 1 pow by (subst unsigned_push_bit_eq) (simp add: take_bit_nat_eq_self_iff)
      then have "sint (push_bit n (1 :: u64)) = 2 ^ n" using pow by (subst sint_small) simp_all
      moreover have "- (2 ^ 63) \<le> int (unat r) - 2 ^ n \<and> int (unat r) - 2 ^ n < 2 ^ 63"
      proof -
        have "int (unat r) < int (2 ^ n)" using assms(1) by (rule iffD2 [OF of_nat_less_iff])
        then have "uint r < 2 ^ n" by simp
        moreover have "(2 :: int) ^ n \<le> 4611686018427387904" using power_increasing [of n 62 "2 :: int"] 1 by simp
        ultimately have "- 9223372036854775808 \<le> uint r - 2 ^ n" "uint r - 2 ^ n < 9223372036854775808"
          using uint_ge_0 [of r] by linarith+
        then show ?thesis by simp
      qed
      ultimately show ?thesis using False 1 k top r by (simp add: sign_extend_def shl_one_def sub_i64_def)
    next
      case 2
      then have "sint r = int (unat r)" using assms(1) by (intro sint_small) simp
      moreover have "sint (push_bit 63 (1 :: u64)) = - (2 ^ 63)" by (simp add: push_bit_eq_mult)
      ultimately show ?thesis using False 2 k top by (simp add: sign_extend_def shl_one_def sub_i64_def)
    next
      case 3
      then show ?thesis using False k top by (simp add: sign_extend_def shl_one_def)
    qed
  qed
qed
section \<open>Texts of well-formed files\<close>

subsection \<open>The parts of a signal line\<close>

fun order_char :: "byte_order \<Rightarrow> char" where
  "order_char LittleEndian = CHR ''1''"
| "order_char BigEndian = CHR ''0''"

fun type_char :: "value_type \<Rightarrow> char" where
  "type_char Unsigned = CHR ''+''"
| "type_char Signed = CHR ''-''"

definition layout_text :: "u8 \<Rightarrow> u8 \<Rightarrow> byte_order \<Rightarrow> value_type \<Rightarrow> string" where
  "layout_text s l order vtype = show_dec (unat s) @ ''|'' @ show_dec (unat l) @ ''@'' @ [order_char order, type_char vtype]"

lemma parse_layout_steps:
  assumes "find_char (CHR ''|'') t = Some p" "find_char (CHR ''@'') t = Some a" "p < a"
    and "slice_to t p = Returns ss" "parse_u8 ss = Some s"
    and "slice_from t (p + 1) = Returns lf" "slice_to lf (a - p - 1) = Returns ls" "parse_u8 ls = Some l"
    and "slice_from t (a + 1) = Returns [order_char order, type_char vtype]"
  shows "parse_layout t = Returns (Ok (s, l, order, vtype))"
  using assms by (cases order; cases vtype) (simp_all add: parse_layout_def nth_char_def)

lemma parse_layout_text: "parse_layout (layout_text s l order vtype) = Returns (Ok (s, l, order, vtype))"
proof -
  let ?s = "show_dec (unat s)" and ?l = "show_dec (unat l)" and ?f = "[order_char order, type_char vtype]"
  have t: "layout_text s l order vtype = ?s @ ''|'' @ (?l @ ''@'' @ ?f)" "layout_text s l order vtype = (?s @ ''|'') @ (?l @ ''@'' @ ?f)"
    "layout_text s l order vtype = (?s @ ''|'' @ ?l) @ ''@'' @ ?f" "layout_text s l order vtype = (?s @ ''|'' @ ?l @ ''@'') @ ?f"
    by (simp_all add: layout_text_def)
  show ?thesis
  proof (rule parse_layout_steps)
    show "find_char (CHR ''|'') (layout_text s l order vtype) = Some (length ?s)"
      unfolding t(1) by (rule find_char_at) simp
    show "find_char (CHR ''@'') (layout_text s l order vtype) = Some (length (?s @ ''|'' @ ?l))"
      unfolding t(3) by (rule find_char_at) simp
    show "slice_to (layout_text s l order vtype) (length ?s) = Returns ?s"
      unfolding t(1) by (rule slice_parts)
    show "slice_from (layout_text s l order vtype) (length ?s + 1) = Returns (?l @ ''@'' @ ?f)"
      unfolding t(2) using slice_parts(2) [of "?s @ ''|''"] by simp
    show "slice_to (?l @ ''@'' @ ?f) (length (?s @ ''|'' @ ?l) - length ?s - 1) = Returns ?l"
      using slice_parts(1) [of ?l] by simp
    show "slice_from (layout_text s l order vtype) (length (?s @ ''|'' @ ?l) + 1) = Returns ?f"
      unfolding t(4) using slice_parts(2) [of "?s @ ''|'' @ ?l @ ''@''"] by simp
  qed simp_all
qed

lemma parse_factor_offset_steps:
  assumes "find_char (CHR ''('') t = Some p" "find_char (CHR '')'') t = Some q" "slice t (p + 1) q = Returns fo"
    and "find_char (CHR '','') fo = Some c" "slice_to fo c = Returns fs" "fl_parse fl fs = Some x"
    and "slice_from fo (c + 1) = Returns os" "fl_parse fl os = Some y" "slice_from t (q + 1) = Returns r"
  shows "parse_factor_offset fl t = Returns (Ok (x, y, trim r))"
  using assms by (simp add: parse_factor_offset_def)

lemma parse_factor_offset_text:
  assumes "fl_parse fl f = Some x" "fl_parse fl g = Some y" "CHR '')'' \<notin> set f" "CHR '')'' \<notin> set g" "CHR '','' \<notin> set f"
  shows "parse_factor_offset fl (''('' @ f @ '','' @ g @ '')'' @ rest) = Returns (Ok (x, y, trim rest))"
proof (rule parse_factor_offset_steps [OF _ _ _ _ _ assms(1) _ assms(2)])
  let ?t = "''('' @ f @ '','' @ g @ '')'' @ rest"
  have t: "?t = (''('' @ f @ '','' @ g) @ '')'' @ rest" "?t = ''('' @ (f @ '','' @ g) @ ('')'' @ rest)"
    "?t = (''('' @ f @ '','' @ g @ '')'') @ rest" by simp_all
  show "find_char (CHR ''('') ?t = Some 0" by simp
  show "find_char (CHR '')'') ?t = Some (length (''('' @ f @ '','' @ g))"
    unfolding t(1) using assms(3,4) by (intro find_char_at) simp
  show "slice ?t (0 + 1) (length (''('' @ f @ '','' @ g)) = Returns (f @ '','' @ g)"
    unfolding t(2) using slice_parts(3) [of "''(''" "f @ '','' @ g"] by simp
  show "find_char (CHR '','') (f @ '','' @ g) = Some (length f)" using assms(5) by (intro find_char_at)
  show "slice_to (f @ '','' @ g) (length f) = Returns f" by (rule slice_parts)
  show "slice_from (f @ '','' @ g) (length f + 1) = Returns g" using slice_parts(2) [of "f @ '',''" g] by simp
  show "slice_from ?t (length (''('' @ f @ '','' @ g) + 1) = Returns rest"
    unfolding t(3) using slice_parts(2) [of "''('' @ f @ '','' @ g @ '')''" rest] by simp
qed

lemma parse_min_max_steps:
  assumes "find_char (CHR ''['') t = Some p" "find_char (CHR '']'') t = Some q" "p < q" "q < length t"
    and "slice t (p + 1) q = Returns mm" "find_char (CHR ''|'') mm = Some c" "c < length mm"
    and "slice_to mm c = Returns a" "slice_from mm (c + 1) = Returns b" "slice_from t (q + 1) = Returns r"
  shows "parse_min_max fl t = Returns (parse_or_zero fl a, parse_or_zero fl b, trim r)"
  using assms by (simp add: parse_min_max_def)

lemma parse_min_max_text:
  assumes "CHR ''|'' \<notin> set a" "CHR '']'' \<notin> set a" "CHR '']'' \<notin> set b"
  shows "parse_min_max fl (''['' @ a @ ''|'' @ b @ '']'' @ rest) =
    Returns (parse_or_zero fl a, parse_or_zero fl b, trim rest)"
proof (rule parse_min_max_steps)
  let ?t = "''['' @ a @ ''|'' @ b @ '']'' @ rest"
  have t: "?t = (''['' @ a @ ''|'' @ b) @ '']'' @ rest" "?t = ''['' @ (a @ ''|'' @ b) @ ('']'' @ rest)"
    "?t = (''['' @ a @ ''|'' @ b @ '']'') @ rest" by simp_all
  show "find_char (CHR ''['') ?t = Some 0" by simp
  show "find_char (CHR '']'') ?t = Some (length (''['' @ a @ ''|'' @ b))"
    unfolding t(1) using assms(2,3) by (intro find_char_at) simp
  show "slice ?t (0 + 1) (length (''['' @ a @ ''|'' @ b)) = Returns (a @ ''|'' @ b)"
    unfolding t(2) using slice_parts(3) [of "''[''" "a @ ''|'' @ b"] by simp
  show "find_char (CHR ''|'') (a @ ''|'' @ b) = Some (length a)" using assms(1) by (intro find_char_at)
  show "slice_to (a @ ''|'' @ b) (length a) = Returns a" by (rule slice_parts)
  show "slice_from (a @ ''|'' @ b) (length a + 1) = Returns b" using slice_parts(2) [of "a @ ''|''" b] by simp
  show "slice_from ?t (length (''['' @ a @ ''|'' @ b) + 1) = Returns rest"
    unfolding t(3) using slice_parts(2) [of "''['' @ a @ ''|'' @ b @ '']''" rest] by simp
qed simp_all

lemma parse_unit_text:
  assumes "CHR 0x22 \<notin> set u"
  shows "parse_unit ([CHR 0x22] @ u @ [CHR 0x22] @ rest) = u"
  using find_char_at [OF assms, of rest] by (simp add: parse_unit_def starts_with_def)
subsection \<open>Lines and files\<close>

record signal_text =
  st_name :: string
  st_start :: u8
  st_length :: u8
  st_order :: byte_order
  st_type :: value_type
  st_factor :: string
  st_offset :: string
  st_min :: string
  st_max :: string
  st_unit :: string
  st_receivers :: string

definition signal_line :: "signal_text \<Rightarrow> string" where
  "signal_line t =
     ''SG_ '' @ st_name t @ '' : '' @ layout_text (st_start t) (st_length t) (st_order t) (st_type t) @
     '' ('' @ st_factor t @ '','' @ st_offset t @ '') ['' @ st_min t @ ''|'' @ st_max t @ ''] '' @
     [CHR 0x22] @ st_unit t @ [CHR 0x22] @ '' '' @ st_receivers t"

definition signal_of :: "'f float_ops \<Rightarrow> signal_text \<Rightarrow> 'f dbc_signal" where
  "signal_of fl t =
     \<lparr>sg_name = st_name t, sg_start_bit = st_start t, sg_length = st_length t, sg_byte_order = st_order t,
      sg_value_type = st_type t, sg_factor = the (fl_parse fl (st_factor t)), sg_offset = the (fl_parse fl (st_offset t)),
      sg_min = parse_or_zero fl (st_min t), sg_max = parse_or_zero fl (st_max t), sg_unit = st_unit t\<rparr>"

definition wf_signal :: "'f float_ops \<Rightarrow> signal_text \<Rightarrow> bool" where
  "wf_signal fl t \<longleftrightarrow>
     is_word (st_name t) \<and> CHR '':'' \<notin> set (st_name t) \<and> is_word (st_receivers t) \<and>
     fl_parse fl (st_factor t) \<noteq> None \<and> fl_parse fl (st_offset t) \<noteq> None \<and>
     {CHR '')'', CHR '',''} \<inter> set (st_factor t) = {} \<and> CHR '')'' \<notin> set (st_offset t) \<and>
     {CHR ''|'', CHR '']''} \<inter> set (st_min t) = {} \<and> CHR '']'' \<notin> set (st_max t) \<and> CHR 0x22 \<notin> set (st_unit t) \<and>
     CHR 0x0A \<notin> set (st_factor t @ st_offset t @ st_min t @ st_max t @ st_unit t)"

lemma parse_signal_line_steps:
  assumes "find_char (CHR '':'') line = Some c" "slice line 4 c = Returns ns" "trim ns = n" "split_whitespace n = [n]"
    and "slice_from line (c + 1) = Returns r" "trim r = r'" "find_char (CHR '' '') r' = Some k"
    and "slice_to r' k = Returns lt" "slice_from r' k = Returns r2"
    and "parse_layout lt = Returns (Ok (s, l, order, vtype))" "parse_factor_offset fl (trim r2) = Returns (Ok (x, y, r3))"
    and "parse_min_max fl r3 = Returns (a, b, r4)"
  shows "parse_signal_line fl line = Returns (Ok \<lparr>sg_name = n, sg_start_bit = s, sg_length = l, sg_byte_order = order,
    sg_value_type = vtype, sg_factor = x, sg_offset = y, sg_min = a, sg_max = b, sg_unit = parse_unit r4\<rparr>)"
  unfolding parse_signal_line_def assms(1) ok_or_simps try_then_simps assms(2) and_then.simps Let_def assms(3,4)
    list.case assms(5-10) prod.case assms(11,12) ..

lemma tight_append: "s \<noteq> [] \<Longrightarrow> t \<noteq> [] \<Longrightarrow> \<not> is_whitespace (hd s) \<Longrightarrow> \<not> is_whitespace (last t) \<Longrightarrow> tight (s @ u @ t)"
  by (simp add: tight_def)

lemma is_word_hd_last: "is_word s \<Longrightarrow> s \<noteq> [] \<and> \<not> is_whitespace (hd s) \<and> \<not> is_whitespace (last s)"
  by (auto simp: is_word_def list_all_iff)

lemma is_word_no_space [simp]: "is_word s \<Longrightarrow> CHR '' '' \<notin> set s"
  by (auto simp: is_word_def list_all_iff)

lemma layout_text_no_space: "CHR '' '' \<notin> set (layout_text s l order vtype)"
  by (cases order; cases vtype) (simp_all add: layout_text_def)

lemma layout_text_hd: "layout_text s l order vtype \<noteq> []" "\<not> is_whitespace (hd (layout_text s l order vtype))"
  using is_word_hd_last [OF is_word_show_dec] by (simp_all add: layout_text_def)

lemma is_whitespace_punct [simp]: "\<not> is_whitespace (CHR ''('')" "\<not> is_whitespace (CHR ''['')" "\<not> is_whitespace (CHR 0x22)"
  "\<not> is_whitespace (CHR ''S'')" "\<not> is_whitespace (CHR ''B'')"
  by (simp_all add: is_whitespace_def)

lemma parse_signal_line_text:
  assumes "wf_signal fl t"
  shows "parse_signal_line fl (signal_line t) = Returns (Ok (signal_of fl t))"
proof -
  note wf = assms [unfolded wf_signal_def]
  let ?n = "st_name t" and ?lt = "layout_text (st_start t) (st_length t) (st_order t) (st_type t)"
  let ?r4 = "[CHR 0x22] @ st_unit t @ [CHR 0x22] @ '' '' @ st_receivers t"
  let ?r3 = "''['' @ st_min t @ ''|'' @ st_max t @ '']'' @ CHR '' '' # ?r4"
  let ?r2 = "''('' @ st_factor t @ '','' @ st_offset t @ '')'' @ CHR '' '' # ?r3"
  have rec: "st_receivers t \<noteq> []" "\<not> is_whitespace (last (st_receivers t))" using is_word_hd_last wf by auto
  have tights: "tight ?r4" "tight ?r3" "tight ?r2" "tight (?lt @ CHR '' '' # ?r2)"
    using rec layout_text_hd [of "st_start t"] by (simp_all add: tight_def)
  have line: "signal_line t = (''SG_ '' @ ?n @ '' '') @ '':'' @ CHR '' '' # ?lt @ CHR '' '' # ?r2"
    "signal_line t = ''SG_ '' @ (?n @ '' '') @ ('':'' @ CHR '' '' # ?lt @ CHR '' '' # ?r2)"
    "signal_line t = (''SG_ '' @ ?n @ '' :'') @ (CHR '' '' # ?lt @ CHR '' '' # ?r2)"
    by (simp_all add: signal_line_def)
  obtain x y where xy: "fl_parse fl (st_factor t) = Some x" "fl_parse fl (st_offset t) = Some y" using wf by auto
  have "parse_signal_line fl (signal_line t) = Returns (Ok \<lparr>sg_name = ?n, sg_start_bit = st_start t,
      sg_length = st_length t, sg_byte_order = st_order t, sg_value_type = st_type t, sg_factor = x, sg_offset = y,
      sg_min = parse_or_zero fl (st_min t), sg_max = parse_or_zero fl (st_max t), sg_unit = parse_unit ?r4\<rparr>)"
  proof (rule parse_signal_line_steps)
    show "find_char (CHR '':'') (signal_line t) = Some (length (''SG_ '' @ ?n @ '' ''))"
      unfolding line(1) using wf by (intro find_char_at) simp
    show "slice (signal_line t) 4 (length (''SG_ '' @ ?n @ '' '')) = Returns (?n @ '' '')"
      unfolding line(2) using slice_parts(3) [of "''SG_ ''" "?n @ '' ''"] by simp
    show "trim (?n @ '' '') = ?n" "split_whitespace ?n = [?n]" using wf by simp_all
    show "slice_from (signal_line t) (length (''SG_ '' @ ?n @ '' '') + 1) = Returns (CHR '' '' # ?lt @ CHR '' '' # ?r2)"
      unfolding line(3) using slice_parts(2) [of "''SG_ '' @ ?n @ '' :''"] by simp
    show "trim (CHR '' '' # ?lt @ CHR '' '' # ?r2) = ?lt @ CHR '' '' # ?r2" using tights(4) by simp
    show "find_char (CHR '' '') (?lt @ CHR '' '' # ?r2) = Some (length ?lt)"
      by (rule find_char_append [OF layout_text_no_space])
    show "slice_to (?lt @ CHR '' '' # ?r2) (length ?lt) = Returns ?lt" by (rule slice_parts)
    show "slice_from (?lt @ CHR '' '' # ?r2) (length ?lt) = Returns (CHR '' '' # ?r2)" by (rule slice_parts)
    show "parse_layout ?lt = Returns (Ok (st_start t, st_length t, st_order t, st_type t))" by (rule parse_layout_text)
    have "trim (CHR '' '' # ?r2) = ?r2" using tights(3) by simp
    moreover have "parse_factor_offset fl ?r2 = Returns (Ok (x, y, trim (CHR '' '' # ?r3)))"
      by (rule parse_factor_offset_text [OF xy]) (use wf in auto)
    moreover have "trim (CHR '' '' # ?r3) = ?r3" using tights(2) by simp
    ultimately show "parse_factor_offset fl (trim (CHR '' '' # ?r2)) = Returns (Ok (x, y, ?r3))" by (simp only:)
    have "parse_min_max fl ?r3 = Returns (parse_or_zero fl (st_min t), parse_or_zero fl (st_max t), trim (CHR '' '' # ?r4))"
      by (rule parse_min_max_text) (use wf in auto)
    moreover have "trim (CHR '' '' # ?r4) = ?r4" using tights(1) by simp
    ultimately show "parse_min_max fl ?r3 = Returns (parse_or_zero fl (st_min t), parse_or_zero fl (st_max t), ?r4)"
      by (simp only:)
  qed
  moreover have "parse_unit ?r4 = st_unit t" using wf by (intro parse_unit_text) simp
  ultimately show ?thesis by (simp add: signal_of_def xy)
qed
record message_text =
  mt_id :: u32
  mt_name :: string
  mt_dlc :: u8
  mt_sender :: string
  mt_signals :: "signal_text list"

definition message_line :: "message_text \<Rightarrow> string" where
  "message_line t =
     ''BO_ '' @ show_dec (unat (mt_id t)) @ '' '' @ mt_name t @ '': '' @ show_dec (unat (mt_dlc t)) @ '' '' @ mt_sender t"

definition message_of :: "'f float_ops \<Rightarrow> message_text \<Rightarrow> 'f dbc_message" where
  "message_of fl t =
     \<lparr>bo_id = mt_id t, bo_name = mt_name t, bo_dlc = mt_dlc t, bo_signals = map (signal_of fl) (mt_signals t)\<rparr>"

definition wf_message :: "'f float_ops \<Rightarrow> message_text \<Rightarrow> bool" where
  "wf_message fl t \<longleftrightarrow>
     is_word (mt_name t) \<and> last (mt_name t) \<noteq> CHR '':'' \<and> is_word (mt_sender t) \<and> list_all (wf_signal fl) (mt_signals t)"

text \<open>The lines of a message, and the text of a file: signals are indented by a space.\<close>

definition message_lines :: "message_text \<Rightarrow> string list" where
  "message_lines t = message_line t # map (\<lambda>s. CHR '' '' # signal_line s) (mt_signals t)"

definition dbc_text :: "message_text list \<Rightarrow> string" where
  "dbc_text ts = concat (map (\<lambda>l. l @ [CHR 0x0A]) (concat (map message_lines ts)))"

lemma splitn_step:
  "CHR '' '' \<notin> set w \<Longrightarrow> splitn (Suc (Suc n)) (CHR '' '') (w @ CHR '' '' # s) = w # splitn (Suc n) (CHR '' '') s"
  by simp

lemma trim_end_matches_colon:
  assumes "w \<noteq> []" "last w \<noteq> c"
  shows "trim_end_matches c (w @ [c]) = w"
  using assms by (cases w rule: rev_cases) (simp_all add: trim_end_matches_def)

lemma parse_message_line_text:
  assumes "wf_message fl t"
  shows "parse_message_line (message_line t) = Ok ((message_of fl t)\<lparr>bo_signals := []\<rparr>)"
proof -
  let ?i = "show_dec (unat (mt_id t))" and ?d = "show_dec (unat (mt_dlc t))"
  have n: "is_word (mt_name t)" "last (mt_name t) \<noteq> CHR '':''" using assms by (simp_all add: wf_message_def)
  have "message_line t =
      ''BO_'' @ CHR '' '' # ?i @ CHR '' '' # (mt_name t @ '':'') @ CHR '' '' # ?d @ CHR '' '' # mt_sender t"
    by (simp add: message_line_def)
  moreover have "splitn 5 (CHR '' '') (''BO_'' @ CHR '' '' # ?i @ CHR '' '' # (mt_name t @ '':'') @ CHR '' '' # ?d @ CHR '' '' # mt_sender t) =
      [''BO_'', ?i, mt_name t @ '':'', ?d, mt_sender t]"
  proof -
    have "(5 :: nat) = Suc (Suc (Suc (Suc (Suc 0))))" by simp
    moreover have "CHR '' '' \<notin> set ''BO_''" "CHR '' '' \<notin> set ?i" "CHR '' '' \<notin> set (mt_name t @ '':'')" "CHR '' '' \<notin> set ?d"
      using n(1) by simp_all
    ultimately show ?thesis by (simp only: splitn_step splitn.simps(2) simp_thms)
  qed
  ultimately have split: "splitn 5 (CHR '' '') (message_line t) = [''BO_'', ?i, mt_name t @ '':'', ?d, mt_sender t]"
    by (simp only:)
  have "trim_end_matches (CHR '':'') (mt_name t @ '':'') = mt_name t"
    using n by (intro trim_end_matches_colon) (auto simp: is_word_def)
  then show ?thesis unfolding parse_message_line_def Let_def split by (simp add: message_of_def)
qed

lemma lines_unlines:
  "list_all (\<lambda>l. CHR 0x0A \<notin> set l \<and> l \<noteq> [] \<and> \<not> is_whitespace (last l)) ls \<Longrightarrow>
   lines_from [] (concat (map (\<lambda>l. l @ [CHR 0x0A]) ls)) = ls"
proof (induction ls)
  case (Cons l ls)
  then have "last l \<noteq> CHR 0x0D" by (auto simp: is_whitespace_def)
  with Cons show ?case by (simp add: lines_from_line strip_cr_def)
qed simp

lemma message_lines_ok:
  assumes "wf_message fl t" "l \<in> set (message_lines t)"
  shows "CHR 0x0A \<notin> set l \<and> l \<noteq> [] \<and> \<not> is_whitespace (last l)"
proof -
  have "CHR 0x0A \<notin> set (layout_text s n order vtype)" for s n order vtype
    by (cases order; cases vtype) (simp_all add: layout_text_def)
  moreover have "wf_signal fl s" if "s \<in> set (mt_signals t)" for s
    using assms(1) that by (simp add: wf_message_def list_all_iff)
  ultimately show ?thesis
    using assms is_word_hd_last [of "mt_sender t"] is_word_hd_last word_no_newline
    by (fastforce simp: message_lines_def message_line_def signal_line_def wf_message_def wf_signal_def)
qed

lemma starts_with_append: "length p \<le> length s \<Longrightarrow> starts_with (s @ t) p \<longleftrightarrow> starts_with s p"
  by (simp add: starts_with_def)

lemma trim_lines:
  assumes "wf_message fl t"
  shows "trim (message_line t) = message_line t" "s \<in> set (mt_signals t) \<Longrightarrow> trim (CHR '' '' # signal_line s) = signal_line s"
proof -
  have "is_word (mt_sender t)" "s \<in> set (mt_signals t) \<Longrightarrow> is_word (st_receivers s)" for s
    using assms by (auto simp: wf_message_def wf_signal_def list_all_iff)
  note w = is_word_hd_last [OF this(1)] is_word_hd_last [OF this(2)]
  show "trim (message_line t) = message_line t"
    using w(1) by (intro trim_tight) (simp add: tight_def message_line_def)
  show "trim (CHR '' '' # signal_line s) = signal_line s" if "s \<in> set (mt_signals t)"
    using w(2) [OF that] unfolding trim_space by (intro trim_tight) (simp add: tight_def signal_line_def)
qed

lemma line_heads:
  "message_line t \<noteq> []" "starts_with (message_line t) ''BO_ ''" "\<not> starts_with (message_line t) ''//''"
  "signal_line s \<noteq> []" "starts_with (signal_line s) ''SG_ ''" "\<not> starts_with (signal_line s) ''//''"
  "\<not> starts_with (signal_line s) ''BO_ ''"
  by (simp_all add: message_line_def signal_line_def starts_with_def)

lemma parse_signal_lines:
  assumes "wf_message fl t" "set ss \<subseteq> set (mt_signals t)"
  shows "parse_lines fl (map (\<lambda>s. CHR '' '' # signal_line s) ss @ ls) db (Some msg) =
    parse_lines fl ls db (Some (msg\<lparr>bo_signals := bo_signals msg @ map (signal_of fl) ss\<rparr>))"
  using assms(2)
proof (induction ss arbitrary: msg)
  case (Cons s ss)
  then have "wf_signal fl s" using assms(1) by (simp add: wf_message_def list_all_iff)
  from Cons parse_signal_line_text [OF this] trim_lines(2) [OF assms(1), of s] show ?case
    by (simp add: line_heads del: trim_space)
qed simp

lemma parse_message_lines:
  "wf_message fl t \<Longrightarrow> parse_lines fl (message_lines t @ ls) db cur =
     parse_lines fl ls (commit cur db) (Some (message_of fl t))"
  using parse_signal_lines [of fl t "mt_signals t" ls] trim_lines(1) [of fl t] parse_message_line_text [of fl t]
  by (simp add: message_lines_def line_heads message_of_def)

lemma parse_lines_file:
  "list_all (wf_message fl) ts \<Longrightarrow>
   parse_lines fl (concat (map message_lines ts)) db cur =
     Returns (Ok (fold (\<lambda>m db. db(bo_id m \<mapsto> m)) (map (message_of fl) ts) (commit cur db)))"
proof (induction ts arbitrary: db cur)
  case (Cons t ts)
  then have wf: "wf_message fl t" "list_all (wf_message fl) ts" by simp_all
  have "commit (Some m) db = db(bo_id m \<mapsto> m)" for m :: "'a dbc_message" and db by (simp add: commit_def)
  then show ?case
    using Cons.IH [OF wf(2), of "commit cur db" "Some (message_of fl t)"]
    by (simp only: list.map concat.simps parse_message_lines [OF wf(1)] fold_simps)
qed simp
lemma fold_database:
  "fold (\<lambda>m db. db(bo_id m \<mapsto> m)) ms Map.empty = map_of (rev (map (\<lambda>m. (bo_id m, m)) ms))"
  by (induction ms rule: rev_induct) auto

text \<open>Integers in the place of floating-point numbers, for the witnesses.\<close>

definition int_ops :: "int float_ops" where
  "int_ops = \<lparr>fl_parse = (\<lambda>s. map_option int (parse_uint 10 32 s)), fl_of_int = (\<lambda>i. i), fl_mul = (\<lambda>a b. a * b), fl_add = (\<lambda>a b. a + b)\<rparr>"

subsection \<open>A malformed signal line\<close>

text \<open>A signal line with the parentheses of factor and offset the wrong way round.\<close>

definition bad_signal_line :: "string \<Rightarrow> u8 \<Rightarrow> u8 \<Rightarrow> byte_order \<Rightarrow> value_type \<Rightarrow> string \<Rightarrow> string \<Rightarrow> string" where
  "bad_signal_line name s l order vtype a b =
     ''SG_ '' @ name @ '' : '' @ layout_text s l order vtype @ '' )'' @ a @ ''('' @ b"

lemma parse_signal_line_panics:
  assumes "find_char (CHR '':'') line = Some c" "slice line 4 c = Returns ns"
    and "slice_from line (c + 1) = Returns r" "trim r = r'" "find_char (CHR '' '') r' = Some k"
    and "slice_to r' k = Returns lt" "slice_from r' k = Returns r2"
    and "parse_layout lt = Returns (Ok (s, l, order, vtype))" "parse_factor_offset fl (trim r2) = Panics"
  shows "parse_signal_line fl line = Panics"
  unfolding parse_signal_line_def assms(1) ok_or_simps try_then_simps assms(2) and_then.simps Let_def assms(3-8)
    prod.case assms(9) ..

lemma parse_factor_offset_panics:
  assumes "CHR ''('' \<notin> set a"
  shows "parse_factor_offset fl ('')'' @ a @ ''('' @ b) = Panics"
proof -
  have "find_char (CHR ''('') ('')'' @ a @ ''('' @ b) = Some (Suc (length a))"
    using find_char_at [of "CHR ''(''" "'')'' @ a" b] assms by simp
  moreover have "find_char (CHR '')'') ('')'' @ a @ ''('' @ b) = Some 0" by simp
  ultimately show ?thesis by (simp add: parse_factor_offset_def slice_def)
qed

lemma bad_signal_line_panics:
  assumes "is_word name" "CHR '':'' \<notin> set name" "is_word (a @ ''('' @ b)" "CHR ''('' \<notin> set a"
  shows "parse_signal_line fl (bad_signal_line name s l order vtype a b) = Panics"
proof (rule parse_signal_line_panics)
  let ?lt = "layout_text s l order vtype" and ?line = "bad_signal_line name s l order vtype a b"
  let ?r2 = "'')'' @ a @ ''('' @ b"
  have line: "?line = (''SG_ '' @ name @ '' '') @ '':'' @ CHR '' '' # ?lt @ CHR '' '' # ?r2"
    "?line = ''SG_ '' @ (name @ '' '') @ ('':'' @ CHR '' '' # ?lt @ CHR '' '' # ?r2)"
    "?line = (''SG_ '' @ name @ '' :'') @ (CHR '' '' # ?lt @ CHR '' '' # ?r2)"
    by (simp_all add: bad_signal_line_def)
  note b = is_word_hd_last [OF assms(3)]
  have r2: "tight (?lt @ CHR '' '' # ?r2)" "tight ?r2"
    using b layout_text_hd [of s l order vtype] by (auto simp: tight_def is_whitespace_def Let_def)
  show "find_char (CHR '':'') ?line = Some (length (''SG_ '' @ name @ '' ''))"
    unfolding line(1) using assms(2) by (intro find_char_at) simp
  show "slice ?line 4 (length (''SG_ '' @ name @ '' '')) = Returns (name @ '' '')"
    unfolding line(2) using slice_parts(3) [of "''SG_ ''" "name @ '' ''"] by simp
  show "slice_from ?line (length (''SG_ '' @ name @ '' '') + 1) = Returns (CHR '' '' # ?lt @ CHR '' '' # ?r2)"
    unfolding line(3) using slice_parts(2) [of "''SG_ '' @ name @ '' :''"] by simp
  show "trim (CHR '' '' # ?lt @ CHR '' '' # ?r2) = ?lt @ CHR '' '' # ?r2" using r2(1) by simp
  show "find_char (CHR '' '') (?lt @ CHR '' '' # ?r2) = Some (length ?lt)"
    by (rule find_char_append [OF layout_text_no_space])
  show "slice_to (?lt @ CHR '' '' # ?r2) (length ?lt) = Returns ?lt" by (rule slice_parts)
  show "slice_from (?lt @ CHR '' '' # ?r2) (length ?lt) = Returns (CHR '' '' # ?r2)" by (rule slice_parts)
  show "parse_layout ?lt = Returns (Ok (s, l, order, vtype))" by (rule parse_layout_text)
  have "trim (CHR '' '' # ?r2) = ?r2" using r2(2) by simp
  with parse_factor_offset_panics [OF assms(4), of fl b] show "parse_factor_offset fl (trim (CHR '' '' # ?r2)) = Panics"
    by (simp only:)
qed

section \<open>Properties\<close>

text \<open>
  C33: The extraction loops compute what the byte order means: for a start bit of one byte and a length of up
  to 64 the raw value is the run of bits of the number that the data are, least significant byte first
  and counted from its lowest bit, or most significant byte first and counted from its highest bit;
  bits behind the end of the data are 0.
\<close>

theorem dbc_extract_value:
  assumes "n \<le> 64" "s < 256"
  shows "extract_raw data s n order = Returns (of_nat (signal_value order data s n))"
proof -
  obtain r where "extract_raw data s n order = Returns r" "unat r = signal_value order data s n"
    using extract_raw_value [OF assms] by blast
  then show ?thesis by (metis of_nat_unat ucast_id)
qed

theorem dbc_extract_value_witness:
  "extract_raw [0x12, 0x34] 3 8 BigEndian = Returns 0x23 \<and> extract_raw [0x12, 0x34] 4 8 LittleEndian = Returns 0x41"
  by (simp add: dbc_extract_value signal_value_def be_nat_def)

text \<open>
  C34: The value of a decoded signal, for lengths of 1 to 64 bits: the raw value, or for a signed signal its
  two's complement, scaled and shifted. A negative value of a signed signal of 63 or 64 bits has no
  value: decoding it panics.
\<close>

theorem dbc_decode_signal:
  assumes "n = unat (sg_length sig)" "1 \<le> n" "n \<le> 64"
  shows "decode_signal fl sig data =
    (let v = signal_value (sg_byte_order sig) data (unat (sg_start_bit sig)) n;
         scale = (\<lambda>i. Returns (fl_add fl (fl_mul fl (fl_of_int fl i) (sg_factor sig)) (sg_offset sig)))
     in if sg_value_type sig = Unsigned \<or> v < 2 ^ (n - 1) then scale (int v)
        else if n \<le> 62 then scale (int v - 2 ^ n) else Panics)"
proof -
  let ?v = "signal_value (sg_byte_order sig) data (unat (sg_start_bit sig)) n"
  have s: "unat (sg_start_bit sig) < 256" using unat_less [of "sg_start_bit sig"] by simp
  obtain r where r: "extract_raw data (unat (sg_start_bit sig)) n (sg_byte_order sig) = Returns r" "unat r = ?v"
    using extract_raw_value [OF assms(3) s] by blast
  have "unat r < 2 ^ n" using signal_value_less r(2) by simp
  note ext = sign_extend_value [OF this assms(2,3)]
  have "uint r = int ?v" using r(2) by (metis uint_nat)
  then show ?thesis
    using r ext assms(1) by (cases "sg_value_type sig") (simp_all add: decode_signal_def Let_def)
qed

theorem dbc_decode_signal_witness:
  "decode_signal int_ops \<lparr>sg_name = ''S'', sg_start_bit = 0, sg_length = 8, sg_byte_order = LittleEndian,
     sg_value_type = Signed, sg_factor = 2, sg_offset = 1, sg_min = 0, sg_max = 0, sg_unit = ''''\<rparr> [0xFE] = Returns (-3)"
  by (subst dbc_decode_signal [OF refl]) (simp_all add: signal_value_def int_ops_def)

text \<open>
  C35: Parsing reads back every well-formed file: for the text of any list of messages with their signals
  (names and receivers without white space, numbers that parse, no delimiter inside a field), the
  database holds for each identifier the last message that has it, with all fields of all signals.
\<close>

theorem dbc_parse_text:
  assumes "list_all (wf_message fl) ts"
  shows "dbc_parse fl (dbc_text ts) = Returns (Ok (map_of (rev (map (\<lambda>t. (mt_id t, message_of fl t)) ts))))"
proof -
  have "list_all (\<lambda>l. CHR 0x0A \<notin> set l \<and> l \<noteq> [] \<and> \<not> is_whitespace (last l)) (concat (map message_lines ts))"
    using assms message_lines_ok by (fastforce simp: list_all_iff)
  from lines_unlines [OF this] have "lines (dbc_text ts) = concat (map message_lines ts)"
    by (simp add: lines_def dbc_text_def)
  moreover have "map (\<lambda>m. (bo_id m, m)) (map (message_of fl) ts) = map (\<lambda>t. (mt_id t, message_of fl t)) ts"
    by (simp add: message_of_def)
  ultimately show ?thesis
    using parse_lines_file [OF assms, of Map.empty None] fold_database [of "map (message_of fl) ts"]
    by (simp only: dbc_parse_def) (simp add: commit_def)
qed

theorem dbc_parse_text_witness:
  "let t = \<lparr>st_name = ''Speed'', st_start = 0, st_length = 16, st_order = LittleEndian, st_type = Unsigned, st_factor = ''2'',
            st_offset = ''0'', st_min = ''0'', st_max = ''9'', st_unit = ''km h'', st_receivers = ''ECU''\<rparr>;
       m = \<lparr>mt_id = 256, mt_name = ''Motion'', mt_dlc = 8, mt_sender = ''ABS'', mt_signals = [t]\<rparr>
   in dbc_parse int_ops (dbc_text [m]) = Returns (Ok (map_of [(256, message_of int_ops m)]))"
proof -
  let ?t = "\<lparr>st_name = ''Speed'', st_start = 0, st_length = 16, st_order = LittleEndian, st_type = Unsigned, st_factor = ''2'',
            st_offset = ''0'', st_min = ''0'', st_max = ''9'', st_unit = ''km h'', st_receivers = ''ECU''\<rparr>"
  let ?m = "\<lparr>mt_id = 256, mt_name = ''Motion'', mt_dlc = 8, mt_sender = ''ABS'', mt_signals = [?t]\<rparr>"
  have "is_word ''Speed'' \<and> is_word ''ECU'' \<and> is_word ''Motion'' \<and> is_word ''ABS''"
    by (simp add: is_word_def is_whitespace_def Let_def)
  moreover have "fl_parse int_ops ''2'' \<noteq> None \<and> fl_parse int_ops ''0'' \<noteq> None"
    by (simp add: int_ops_def parse_uint_def char_digit_def Let_def)
  ultimately have "list_all (wf_message int_ops) [?m]" by (simp add: wf_message_def wf_signal_def)
  from dbc_parse_text [OF this] show ?thesis by (simp only: Let_def) simp
qed

text \<open>
  The parser panics on text it should refuse: in a signal line whose closing parenthesis stands before
  the opening one, the factor and offset are sliced with their bounds the wrong way round.
\<close>

theorem dbc_parse_panics:
  assumes "wf_message fl t" "is_word name" "CHR '':'' \<notin> set name" "is_word (a @ ''('' @ b)" "CHR ''('' \<notin> set a"
  shows "dbc_parse fl (message_line t @ [CHR 0x0A] @ bad_signal_line name s l order vtype a b @ [CHR 0x0A]) = Panics"
proof -
  let ?bad = "bad_signal_line name s l order vtype a b"
  have ok: "CHR 0x0A \<notin> set (message_line t) \<and> message_line t \<noteq> [] \<and> \<not> is_whitespace (last (message_line t))"
    using message_lines_ok [OF assms(1)] by (simp add: message_lines_def)
  note b = is_word_hd_last [OF assms(4)] word_no_newline [OF assms(4)] word_no_newline [OF assms(2)]
  have "CHR 0x0A \<notin> set (layout_text s l order vtype)" by (cases order; cases vtype) (simp_all add: layout_text_def)
  with b have bad: "CHR 0x0A \<notin> set ?bad \<and> ?bad \<noteq> [] \<and> \<not> is_whitespace (last ?bad)"
    by (auto simp: bad_signal_line_def)
  have "lines (message_line t @ [CHR 0x0A] @ ?bad @ [CHR 0x0A]) = [message_line t, ?bad]"
    using lines_unlines [of "[message_line t, ?bad]"] ok bad by (simp add: lines_def)
  moreover have "trim ?bad = ?bad" using bad by (intro trim_tight) (simp add: tight_def bad_signal_line_def)
  moreover have "starts_with ?bad ''SG_ ''" "\<not> starts_with ?bad ''//''" "\<not> starts_with ?bad ''BO_ ''"
    by (simp_all add: bad_signal_line_def starts_with_def)
  ultimately show ?thesis
    using parse_message_line_text [OF assms(1)] trim_lines(1) [OF assms(1)] bad bad_signal_line_panics [OF assms(2-5), where fl = fl]
    by (simp add: dbc_parse_def line_heads)
qed

theorem dbc_parse_panics_witness:
  "dbc_parse int_ops (message_line \<lparr>mt_id = 256, mt_name = ''M'', mt_dlc = 8, mt_sender = ''E'', mt_signals = []\<rparr> @
     [CHR 0x0A] @ bad_signal_line ''S'' 0 8 LittleEndian Unsigned ''1,0'' ''['' @ [CHR 0x0A]) = Panics"
  by (rule dbc_parse_panics) (simp_all add: wf_message_def is_word_def is_whitespace_def Let_def)

end
