(* ===== verification/Can_Recorder.thy ===== *)
theory Can_Recorder
  imports Can_Text Can_Bus
begin

text \<open>
  Recording and replay in the candump format (\<^verbatim>\<open>src/recorder/mod.rs\<close>). The crate \<^verbatim>\<open>hex\<close> is the parameter
  \<open>hx\<close>; the writer, the bus that frames are replayed to and the scaling of the delays by the speed
  factor (\<^verbatim>\<open>f64\<close>) are parameters of the loops. Times are numbers of nanoseconds, texts are ASCII.
\<close>

section \<open>The code\<close>

record hex_codec =
  encode_upper :: "bytes \<Rightarrow> string"
  decode_hex :: "string \<Rightarrow> bytes option"

subsection \<open>Lines\<close>

text \<open>\<^verbatim>\<open>Duration::as_secs\<close> and \<^verbatim>\<open>subsec_micros\<close>.\<close>

definition as_secs :: "nat \<Rightarrow> nat" where
  "as_secs ts = ts div 1000000000"

definition subsec_micros :: "nat \<Rightarrow> nat" where
  "subsec_micros ts = ts mod 1000000000 div 1000"

definition format_line :: "hex_codec \<Rightarrow> string \<Rightarrow> nat \<Rightarrow> frame \<Rightarrow> string" where
  "format_line hx iface ts f =
     (let ts_str = ''('' @ show_dec (as_secs ts) @ ''.'' @ pad_left 6 (show_dec (subsec_micros ts)) @ '')'';
          id_str = show_hex (unat (f_id f))
      in if f_fd f then
           (let flags = (0 :: u8); flags = (if f_brs f then flags OR 0x01 else flags)
            in ts_str @ '' '' @ iface @ '' '' @ id_str @ ''##'' @ pad_left 2 (show_hex (unat flags)) @ encode_upper hx (f_data f))
         else ts_str @ '' '' @ iface @ '' '' @ id_str @ ''#'' @ encode_upper hx (f_data f))"

definition parse_u64 :: "string \<Rightarrow> nat option" where
  "parse_u64 s = parse_uint 10 64 s"

definition parse_timestamp :: "string \<Rightarrow> (can_error, nat) result outcome" where
  "parse_timestamp s =
     (let bad = Other (''recorder: invalid timestamp '' @ debug_string s)
      in case find_char (CHR ''.'') s of
           None \<Rightarrow> try_then (ok_or bad (parse_u64 s)) (\<lambda>secs. Returns (Ok (secs * 1000000000)))
         | Some dot \<Rightarrow>
             and_then (slice_to s dot) (\<lambda>secs_str.
             try_then (ok_or bad (parse_u64 secs_str)) (\<lambda>secs.
             and_then (slice_from s (dot + 1)) (\<lambda>frac_str.
             let frac_str = frac_str @ replicate (6 - length frac_str) (CHR ''0'');
                 frac_str = take 6 frac_str
             in try_then (ok_or bad (parse_u64 frac_str)) (\<lambda>usecs.
                Returns (Ok (secs * 1000000000 + usecs * 1000)))))))"

definition parse_hex_u32 :: "string \<Rightarrow> u32 option" where
  "parse_hex_u32 s = map_option of_nat (parse_uint 16 32 s)"

definition parse_frame_str :: "hex_codec \<Rightarrow> string \<Rightarrow> (can_error, frame) result outcome" where
  "parse_frame_str hx s =
     (let bad = (\<lambda>msg. Other (''recorder: '' @ msg))
      in case find_str ''##'' s of
           Some idx \<Rightarrow>
             and_then (slice_to s idx) (\<lambda>id_str.
             try_then (ok_or (bad (''invalid CAN ID in '' @ debug_string s)) (parse_hex_u32 id_str)) (\<lambda>i.
             and_then (slice_from s (idx + 2)) (\<lambda>rest.
             if length rest < 2 then Returns (Err (bad ''FD frame missing flags byte''))
             else and_then (slice_to rest 2) (\<lambda>flags_str.
             try_then (ok_or (bad ''invalid FD flags byte'') (decode_hex hx flags_str)) (\<lambda>flags_bytes.
             if flags_bytes = [] then Panics
             else let flags = hd flags_bytes; brs = (flags AND 0x01 \<noteq> 0)
             in and_then (if length rest > 2 then
                            and_then (slice_from rest 2) (\<lambda>data_str.
                            Returns (ok_or (bad ''invalid FD data'') (decode_hex hx data_str)))
                          else Returns (Ok [])) (\<lambda>r.
                try_then r (\<lambda>data.
                Returns (Ok (default_frame\<lparr>f_id := i, f_fd := True, f_brs := brs, f_data := data\<rparr>)))))))))
         | None \<Rightarrow>
             (case find_char (CHR ''#'') s of
                Some idx \<Rightarrow>
                  and_then (slice_to s idx) (\<lambda>id_str.
                  try_then (ok_or (bad (''invalid CAN ID in '' @ debug_string s)) (parse_hex_u32 id_str)) (\<lambda>i.
                  let ext = (i > 0x7FF)
                  in and_then (slice_from s (idx + 1)) (\<lambda>data_str.
                  try_then (if data_str = [] then Ok [] else ok_or (bad ''invalid data hex'') (decode_hex hx data_str)) (\<lambda>data.
                  Returns (Ok (default_frame\<lparr>f_id := i, f_ext := ext, f_data := data\<rparr>))))))
              | None \<Rightarrow> Returns (Err (bad (''missing '' @ quoted ''#'' @ '' in frame field '' @ debug_string s)))))"

definition parse_line :: "hex_codec \<Rightarrow> string \<Rightarrow> (can_error, nat \<times> frame) result outcome" where
  "parse_line hx line =
     (let parts = split_whitespace line
      in if length parts \<noteq> 3 then Returns (Err (Other (''recorder: expected 3 fields in '' @ debug_string line)))
         else let ts_raw = parts ! 0
         in if \<not> starts_with ts_raw ''('' \<or> \<not> ends_with ts_raw '')''
            then Returns (Err (Other (''recorder: bad timestamp '' @ debug_string ts_raw)))
            else if length ts_raw < 1 then Panics
            else and_then (slice ts_raw 1 (length ts_raw - 1)) (\<lambda>ts_str.
                 and_then (parse_timestamp ts_str) (\<lambda>r.
                 try_then r (\<lambda>ts.
                 and_then (parse_frame_str hx (parts ! 2)) (\<lambda>r.
                 try_then r (\<lambda>frame. Returns (Ok (ts, frame))))))))"

subsection \<open>Recording\<close>

text \<open>What \<^verbatim>\<open>record\<close> does first: the handle of its receiver.\<close>

definition record_open ::
    "(can_filter list \<Rightarrow> subscriber_options \<Rightarrow> 'b \<Rightarrow> (can_error, nat) result \<times> 'b) \<Rightarrow> 'b \<Rightarrow> (can_error, nat) result \<times> 'b" where
  "record_open bus_subscribe b = bus_subscribe [] default_options b"

text \<open>
  The loop of \<^verbatim>\<open>record\<close> over the receiver's queue, up to the point where it waits for a frame; \<open>clk i\<close> is
  the time since the epoch at the \<open>i\<close>-th frame, and the writer answers an error with its text.
\<close>

function record_loop ::
    "hex_codec \<Rightarrow> (string \<Rightarrow> 'w \<Rightarrow> (string, unit) result \<times> 'w) \<Rightarrow> string \<Rightarrow> (nat \<Rightarrow> nat) \<Rightarrow> nat \<Rightarrow> sub_inner \<Rightarrow> 'w \<Rightarrow>
     (can_error, unit) result poll \<times> sub_inner \<times> 'w" where
  "record_loop hx write iface clk i s w =
     (case recv_poll s of
        (Pending, s) \<Rightarrow> (Pending, s, w)
      | (Ready None, s) \<Rightarrow> (Ready (Ok ()), s, w)
      | (Ready (Some f), s) \<Rightarrow>
          (case write (format_line hx iface (clk i) f @ [CHR 0x0A]) w of
             (Err e, w) \<Rightarrow> (Ready (Err (Other e)), s, w)
           | (Ok _, w) \<Rightarrow> record_loop hx write iface clk (Suc i) s w))"
  by pat_completeness auto
termination
  by (relation "measure (\<lambda>(hx, wr, iface, clk, i, s, w). length (si_queue s))")
    (auto simp: recv_poll_eq split: list.splits if_splits)

declare record_loop.simps [simp del]

subsection \<open>Replay\<close>

datatype replay_event = Slept nat | Replayed frame

text \<open>
  The loop of \<^verbatim>\<open>replay\<close> over the lines the reader yields (or the text of a read error). \<open>scale\<close> is the
  scaled delay of a log delay, \<open>elapsed i\<close> the time since the start when the \<open>i\<close>-th line is handled.
\<close>

fun replay_loop ::
    "hex_codec \<Rightarrow> (frame \<Rightarrow> 'b \<Rightarrow> (can_error, unit) result \<times> 'b) \<Rightarrow> (nat \<Rightarrow> nat) \<Rightarrow> (nat \<Rightarrow> nat) \<Rightarrow> nat \<Rightarrow>
     nat option \<Rightarrow> (string, string) result list \<Rightarrow> 'b \<Rightarrow> (can_error, unit) result outcome \<times> replay_event list \<times> 'b" where
  "replay_loop hx send scale elapsed i t0 [] b = (Returns (Ok ()), [], b)"
| "replay_loop hx send scale elapsed i t0 (l # ls) b =
     (case l of
        Err e \<Rightarrow> (Returns (Err (Other e)), [], b)
      | Ok raw \<Rightarrow>
          (let line = trim raw
           in if line = [] \<or> starts_with line ''#'' then replay_loop hx send scale elapsed (Suc i) t0 ls b
              else case parse_line hx line of
                Panics \<Rightarrow> (Panics, [], b)
              | Returns (Err _) \<Rightarrow> replay_loop hx send scale elapsed (Suc i) t0 ls b
              | Returns (Ok (ts, frame)) \<Rightarrow>
                  (let (t0, waits) =
                         (case t0 of
                            None \<Rightarrow> (Some ts, [])
                          | Some t \<Rightarrow> (Some t, if scale (ts - t) > elapsed i then [Slept (scale (ts - t) - elapsed i)] else []))
                   in case send frame b of
                        (Err e, b) \<Rightarrow> (Returns (Err e), waits @ [Replayed frame], b)
                      | (Ok _, b) \<Rightarrow>
                          (let (r, es, b) = replay_loop hx send scale elapsed (Suc i) t0 ls b
                           in (r, waits @ Replayed frame # es, b)))))"

text \<open>\<^verbatim>\<open>replay\<close>: a speed factor that is not positive counts as 1; \<open>scaled\<close> is the scaling by a factor.\<close>

definition replay ::
    "hex_codec \<Rightarrow> (frame \<Rightarrow> 'b \<Rightarrow> (can_error, unit) result \<times> 'b) \<Rightarrow> ('f \<Rightarrow> bool) \<Rightarrow> 'f \<Rightarrow> ('f \<Rightarrow> nat \<Rightarrow> nat) \<Rightarrow> (nat \<Rightarrow> nat) \<Rightarrow>
     (string, string) result list \<Rightarrow> 'f \<Rightarrow> 'b \<Rightarrow> (can_error, unit) result outcome \<times> replay_event list \<times> 'b" where
  "replay hx send nonpositive one scaled elapsed ls speed_factor b =
     (let speed_factor = (if nonpositive speed_factor then one else speed_factor)
      in replay_loop hx send (scaled speed_factor) elapsed 0 None ls b)"

section \<open>Round trip\<close>

text \<open>
  What the crate \<^verbatim>\<open>hex\<close> documents: \<^verbatim>\<open>encode_upper\<close> writes two capital digits for every byte, and \<^verbatim>\<open>decode\<close>
  reads them back.
\<close>

definition hex_laws :: "hex_codec \<Rightarrow> bool" where
  "hex_laws hx \<longleftrightarrow>
     (\<forall>bs. encode_upper hx bs = concat (map (\<lambda>b. pad_left 2 (show_hex (unat b))) bs) \<and>
           decode_hex hx (encode_upper hx bs) = Some bs)"

text \<open>What a line keeps of a frame.\<close>

definition candump_frame :: "frame \<Rightarrow> frame" where
  "candump_frame f =
     (if f_fd f then default_frame\<lparr>f_id := f_id f, f_fd := True, f_brs := f_brs f, f_data := f_data f\<rparr>
      else default_frame\<lparr>f_id := f_id f, f_ext := (f_id f > 0x7FF), f_data := f_data f\<rparr>)"

definition frame_text :: "hex_codec \<Rightarrow> frame \<Rightarrow> string" where
  "frame_text hx f =
     (if f_fd f then show_hex (unat (f_id f)) @ ''##'' @ encode_upper hx [if f_brs f then 1 else 0] @ encode_upper hx (f_data f)
      else show_hex (unat (f_id f)) @ ''#'' @ encode_upper hx (f_data f))"

definition stamp_text :: "nat \<Rightarrow> string" where
  "stamp_text ts = show_dec (as_secs ts) @ ''.'' @ pad_left 6 (show_dec (subsec_micros ts))"

lemma format_line_parts:
  assumes "hex_laws hx"
  shows "format_line hx iface ts f = (''('' @ stamp_text ts @ '')'') @ '' '' @ iface @ '' '' @ frame_text hx f"
proof -
  have "encode_upper hx [b] = pad_left 2 (show_hex (unat b))" for b
    using assms by (simp add: hex_laws_def)
  then show ?thesis by (simp add: format_line_def stamp_text_def frame_text_def Let_def)
qed

lemma encode_upper_chars:
  assumes "hex_laws hx" "c \<in> set (encode_upper hx bs)"
  shows "48 \<le> (of_char c :: nat) \<and> (of_char c :: nat) \<le> 70"
proof -
  have pad: "48 \<le> (of_char c :: nat) \<and> (of_char c :: nat) \<le> 70" if "c \<in> set (pad_left 2 (show_hex n))" for c n
    using that show_hex_digits [of c n] by (auto simp: pad_left_def split: if_splits)
  from assms show ?thesis by (auto simp: hex_laws_def dest!: pad)
qed

lemma encode_upper_no [simp]:
  assumes "hex_laws hx"
  shows "CHR ''#'' \<notin> set (encode_upper hx bs)"
  using encode_upper_chars [OF assms, of "CHR ''#''" bs] by auto

lemma hex_laws_decode: "hex_laws hx \<Longrightarrow> decode_hex hx (encode_upper hx bs) = Some bs"
  unfolding hex_laws_def by blast

lemma hex_laws_Nil: "hex_laws hx \<Longrightarrow> encode_upper hx [] = []"
  by (simp add: hex_laws_def)

lemma encode_upper_Nil: "hex_laws hx \<Longrightarrow> encode_upper hx bs = [] \<longleftrightarrow> bs = []"
  using hex_laws_decode [of hx bs] hex_laws_decode [of hx "[]"] hex_laws_Nil [of hx] by auto

lemma hex_laws_byte: "hex_laws hx \<Longrightarrow> encode_upper hx [b] = pad_left 2 (show_hex (unat b))"
  by (simp add: hex_laws_def)

lemma hex_laws_one: "hex_laws hx \<Longrightarrow> length (encode_upper hx [b]) = 2"
  using show_radix_length [of 16 "unat b" 1] unat_less [of b] by (simp add: hex_laws_byte pad_left_length)

lemma is_word_frame_text [simp]:
  assumes "hex_laws hx"
  shows "is_word (frame_text hx f)"
proof -
  have "list_all (\<lambda>c. \<not> is_whitespace c) (encode_upper hx bs)" for bs
    using encode_upper_chars [OF assms] by (fastforce simp: list_all_iff is_whitespace_def Let_def)
  with is_word_show_hex [of "unat (f_id f)"] show ?thesis
    by (simp add: frame_text_def is_word_def is_whitespace_def)
qed

lemma is_word_stamp [simp]: "is_word (''('' @ stamp_text ts @ '')'')"
  using is_word_show_dec [of "as_secs ts"] is_word_show_dec [of "subsec_micros ts"]
  by (auto simp: stamp_text_def is_word_def is_whitespace_def pad_left_def list_all_iff)

lemma parse_timestamp_steps:
  assumes "find_char (CHR ''.'') s = Some p" "slice_to s p = Returns a" "parse_u64 a = Some secs"
    and "slice_from s (p + 1) = Returns b" "length b = 6" "parse_u64 b = Some us"
  shows "parse_timestamp s = Returns (Ok (secs * 1000000000 + us * 1000))"
  using assms by (simp add: parse_timestamp_def)

lemma parse_timestamp_text:
  assumes "as_secs ts < 2 ^ 64"
  shows "parse_timestamp (stamp_text ts) = Returns (Ok (ts - ts mod 1000))"
proof -
  let ?a = "show_dec (as_secs ts)" and ?b = "pad_left 6 (show_dec (subsec_micros ts))"
  have us: "subsec_micros ts < 10 ^ Suc 5" by (simp add: subsec_micros_def less_mult_imp_div_less)
  have "parse_timestamp (stamp_text ts) = Returns (Ok (as_secs ts * 1000000000 + subsec_micros ts * 1000))"
  proof (rule parse_timestamp_steps)
    show "find_char (CHR ''.'') (stamp_text ts) = Some (length ?a)"
      unfolding stamp_text_def by (rule find_char_at) simp
    show "slice_to (stamp_text ts) (length ?a) = Returns ?a" unfolding stamp_text_def by (rule slice_parts)
    show "slice_from (stamp_text ts) (length ?a + 1) = Returns ?b"
      using slice_parts(2) [of "?a @ ''.''" ?b] by (simp add: stamp_text_def)
    show "length ?b = 6" using show_radix_length [of 10, OF _ us] by (intro pad_left_length) simp
    show "parse_u64 ?a = Some (as_secs ts)" using assms by (simp add: parse_u64_def parse_uint_show_radix)
    show "parse_u64 ?b = Some (subsec_micros ts)" using us by (simp add: parse_u64_def parse_uint_padded)
  qed
  moreover have "as_secs ts * 1000000000 + subsec_micros ts * 1000 = ts - ts mod 1000"
  proof -
    have "ts mod 1000 = ts mod 1000000000 mod 1000" by (simp add: mod_mod_cancel)
    then show ?thesis
      unfolding as_secs_def subsec_micros_def
      using div_mult_mod_eq [of ts 1000000000] div_mult_mod_eq [of "ts mod 1000000000" 1000] by linarith
  qed
  ultimately show ?thesis by simp
qed

lemma parse_frame_str_fd_steps:
  assumes "find_str ''##'' s = Some p" "slice_to s p = Returns a" "parse_hex_u32 a = Some i"
    and "slice_from s (p + 2) = Returns (fb @ d)" "length fb = 2" "decode_hex hx fb = Some [fl]"
    and "decode_hex hx d = Some bs" "d = [] \<longleftrightarrow> bs = []"
  shows "parse_frame_str hx s =
    Returns (Ok (default_frame\<lparr>f_id := i, f_fd := True, f_brs := (fl AND 1 \<noteq> 0), f_data := bs\<rparr>))"
  using assms by (cases "d = []") (simp_all add: parse_frame_str_def)

lemma parse_frame_str_classic_steps:
  assumes "find_str ''##'' s = None" "find_char (CHR ''#'') s = Some p" "slice_to s p = Returns a" "parse_hex_u32 a = Some i"
    and "slice_from s (p + 1) = Returns d" "decode_hex hx d = Some bs" "d = [] \<longleftrightarrow> bs = []"
  shows "parse_frame_str hx s = Returns (Ok (default_frame\<lparr>f_id := i, f_ext := (i > 0x7FF), f_data := bs\<rparr>))"
  using assms by (cases "d = []") (simp_all add: parse_frame_str_def)

lemma parse_hex_u32_show [simp]: "parse_hex_u32 (show_hex (unat (w :: u32))) = Some w"
  using parse_uint_show_radix [of 16 "unat w" 32] unat_less [of w] by (simp add: parse_hex_u32_def)

lemma parse_frame_str_text:
  assumes "hex_laws hx"
  shows "parse_frame_str hx (frame_text hx f) = Returns (Ok (candump_frame f))"
proof -
  let ?i = "show_hex (unat (f_id f))" and ?d = "encode_upper hx (f_data f)"
  let ?b = "if f_brs f then 1 else 0 :: u8"
  note hx = hex_laws_decode [OF assms] encode_upper_Nil [OF assms] hex_laws_one [OF assms]
  show ?thesis
  proof (cases "f_fd f")
    case True
    then have t: "frame_text hx f = ?i @ ''##'' @ (encode_upper hx [?b] @ ?d)"
      by (simp only: frame_text_def if_True)
    have "parse_frame_str hx (frame_text hx f) =
      Returns (Ok (default_frame\<lparr>f_id := f_id f, f_fd := True, f_brs := (?b AND 1 \<noteq> 0), f_data := f_data f\<rparr>))"
    proof (rule parse_frame_str_fd_steps)
      show "find_str ''##'' (frame_text hx f) = Some (length ?i)"
        unfolding t by (rule find_str_skip) simp_all
      show "slice_to (frame_text hx f) (length ?i) = Returns ?i" unfolding t by (rule slice_parts)
      show "slice_from (frame_text hx f) (length ?i + 2) = Returns (encode_upper hx [?b] @ ?d)"
        unfolding t using slice_parts(2) [of "?i @ ''##''"] by simp
    qed (simp_all add: hx del: One_nat_def)
    with True show ?thesis by (simp add: candump_frame_def)
  next
    case False
    then have t: "frame_text hx f = ?i @ [CHR ''#''] @ ?d" by (simp only: frame_text_def if_False)
    have "parse_frame_str hx (frame_text hx f) =
      Returns (Ok (default_frame\<lparr>f_id := f_id f, f_ext := (f_id f > 0x7FF), f_data := f_data f\<rparr>))"
    proof (rule parse_frame_str_classic_steps)
      show "find_str ''##'' (frame_text hx f) = None"
        unfolding t using encode_upper_no [OF assms, of "f_data f"] by (intro find_str_single) simp_all
      show "find_char (CHR ''#'') (frame_text hx f) = Some (length ?i)"
        unfolding t by (rule find_char_at) simp
      show "slice_to (frame_text hx f) (length ?i) = Returns ?i" unfolding t by (rule slice_parts)
      show "slice_from (frame_text hx f) (length ?i + 1) = Returns ?d"
        unfolding t using slice_parts(2) [of "?i @ ''#''"] by simp
    qed (simp_all add: hx)
    with False show ?thesis by (simp add: candump_frame_def)
  qed
qed

lemma parse_line_steps:
  assumes "split_whitespace l = [''('' @ a @ '')'', b, c]" "parse_timestamp a = Returns (Ok ts)"
    and "parse_frame_str hx c = Returns (Ok f)"
  shows "parse_line hx l = Returns (Ok (ts, f))"
proof -
  have "starts_with (''('' @ a @ '')'') ''(''" "ends_with (''('' @ a @ '')'') '')''"
    by (simp_all add: starts_with_def ends_with_def)
  moreover have "slice (''('' @ a @ '')'') 1 (length (''('' @ a @ '')'') - 1) = Returns a"
    using slice_parts(3) [of "''(''" a "'')''"] by simp
  ultimately show ?thesis using assms(2,3) unfolding parse_line_def assms(1) by simp
qed
lemma parse_line_text:
  assumes "hex_laws hx" "is_word iface" "as_secs ts < 2 ^ 64"
  shows "parse_line hx (format_line hx iface ts f) = Returns (Ok (ts - ts mod 1000, candump_frame f))"
proof (rule parse_line_steps)
  show "split_whitespace (format_line hx iface ts f) = [''('' @ stamp_text ts @ '')'', iface, frame_text hx f]"
    unfolding format_line_parts [OF assms(1)] using assms(1,2)
    by (intro split_whitespace_words(2) is_word_stamp is_word_frame_text)
qed (rule parse_timestamp_text [OF assms(3)] parse_frame_str_text [OF assms(1)])+

text \<open>
  C36: A recorded line parses back. For every frame, interface name and time (whose seconds fit \<^verbatim>\<open>u64\<close>)
  \<open>parse_line\<close> of \<open>format_line\<close> returns the time rounded down to a microsecond and \<open>candump_frame f\<close>: the
  identifier, the data, and for a CAN FD frame the bit-rate switch. The extended flag of a classic
  frame is recomputed from the identifier; the other flags are lost.
\<close>

theorem rec_line_roundtrip:
  assumes "hex_laws hx" "is_word iface" "as_secs ts < 2 ^ 64"
  shows "parse_line hx (format_line hx iface ts f) = Returns (Ok (ts - ts mod 1000, candump_frame f))"
  using assms by (rule parse_line_text)

text \<open>A codec with these laws.\<close>

fun unhex :: "string \<Rightarrow> bytes option" where
  "unhex [] = Some []"
| "unhex [c] = None"
| "unhex (c # d # cs) =
     (case (char_digit 16 c, char_digit 16 d, unhex cs) of
        (Some h, Some l, Some bs) \<Rightarrow> Some (of_nat (16 * h + l) # bs)
      | _ \<Rightarrow> None)"

definition hex_example :: hex_codec where
  "hex_example = \<lparr>encode_upper = (\<lambda>bs. concat (map (\<lambda>b. pad_left 2 (show_hex (unat b))) bs)), decode_hex = unhex\<rparr>"

lemma hex_example_laws: "hex_laws hex_example"
proof -
  have digit_char_zero: "digit_char 0 = CHR ''0''" by (simp add: digit_char_def char_of_def bit_Suc_0_iff)
  have byte: "pad_left 2 (show_hex (unat (b :: u8))) = [digit_char (unat b div 16), digit_char (unat b mod 16)]" for b
    using unat_less [of b] show_radix.simps [of 16 "unat b"] show_radix.simps [of 16 "unat b div 16"]
    by (auto simp: pad_left_def digit_char_zero)
  have "unhex (concat (map (\<lambda>b. pad_left 2 (show_hex (unat b))) bs)) = Some bs" for bs :: bytes
  proof (induction bs)
    case (Cons b bs)
    have "unat b div 16 < 16" "unat b mod 16 < 16" using unat_less [of b] by (simp_all add: less_mult_imp_div_less)
    then show ?case using Cons by (simp add: byte char_digit_digit_char)
  qed simp
  then show ?thesis by (simp add: hex_laws_def hex_example_def)
qed

theorem rec_line_roundtrip_witness:
  "let f = default_frame\<lparr>f_id := 0x1FFFFFFF, f_ext := True, f_data := [0xDE, 0xAD]\<rparr>
   in parse_line hex_example (format_line hex_example ''vcan0'' 1609459200123456789 f) = Returns (Ok (1609459200123456000, f))"
  using rec_line_roundtrip [OF hex_example_laws, of "''vcan0''" 1609459200123456789
      "default_frame\<lparr>f_id := 0x1FFFFFFF, f_ext := True, f_data := [0xDE, 0xAD]\<rparr>"]
  by (simp add: Let_def candump_frame_def default_frame_def is_word_def is_whitespace_def as_secs_def)

text \<open>
  The extended flag of a CAN FD frame is not recovered: a valid frame with an identifier above 0x7FF
  comes back as one that every bus refuses, and \<open>replay\<close> ends with that error.
\<close>

theorem rec_extended_fd_refused:
  assumes "wf_fd f" "f_id f > 0x7FF"
  shows "\<exists>r. validate_frame (candump_frame f) = Err (InvalidFrame r)"
proof -
  have "\<not> wf_frame (candump_frame f)"
    using assms by (auto simp: wf_frame_def wf_xl_def wf_fd_def wf_classic_def wf_id_def candump_frame_def default_frame_def std_id_gt)
  then have "validate_frame (candump_frame f) \<noteq> Ok ()" by (simp add: validate_frame_iff)
  with validate_frame_cases show ?thesis by blast
qed

section \<open>Replaying a recording\<close>

text \<open>Sending frames one after the other until one is refused; the frames handed to the bus.\<close>

fun send_each :: "(frame \<Rightarrow> 'b \<Rightarrow> (can_error, unit) result \<times> 'b) \<Rightarrow> frame list \<Rightarrow> 'b \<Rightarrow> (can_error, unit) result \<times> frame list \<times> 'b" where
  "send_each send [] b = (Ok (), [], b)"
| "send_each send (f # fs) b =
     (case send f b of
        (Err e, b) \<Rightarrow> (Err e, [f], b)
      | (Ok _, b) \<Rightarrow> (let (r, sent, b) = send_each send fs b in (r, f # sent, b)))"

fun replayed :: "replay_event list \<Rightarrow> frame list" where
  "replayed [] = []"
| "replayed (Slept d # es) = replayed es"
| "replayed (Replayed f # es) = f # replayed es"

lemma replayed_append [simp]: "replayed (xs @ ys) = replayed xs @ replayed ys"
  by (induction xs rule: replayed.induct) simp_all

lemma format_line_tight:
  assumes "hex_laws hx"
  shows "trim (format_line hx iface ts f) = format_line hx iface ts f" "format_line hx iface ts f \<noteq> []"
    "\<not> starts_with (format_line hx iface ts f) ''#''"
proof -
  have "last (frame_text hx f) = last (format_line hx iface ts f)"
    using is_word_frame_text [OF assms, of f] by (simp add: format_line_parts [OF assms] is_word_def)
  moreover have "tight (frame_text hx f)" "frame_text hx f \<noteq> []"
    using is_word_frame_text [OF assms, of f] by (auto simp: is_word_def tight_word)
  ultimately have "tight (format_line hx iface ts f)"
    by (simp add: tight_def) (simp add: format_line_parts [OF assms] is_whitespace_def)
  then show "trim (format_line hx iface ts f) = format_line hx iface ts f" by simp
  show "format_line hx iface ts f \<noteq> []" "\<not> starts_with (format_line hx iface ts f) ''#''"
    by (simp_all add: format_line_parts [OF assms] starts_with_def)
qed

fun recorded_times :: "(nat \<times> frame) list \<Rightarrow> bool" where
  "recorded_times log \<longleftrightarrow> list_all (\<lambda>(ts, f). as_secs ts < 2 ^ 64) log"

lemma replay_loop_log:
  assumes "hex_laws hx" "is_word iface" "recorded_times log"
  shows "(let (r, es, b) = replay_loop hx send scale elapsed i t0 (map (\<lambda>(ts, f). Ok (format_line hx iface ts f)) log) b
          in (r, replayed es, b)) =
    (let (r, fs, b) = send_each send (map (\<lambda>x. candump_frame (snd x)) log) b in (Returns r, fs, b))"
  using assms(3)
proof (induction log arbitrary: i t0 b)
  case (Cons x log)
  obtain ts f where x: "x = (ts, f)" by (cases x)
  define t where "t = ts - ts mod 1000"
  have ts: "as_secs ts < 2 ^ 64" "recorded_times log" using Cons.prems by (simp_all add: x)
  have line: "parse_line hx (format_line hx iface ts f) = Returns (Ok (t, candump_frame f))"
    unfolding t_def using assms(1,2) ts(1) by (rule parse_line_text)
  show ?case
  proof (cases "send (candump_frame f) b")
    case (Pair r b')
    note IH = Cons.IH [OF ts(2), of "Suc i" _ b']
    show ?thesis
    proof (cases r)
      case (Inl e)
      with Pair show ?thesis
        by (cases t0) (simp_all add: x line format_line_tight [OF assms(1)] Let_def)
    next
      case (Inr u)
      let ?t0 = "Some (case t0 of None \<Rightarrow> t | Some t0 \<Rightarrow> t0)"
      obtain r1 es b1 where R: "replay_loop hx send scale elapsed (Suc i) ?t0 (map (\<lambda>(ts, f). Ok (format_line hx iface ts f)) log) b' =
        (r1, es, b1)" by (rule prod_cases3)
      obtain r2 fs b2 where S: "send_each send (map (\<lambda>x. candump_frame (snd x)) log) b' = (r2, fs, b2)" by (rule prod_cases3)
      from IH [of ?t0] have "r1 = Returns r2" "replayed es = fs" "b1 = b2" by (simp_all add: R S)
      with Inr Pair R S show ?thesis
        by (cases t0) (simp_all add: x line format_line_tight [OF assms(1)] Let_def)
    qed
  qed
qed simp

lemma replay_log:
  assumes "hex_laws hx" "is_word iface" "recorded_times log"
  shows "(let (r, es, b) = replay hx send nonpositive one scaled elapsed
              (map (\<lambda>(ts, f). Ok (format_line hx iface ts f)) log) speed b
          in (r, replayed es, b)) =
    (let (r, fs, b) = send_each send (map (\<lambda>x. candump_frame (snd x)) log) b in (Returns r, fs, b))"
  unfolding replay_def Let_def [of "if nonpositive speed then one else speed"] by (rule replay_loop_log [OF assms])

section \<open>Recording, then replaying\<close>

text \<open>A writer that never fails, such as a \<^verbatim>\<open>Vec<u8>\<close>, and the log of the frames of a queue.\<close>

definition append_writer :: "string \<Rightarrow> string \<Rightarrow> (string, unit) result \<times> string" where
  "append_writer t w = (Ok (), w @ t)"

fun recorded_log :: "(nat \<Rightarrow> nat) \<Rightarrow> nat \<Rightarrow> frame list \<Rightarrow> (nat \<times> frame) list" where
  "recorded_log clk i [] = []"
| "recorded_log clk i (f # fs) = (clk i, f) # recorded_log clk (Suc i) fs"

definition log_text :: "hex_codec \<Rightarrow> string \<Rightarrow> (nat \<times> frame) list \<Rightarrow> string" where
  "log_text hx iface log = concat (map (\<lambda>(ts, f). format_line hx iface ts f @ [CHR 0x0A]) log)"

lemma recorded_log_snd [simp]: "map (\<lambda>x. g (snd x)) (recorded_log clk i fs) = map g fs"
  by (induction fs arbitrary: i) simp_all

lemma recorded_log_times: "(\<And>i. as_secs (clk i) < 2 ^ 64) \<Longrightarrow> recorded_times (recorded_log clk i fs)"
  by (induction fs arbitrary: i) (simp_all del: power_numeral)

lemma record_loop_text:
  "si_queue s = fs \<Longrightarrow> record_loop hx append_writer iface clk i s w =
     (if si_closed s then Ready (Ok ()) else Pending, s\<lparr>si_queue := []\<rparr>, w @ log_text hx iface (recorded_log clk i fs))"
proof (induction fs arbitrary: i s w)
  case Nil
  then show ?case by (cases s) (simp add: record_loop.simps recv_poll_eq log_text_def)
next
  case (Cons f fs)
  have "record_loop hx append_writer iface clk i s w =
    record_loop hx append_writer iface clk (Suc i) (s\<lparr>si_queue := fs\<rparr>) (w @ format_line hx iface (clk i) f @ [CHR 0x0A])"
    using Cons.prems by (subst record_loop.simps) (simp add: recv_poll_eq append_writer_def)
  also have "\<dots> = (if si_closed s then Ready (Ok ()) else Pending, s\<lparr>si_queue := []\<rparr>,
      w @ log_text hx iface (recorded_log clk i (f # fs)))"
    using Cons.IH [of "s\<lparr>si_queue := fs\<rparr>"] by (simp add: log_text_def)
  finally show ?case .
qed

lemma format_line_no_break:
  assumes "hex_laws hx" "is_word iface"
  shows "CHR 0x0A \<notin> set (format_line hx iface ts f)" "strip_cr (format_line hx iface ts f) = format_line hx iface ts f"
proof -
  show "CHR 0x0A \<notin> set (format_line hx iface ts f)"
    using word_no_newline [OF is_word_stamp [of ts]] word_no_newline [OF assms(2)]
      word_no_newline [OF is_word_frame_text [OF assms(1), of f]]
    by (simp add: format_line_parts [OF assms(1)])
  have "\<not> is_whitespace (last (frame_text hx f))" "frame_text hx f \<noteq> []"
    using is_word_frame_text [OF assms(1), of f] by (auto simp: is_word_def list_all_iff)
  then have "last (format_line hx iface ts f) \<noteq> CHR 0x0D"
    by (auto simp: format_line_parts [OF assms(1)] is_whitespace_def)
  then show "strip_cr (format_line hx iface ts f) = format_line hx iface ts f" by (simp add: strip_cr_def)
qed

lemma lines_log:
  assumes "hex_laws hx" "is_word iface"
  shows "lines (log_text hx iface log) = map (\<lambda>(ts, f). format_line hx iface ts f) log"
  unfolding lines_def log_text_def
  by (induction log) (auto simp: lines_from_line format_line_no_break [OF assms])

text \<open>
  A recording replays. \<open>record\<close> on a queue of frames writes one line for each and then ends when the
  queue is closed (and waits when it is not), with nothing left in the queue; \<open>replay\<close> of the text
  it wrote hands another bus these frames, as \<open>candump_frame\<close> keeps them, in order, up to and with the
  first one that bus refuses. The answer and the state are the bus's, whatever the speed
  factor, the delays and the clocks are, and no line panics.
\<close>

theorem rec_record_replay:
  assumes "hex_laws hx" "is_word iface" "\<And>i. as_secs (clk i) < 2 ^ 64"
    and "record_loop hx append_writer iface clk 0 s [] = (ended, s', text)"
  shows "ended = (if si_closed s then Ready (Ok ()) else Pending) \<and> si_queue s' = [] \<and>
    (let (r, es, b) = replay hx send nonpositive one scaled elapsed (map Ok (lines text)) speed b
     in (r, replayed es, b)) =
    (let (r, fs, b) = send_each send (map candump_frame (si_queue s)) b in (Returns r, fs, b))"
proof -
  let ?log = "recorded_log clk 0 (si_queue s)"
  have "text = log_text hx iface ?log" and r: "ended = (if si_closed s then Ready (Ok ()) else Pending)" "si_queue s' = []"
    using assms(4) record_loop_text [of s "si_queue s" hx iface clk 0 "[]"] by auto
  then have t: "map Ok (lines text) = map (\<lambda>(ts, f). Ok (format_line hx iface ts f)) ?log"
    by (simp add: lines_log [OF assms(1,2)] case_prod_beta)
  have "recorded_times ?log" using assms(3) by (rule recorded_log_times)
  from replay_log [OF assms(1,2) this, where b = b] show ?thesis
    unfolding t recorded_log_snd by (intro conjI r)
qed

definition refusing_send :: "frame \<Rightarrow> frame list \<Rightarrow> (can_error, unit) result \<times> frame list" where
  "refusing_send f sent = (case validate_frame f of Err e \<Rightarrow> (Err e, sent) | Ok _ \<Rightarrow> (Ok (), sent @ [f]))"

theorem rec_record_replay_witness:
  "let f = default_frame\<lparr>f_id := 0x123, f_data := [0xDE, 0xAD]\<rparr>;
       (_, _, text) = record_loop hex_example append_writer ''vcan0'' (\<lambda>i. 1000000000) 0
         (sub_new 0 8 DropNewest 0\<lparr>si_queue := [f, f]\<rparr>) [];
       (r, es, b) = replay hex_example refusing_send (\<lambda>s. s \<le> (0 :: int)) 1 (\<lambda>s d. d div nat s) (\<lambda>i. i) (map Ok (lines text)) 2 []
   in (r, replayed es, b) = (Returns (Ok ()), [f, f], [f, f])"
proof -
  let ?f = "default_frame\<lparr>f_id := 0x123, f_data := [0xDE, 0xAD]\<rparr>"
  let ?s = "sub_new 0 8 DropNewest 0\<lparr>si_queue := [?f, ?f]\<rparr>"
  obtain ended s' out where t: "record_loop hex_example append_writer ''vcan0'' (\<lambda>i. 1000000000) 0 ?s [] = (ended, s', out)"
    by (rule prod_cases3)
  have "validate_frame ?f = Ok ()" by (simp add: validate_frame_iff wf_frame_def wf_classic_def wf_id_def default_frame_def)
  moreover have "candump_frame ?f = ?f" by (simp add: candump_frame_def default_frame_def)
  moreover have "is_word ''vcan0''" by (simp add: is_word_def is_whitespace_def)
  ultimately show ?thesis
    using rec_record_replay [OF hex_example_laws _ _ t, of refusing_send
        "\<lambda>s. s \<le> (0 :: int)" 1 "\<lambda>s d. d div nat s" "\<lambda>i. i" 2 "[]"]
    by (simp add: t Let_def refusing_send_def case_prod_beta as_secs_def)
qed

end
