(* ===== verification/Can_Obd.thy ===== *)
theory Can_Obd
  imports Can_Uds
begin

text \<open>
  The OBD-II client of \<^verbatim>\<open>src/obdii/mod.rs\<close> over an ISO-TP connection. A physical value is \<^verbatim>\<open>f64\<close>, whose
  operations are the parameter \<open>fl\<close>; texts are their bytes, so the degree sign has two.
\<close>

section \<open>The code\<close>

definition MODE_CURRENT_DATA :: u8 where "MODE_CURRENT_DATA = 0x01"
definition MODE_FREEZE_DTC :: u8 where "MODE_FREEZE_DTC = 0x02"
definition MODE_STORED_DTC :: u8 where "MODE_STORED_DTC = 0x03"
definition MODE_CLEAR_DTC :: u8 where "MODE_CLEAR_DTC = 0x04"
definition MODE_VEHICLE_INFO :: u8 where "MODE_VEHICLE_INFO = 0x09"
definition PID_ENGINE_LOAD :: u8 where "PID_ENGINE_LOAD = 0x04"
definition PID_COOLANT_TEMP :: u8 where "PID_COOLANT_TEMP = 0x05"
definition PID_ENGINE_RPM :: u8 where "PID_ENGINE_RPM = 0x0C"
definition PID_VEHICLE_SPEED :: u8 where "PID_VEHICLE_SPEED = 0x0D"
definition PID_THROTTLE_POSITION :: u8 where "PID_THROTTLE_POSITION = 0x11"
definition PID_INTAKE_AIR_TEMP :: u8 where "PID_INTAKE_AIR_TEMP = 0x0F"
definition PID_MAF :: u8 where "PID_MAF = 0x10"
definition PID_FUEL_TANK_LEVEL :: u8 where "PID_FUEL_TANK_LEVEL = 0x2F"
definition PID_BAROMETRIC_PRESSURE :: u8 where "PID_BAROMETRIC_PRESSURE = 0x33"
definition PID_AMBIENT_AIR_TEMP :: u8 where "PID_AMBIENT_AIR_TEMP = 0x46"
definition PID_TIMING_ADVANCE :: u8 where "PID_TIMING_ADVANCE = 0x0E"
definition PID_CONTROL_MODULE_VOLTAGE :: u8 where "PID_CONTROL_MODULE_VOLTAGE = 0x42"
definition PID_RUNTIME_SINCE_START :: u8 where "PID_RUNTIME_SINCE_START = 0x1F"
definition PID_INTAKE_MANIFOLD_PRESSURE :: u8 where "PID_INTAKE_MANIFOLD_PRESSURE = 0x0B"
definition PID_VIN :: u8 where "PID_VIN = 0x02"

lemmas obd_defs = MODE_CURRENT_DATA_def MODE_VEHICLE_INFO_def PID_ENGINE_LOAD_def PID_COOLANT_TEMP_def
  PID_ENGINE_RPM_def PID_VEHICLE_SPEED_def PID_THROTTLE_POSITION_def PID_INTAKE_AIR_TEMP_def PID_MAF_def
  PID_FUEL_TANK_LEVEL_def PID_BAROMETRIC_PRESSURE_def PID_AMBIENT_AIR_TEMP_def PID_TIMING_ADVANCE_def
  PID_CONTROL_MODULE_VOLTAGE_def PID_RUNTIME_SINCE_START_def PID_INTAKE_MANIFOLD_PRESSURE_def PID_VIN_def

record 'f f64_ops =
  f64_of :: "nat \<Rightarrow> 'f"
  f64_sub :: "'f \<Rightarrow> 'f \<Rightarrow> 'f"
  f64_mul :: "'f \<Rightarrow> 'f \<Rightarrow> 'f"
  f64_div :: "'f \<Rightarrow> 'f \<Rightarrow> 'f"

record 'f obd_value =
  ov_pid :: u8
  ov_raw :: bytes
  ov_float :: 'f
  ov_unit :: string

text \<open>\<^verbatim>\<open>u16::from(data[0]) << 8 | u16::from(data[1])\<close>, and the sign of degrees.\<close>

definition obd_word :: "bytes \<Rightarrow> u16" where
  "obd_word data = push_bit 8 (ucast (data ! 0)) OR ucast (data ! 1)"

definition degrees :: string where
  "degrees = [CHR 0xC2, CHR 0xB0]"

definition decode_mode01 :: "'f f64_ops \<Rightarrow> u8 \<Rightarrow> bytes \<Rightarrow> 'f obd_value" where
  "decode_mode01 fl pid data =
     (let v = \<lparr>ov_pid = pid, ov_raw = data, ov_float = f64_of fl 0, ov_unit = ''''\<rparr>;
          byte = f64_of fl (unat (data ! 0));
          word = f64_of fl (unat (obd_word data))
      in if pid = PID_ENGINE_RPM then
           (if length data \<ge> 2 then v\<lparr>ov_float := f64_div fl word (f64_of fl 4), ov_unit := ''rpm''\<rparr> else v)
         else if pid = PID_VEHICLE_SPEED then
           (if data \<noteq> [] then v\<lparr>ov_float := byte, ov_unit := ''km/h''\<rparr> else v)
         else if pid = PID_COOLANT_TEMP \<or> pid = PID_INTAKE_AIR_TEMP \<or> pid = PID_AMBIENT_AIR_TEMP then
           (if data \<noteq> [] then v\<lparr>ov_float := f64_sub fl byte (f64_of fl 40), ov_unit := degrees @ ''C''\<rparr> else v)
         else if pid = PID_ENGINE_LOAD \<or> pid = PID_THROTTLE_POSITION \<or> pid = PID_FUEL_TANK_LEVEL then
           (if data \<noteq> [] then
              v\<lparr>ov_float := f64_div fl (f64_mul fl byte (f64_of fl 100)) (f64_of fl 255), ov_unit := ''%''\<rparr>
            else v)
         else if pid = PID_MAF then
           (if length data \<ge> 2 then v\<lparr>ov_float := f64_div fl word (f64_of fl 100), ov_unit := ''g/s''\<rparr> else v)
         else if pid = PID_INTAKE_MANIFOLD_PRESSURE \<or> pid = PID_BAROMETRIC_PRESSURE then
           (if data \<noteq> [] then v\<lparr>ov_float := byte, ov_unit := ''kPa''\<rparr> else v)
         else if pid = PID_TIMING_ADVANCE then
           (if data \<noteq> [] then
              v\<lparr>ov_float := f64_sub fl (f64_div fl byte (f64_of fl 2)) (f64_of fl 64), ov_unit := degrees\<rparr>
            else v)
         else if pid = PID_CONTROL_MODULE_VOLTAGE then
           (if length data \<ge> 2 then v\<lparr>ov_float := f64_div fl word (f64_of fl 1000), ov_unit := ''V''\<rparr> else v)
         else if pid = PID_RUNTIME_SINCE_START then
           (if length data \<ge> 2 then v\<lparr>ov_float := word, ov_unit := ''s''\<rparr> else v)
         else v)"

definition obd_request :: "iso_config \<Rightarrow> bytes \<Rightarrow> link \<Rightarrow> (can_error, bytes) result \<times> link" where
  "obd_request cfg req l =
     (case iso_send cfg req l of
        (Err e, l) \<Rightarrow> (Err e, l)
      | (Ok _, l) \<Rightarrow>
          (case iso_recv cfg l of
             (Err e, l) \<Rightarrow> (Err e, l)
           | (Ok resp, l) \<Rightarrow>
               if resp = [] then (Err (Other ''obdii: empty response''), l)
               else if resp ! 0 = 0x7F then
                 (let nrc = (if length resp \<ge> 3 then resp ! 2 else 0)
                  in (Err (Other (''obdii: negative response for mode 0x'' @ pad_left 2 (show_hex (unat (req ! 0))) @
                                  '': NRC 0x'' @ pad_left 2 (show_hex (unat nrc)))), l))
               else (Ok resp, l)))"

definition read_pid :: "'f f64_ops \<Rightarrow> iso_config \<Rightarrow> u8 \<Rightarrow> link \<Rightarrow> (can_error, 'f obd_value) result \<times> link" where
  "read_pid fl cfg pid l =
     (case obd_request cfg [MODE_CURRENT_DATA, pid] l of
        (Err e, l) \<Rightarrow> (Err e, l)
      | (Ok resp, l) \<Rightarrow>
          if length resp < 3 \<or> resp ! 0 \<noteq> MODE_CURRENT_DATA + 0x40 \<or> resp ! 1 \<noteq> pid
          then (Err (Other (''obdii: unexpected response for PID 0x'' @ pad_left 2 (show_hex (unat pid)) @ '': '' @
                            debug_hex_bytes resp)), l)
          else (Ok (decode_mode01 fl pid (drop 2 resp)), l))"

text \<open>
  \<^verbatim>\<open>String::from_utf8\<close>: the text, or the index of the first bad sequence and the number of its bytes that
  cannot be continued (none when the text ends inside it).
\<close>

definition is_cont :: "u8 \<Rightarrow> bool" where
  "is_cont b \<longleftrightarrow> 0x80 \<le> b \<and> b \<le> 0xBF"

definition utf8_second :: "u8 \<Rightarrow> u8 \<Rightarrow> bool" where
  "utf8_second a b =
     (if a = 0xE0 then 0xA0 \<le> b \<and> b \<le> 0xBF
      else if a = 0xED then 0x80 \<le> b \<and> b \<le> 0x9F
      else if a = 0xF0 then 0x90 \<le> b \<and> b \<le> 0xBF
      else if a = 0xF4 then 0x80 \<le> b \<and> b \<le> 0x8F
      else is_cont b)"

definition utf8_width :: "u8 \<Rightarrow> nat" where
  "utf8_width a =
     (if a < 0x80 then 1 else if 0xC2 \<le> a \<and> a \<le> 0xDF then 2 else if 0xE0 \<le> a \<and> a \<le> 0xEF then 3
      else if 0xF0 \<le> a \<and> a \<le> 0xF4 then 4 else 0)"

fun utf8_tail :: "nat \<Rightarrow> nat \<Rightarrow> bytes \<Rightarrow> nat option option" where
  "utf8_tail n 0 bs = None"
| "utf8_tail n (Suc k) [] = Some None"
| "utf8_tail n (Suc k) (b # bs) = (if is_cont b then utf8_tail (Suc n) k bs else Some (Some n))"

definition utf8_seq :: "u8 \<Rightarrow> bytes \<Rightarrow> nat option option" where
  "utf8_seq a bs =
     (if utf8_width a = 0 then Some (Some 1)
      else if utf8_width a = 1 then None
      else case bs of
             [] \<Rightarrow> Some None
           | b # bs \<Rightarrow> if utf8_second a b then utf8_tail 2 (utf8_width a - 2) bs else Some (Some 1))"

function utf8_check :: "nat \<Rightarrow> bytes \<Rightarrow> (nat \<times> nat option) option" where
  "utf8_check i [] = None"
| "utf8_check i (a # bs) =
     (case utf8_seq a bs of
        Some e \<Rightarrow> Some (i, e)
      | None \<Rightarrow> utf8_check (i + utf8_width a) (drop (utf8_width a - 1) bs))"
  by pat_completeness auto
termination by (relation "measure (\<lambda>(i, bs). length bs)") auto

definition utf8_error :: "nat \<times> nat option \<Rightarrow> string" where
  "utf8_error e =
     (case e of
        (i, Some n) \<Rightarrow> ''invalid utf-8 sequence of '' @ show_dec n @ '' bytes from index '' @ show_dec i
      | (i, None) \<Rightarrow> ''incomplete utf-8 byte sequence from index '' @ show_dec i)"

definition text_of :: "bytes \<Rightarrow> string" where
  "text_of bs = map (\<lambda>b. char_of (unat b)) bs"

definition read_vin :: "iso_config \<Rightarrow> link \<Rightarrow> (can_error, string) result \<times> link" where
  "read_vin cfg l =
     (case obd_request cfg [MODE_VEHICLE_INFO, PID_VIN] l of
        (Err e, l) \<Rightarrow> (Err e, l)
      | (Ok resp, l) \<Rightarrow>
          if length resp < 4 \<or> resp ! 0 \<noteq> MODE_VEHICLE_INFO + 0x40 \<or> resp ! 1 \<noteq> PID_VIN
          then (Err (Other (''obdii: unexpected VIN response: '' @ debug_hex_bytes resp)), l)
          else (let vin_bytes = takeWhile (\<lambda>b. b \<noteq> 0) (drop 3 resp)
                in case utf8_check 0 vin_bytes of
                     None \<Rightarrow> (Ok (text_of vin_bytes), l)
                   | Some e \<Rightarrow> (Err (Other (''obdii: VIN not valid UTF-8: '' @ utf8_error e)), l)))"

definition supported_pids :: "iso_config \<Rightarrow> u8 \<Rightarrow> link \<Rightarrow> (can_error, u32) result \<times> link" where
  "supported_pids cfg grp l =
     (case obd_request cfg [MODE_CURRENT_DATA, grp] l of
        (Err e, l) \<Rightarrow> (Err e, l)
      | (Ok resp, l) \<Rightarrow>
          if length resp < 6 \<or> resp ! 0 \<noteq> MODE_CURRENT_DATA + 0x40 \<or> resp ! 1 \<noteq> grp
          then (Err (Other (''obdii: unexpected supported PIDs response: '' @ debug_hex_bytes resp)), l)
          else (Ok (push_bit 24 (ucast (resp ! 2)) OR push_bit 16 (ucast (resp ! 3)) OR
                    push_bit 8 (ucast (resp ! 4)) OR ucast (resp ! 5)), l))"

section \<open>Requests\<close>

lemma obd_request_Ok:
  "obd_request cfg req l = (Ok resp, l') \<longleftrightarrow>
     (\<exists>l1. iso_send cfg req l = (Ok (), l1) \<and> iso_recv cfg l1 = (Ok resp, l') \<and> resp \<noteq> [] \<and> resp ! 0 \<noteq> 0x7F)"
  by (auto simp: obd_request_def Let_def split: prod.splits sum.splits if_splits)

text \<open>A request that is answered over ISO-TP, in one frame or in many.\<close>

lemma obd_request_served:
  assumes "no_fault l" "lk_inbox l = evs @ rest" "messages_arrive (effective_timeout cfg) [resp] evs"
    and "req \<noteq> []" "length req \<le> 7" "resp \<noteq> []" "length resp \<le> 4095" "resp ! 0 \<noteq> 0x7F"
  shows "\<exists>l'. obd_request cfg req l = (Ok resp, l') \<and> lk_inbox l' = rest"
proof -
  obtain l1 where s: "iso_send cfg req l = (Ok (), l1)" "no_fault l1" "lk_inbox l1 = lk_inbox l"
    by (rule iso_send_single_ok [OF assms(1,4,5), of cfg])
  with messages_answers [OF assms(3), of l1 rest] assms(2,6,7) obtain l2 where
    l2: "answers cfg [resp] l1 l2" "lk_inbox l2 = rest" by auto
  from l2(1) have "iso_recv cfg l1 = (Ok resp, l2)" by (simp add: prod_eq_iff)
  with s(1) l2(2) assms(6,8) show ?thesis unfolding obd_request_Ok by blast
qed

lemma read_pid_Ok:
  "read_pid fl cfg pid l = (Ok v, l') \<longleftrightarrow>
     (\<exists>data. obd_request cfg [0x01, pid] l = (Ok (0x41 # pid # data), l') \<and> data \<noteq> [] \<and> v = decode_mode01 fl pid data)"
proof
  assume "read_pid fl cfg pid l = (Ok v, l')"
  from checked_answer [OF this [unfolded read_pid_def]] obtain resp where
    u: "obd_request cfg [0x01, pid] l = (Ok resp, l')" and v: "v = decode_mode01 fl pid (drop 2 resp)"
    and "\<not> (length resp < 3 \<or> resp ! 0 \<noteq> MODE_CURRENT_DATA + 0x40 \<or> resp ! 1 \<noteq> pid)"
    unfolding MODE_CURRENT_DATA_def by blast
  then have r: "3 \<le> length resp" "resp ! 0 = 0x41" "resp ! 1 = pid" by (simp_all add: obd_defs)
  then have "resp = 0x41 # pid # drop 2 resp" using two_bytes [of resp] by simp
  with u v r(1) show "\<exists>data. obd_request cfg [0x01, pid] l = (Ok (0x41 # pid # data), l') \<and> data \<noteq> [] \<and>
      v = decode_mode01 fl pid data" by (intro exI [of _ "drop 2 resp"]) auto
next
  assume "\<exists>data. obd_request cfg [0x01, pid] l = (Ok (0x41 # pid # data), l') \<and> data \<noteq> [] \<and> v = decode_mode01 fl pid data"
  then obtain data where "obd_request cfg [0x01, pid] l = (Ok (0x41 # pid # data), l')" "data \<noteq> []"
    "v = decode_mode01 fl pid data" by blast
  then show "read_pid fl cfg pid l = (Ok v, l')" by (cases data) (simp_all add: read_pid_def obd_defs)
qed
lemma utf8_check_ascii: "list_all (\<lambda>b. b < 0x80) bs \<Longrightarrow> utf8_check i bs = None"
  by (induction bs arbitrary: i) (simp_all add: utf8_seq_def utf8_width_def)

lemma takeWhile_zeros:
  "list_all (\<lambda>b. 0 < b) xs \<Longrightarrow> list_all (\<lambda>b. b = 0) ys \<Longrightarrow> takeWhile (\<lambda>b. b \<noteq> (0 :: u8)) (xs @ ys) = xs"
  by (induction xs) (cases ys; auto)+

section \<open>Properties\<close>

text \<open>
  C38: The vehicle identification number arrives end to end. When the ECU's frames (one or, as the usual
  17 characters need, several) carry the answer to mode 9, PID 2 with a number of 7-bit characters and
  any zero padding, \<open>read_vin\<close> returns the characters without the padding and leaves what else is queued.
\<close>

theorem obd_read_vin:
  assumes "no_fault l" "lk_inbox l = evs @ rest"
    and "messages_arrive (effective_timeout cfg) [[0x49, 0x02, count] @ vin @ pad] evs"
    and "vin \<noteq> []" "list_all (\<lambda>b. 0 < b \<and> b < 0x80) vin" "list_all (\<lambda>b. b = 0) pad" "length (vin @ pad) \<le> 4092"
  shows "fst (read_vin cfg l) = Ok (text_of vin) \<and> lk_inbox (snd (read_vin cfg l)) = rest"
proof -
  obtain l' where r: "obd_request cfg [0x09, 0x02] l = (Ok ([0x49, 0x02, count] @ vin @ pad), l')" "lk_inbox l' = rest"
    using obd_request_served [OF assms(1-3), of "[0x09, 0x02]"] assms(7) by auto
  have "list_all (\<lambda>b. 0 < b) vin" "list_all (\<lambda>b. b < 0x80) vin" using assms(5) by (simp_all add: list_all_iff)
  with takeWhile_zeros [OF _ assms(6), of vin] utf8_check_ascii [of vin 0] r assms(4)
  have "read_vin cfg l = (Ok (text_of vin), l')"
    by (cases vin) (simp_all add: read_vin_def obd_defs Let_def)
  with r(2) show ?thesis by simp
qed

lemma text_of_bytes: "text_of (map (\<lambda>c. of_nat (of_char c)) s) = s"
proof (induction s)
  case (Cons c s)
  have "(of_char c :: nat) < 256" using nat_of_char_less_256 by simp
  then have "unat (of_nat (of_char c) :: u8) = of_char c" by (simp add: unat_of_nat)
  then have "char_of (unat (of_nat (of_char c) :: u8)) = c" by (simp only: char_of_char)
  with Cons show ?case by (simp add: text_of_def)
qed (simp add: text_of_def)

definition example_vin :: bytes where
  "example_vin = map (\<lambda>c. of_nat (of_char c)) ''WVWZZZ1JZXW000001''"

theorem obd_read_vin_witness:
  "fst (read_vin iso_default_config
     (frames_link (segments ([0x49, 0x02, 0x01] @ example_vin @ [0])))) = Ok ''WVWZZZ1JZXW000001''"
proof -
  let ?p = "[0x49, 0x02, 0x01] @ example_vin @ [0]"
  have a: "messages_arrive (effective_timeout iso_default_config) [?p] (lk_inbox (frames_link (segments ?p)))"
    by (simp add: frames_link_def arrives_def list_all2_conv_all_nth iso_default_config_def effective_timeout_def millis_def)
  have v: "example_vin \<noteq> []" "list_all (\<lambda>b. 0 < b \<and> b < 0x80) example_vin" "length (example_vin @ [0]) \<le> 4092"
    by (simp_all add: example_vin_def)
  have "text_of example_vin = ''WVWZZZ1JZXW000001''" unfolding example_vin_def by (rule text_of_bytes)
  with obd_read_vin [where rest = "[]", OF _ _ a] v show ?thesis by (simp add: no_fault_def frames_link_def)
qed

text \<open>
  A reading is the ECU's own answer to that parameter: \<open>read_pid\<close> succeeds exactly when the answer starts
  with mode and parameter of the request and carries at least one data byte, and the value is the
  decoding of these bytes.
\<close>

theorem obd_read_pid:
  "fst (read_pid fl cfg pid l) = Ok v \<longleftrightarrow>
     (\<exists>data. fst (obd_request cfg [0x01, pid] l) = Ok (0x41 # pid # data) \<and> data \<noteq> [] \<and> v = decode_mode01 fl pid data)"
  using read_pid_Ok [of fl cfg pid l v "snd (obd_request cfg [0x01, pid] l)"]
    read_pid_Ok [of fl cfg pid l v "snd (read_pid fl cfg pid l)"]
  by (auto simp: prod_eq_iff)

end
