(* ===== verification/Can_Cli.thy ===== *)
theory Can_Cli
  imports Can_Virtual Can_Socketcan Can_Adapt Can_Recorder Can_Json
begin

text \<open>
  The command line tool (\<^verbatim>\<open>src/bin/main.rs\<close>): the commands, the bus that \<^verbatim>\<open>--iface\<close> selects, and the exit code. The
  arguments come parsed (crate clap). The crates \<^verbatim>\<open>serde_json\<close> and \<^verbatim>\<open>hex\<close> are the parameter \<open>libs\<close>, the
  operating system is the parameter \<open>sys\<close> of the SocketCAN bus. A command returns its result with what it
  printed; \<open>run\<close> is pending when \<^verbatim>\<open>subscribe\<close> waits for a frame.
\<close>

section \<open>The code\<close>

record cli_libs = hex_codec +
  hex_encode :: "bytes \<Rightarrow> string"
  cl_json :: json_libs

datatype cli_format = Text_format | Json_format

datatype cli_output = Printed string | Noted string

text \<open>The errors that \<^verbatim>\<open>?\<close> boxes: texts, errors of the crate, and those of the standard library and other crates.\<close>

datatype cli_error =
    Told string
  | Failed can_error
  | Bad_number string
  | Bad_hex string
  | Bad_json string
  | Unreadable string

definition VIRTUAL_IFACE :: string where
  "VIRTUAL_IFACE = ''virtual''"

definition to_ascii_lowercase :: "char \<Rightarrow> char" where
  "to_ascii_lowercase c = (let n = of_char c :: nat in if 65 \<le> n \<and> n \<le> 90 then char_of (n + 32) else c)"

definition eq_ignore_ascii_case :: "string \<Rightarrow> string \<Rightarrow> bool" where
  "eq_ignore_ascii_case a b \<longleftrightarrow> map to_ascii_lowercase a = map to_ascii_lowercase b"

subsection \<open>Bus selection\<close>

text \<open>The trait object \<^verbatim>\<open>Arc<dyn Bus>\<close> and its methods.\<close>

datatype 'k dyn_bus = Virtual_dyn virtual_bus | Socketcan_dyn "'k socketcan_bus"

fun dyn_send :: "'k libc \<Rightarrow> clock \<Rightarrow> frame \<Rightarrow> 'k dyn_bus \<Rightarrow> (can_error, unit) result \<times> 'k dyn_bus" where
  "dyn_send sys clk f (Virtual_dyn b) = (let (r, b) = vb_send clk f b in (r, Virtual_dyn b))"
| "dyn_send sys clk f (Socketcan_dyn b) = (let (r, b) = sc_send sys f b in (r, Socketcan_dyn b))"

fun dyn_subscribe :: "nat \<Rightarrow> can_filter list \<Rightarrow> subscriber_options \<Rightarrow> 'k dyn_bus \<Rightarrow> (can_error, nat) result \<times> 'k dyn_bus" where
  "dyn_subscribe now filters opts (Virtual_dyn b) = (let (r, b) = vb_subscribe now filters opts b in (r, Virtual_dyn b))"
| "dyn_subscribe now filters opts (Socketcan_dyn b) = (let (r, b) = sc_subscribe now filters opts b in (r, Socketcan_dyn b))"

fun dyn_close :: "'k dyn_bus \<Rightarrow> (can_error, unit) result \<times> 'k dyn_bus" where
  "dyn_close (Virtual_dyn b) = (let (r, b) = vb_close b in (r, Virtual_dyn b))"
| "dyn_close (Socketcan_dyn b) = (let (r, b) = sc_close b in (r, Socketcan_dyn b))"

definition open_bus :: "'k libc \<Rightarrow> string \<Rightarrow> 'k \<Rightarrow> (cli_error, 'k dyn_bus) result \<times> 'k" where
  "open_bus sys iface k =
     (if eq_ignore_ascii_case iface VIRTUAL_IFACE then (Ok (Virtual_dyn vb_new), k)
      else case sc_new sys (map (\<lambda>c. of_nat (of_char c)) iface) k of
             (Err e, k) \<Rightarrow> (Err (Failed e), k)
           | (Ok b, k) \<Rightarrow> (Ok (Socketcan_dyn b), k))"

subsection \<open>send\<close>

record send_args =
  sa_iface :: string
  sa_id :: "string option"
  sa_data :: "string option"
  sa_fd :: bool
  sa_ext :: bool
  sa_xl :: bool
  sa_sdt :: u8
  sa_vcid :: u8
  sa_af :: u32
  sa_sec :: bool
  sa_format :: cli_format

text \<open>The number of \<^verbatim>\<open>--id\<close>: hexadecimal after \<^verbatim>\<open>0x\<close>, else decimal.\<close>

definition parse_id :: "string \<Rightarrow> (cli_error, u32) result" where
  "parse_id s =
     (if starts_with s ''0x'' \<or> starts_with s ''0X'' then ok_or (Bad_number s) (parse_hex_u32 (drop 2 s))
      else ok_or (Bad_number s) (parse_u32 s))"

definition sent_line :: "cli_libs \<Rightarrow> string \<Rightarrow> frame \<Rightarrow> string" where
  "sent_line libs head f =
     head @ ''id=0x'' @ show_hex (unat (f_id f)) @ '' ext='' @ show_bool (f_ext f) @ '' fd='' @ show_bool (f_fd f) @
     '' xl='' @ show_bool (f_xl f) @ '' data='' @ hex_encode libs (f_data f)"

text \<open>The frame the arguments describe.\<close>

definition args_frame :: "cli_libs \<Rightarrow> send_args \<Rightarrow> (cli_error, frame) result" where
  "args_frame libs args =
     (case sa_id args of
        None \<Rightarrow> Err (Told ''rust-can: --id is required in text mode'')
      | Some id_str \<Rightarrow>
          (case sa_data args of
             None \<Rightarrow> Err (Told ''rust-can: --data is required in text mode'')
           | Some data_hex \<Rightarrow>
               (case parse_id id_str of
                  Err e \<Rightarrow> Err e
                | Ok i \<Rightarrow>
                    (case decode_hex libs (filter (\<lambda>c. c \<noteq> CHR '' '') data_hex) of
                       None \<Rightarrow> Err (Bad_hex data_hex)
                     | Some data \<Rightarrow>
                         Ok (default_frame\<lparr>f_id := i, f_ext := sa_ext args, f_fd := sa_fd args, f_xl := sa_xl args,
                               f_sdt := sa_sdt args, f_vcid := sa_vcid args, f_af := sa_af args, f_sec := sa_sec args,
                               f_data := data\<rparr>)))))"

text \<open>\<^verbatim>\<open>cmd_send_json\<close>: the loop over the lines of standard input (or the text of a read error).\<close>

fun send_json_loop ::
    "cli_libs \<Rightarrow> (frame \<Rightarrow> 'b \<Rightarrow> (can_error, unit) result \<times> 'b) \<Rightarrow> (int \<Rightarrow> string) \<Rightarrow> (string, string) result list \<Rightarrow>
     nat \<Rightarrow> nat \<Rightarrow> 'b \<Rightarrow> (cli_error, nat \<times> nat) result \<times> cli_output list \<times> 'b" where
  "send_json_loop libs send strerror [] sent errors b = (Ok (sent, errors), [], b)"
| "send_json_loop libs send strerror (l # ls) sent errors b =
     (case l of
        Err e \<Rightarrow> (Err (Unreadable e), [], b)
      | Ok raw \<Rightarrow>
          (let line = trim raw;
               go_on = (\<lambda>what e. let (r, out, b) = send_json_loop libs send strerror ls sent (errors + 1) b
                                 in (r, Noted (''rust-can: send --format json: '' @ what @ '': '' @ e) # out, b))
           in if line = [] then send_json_loop libs send strerror ls sent errors b
              else case message_of_text (cl_json libs) line of
                Err e \<Rightarrow> go_on ''parse error'' e
              | Ok msg \<Rightarrow>
                  (case from_message msg of
                     Err e \<Rightarrow> go_on ''conversion error'' (error_display strerror e)
                   | Ok frame \<Rightarrow>
                       (case validate_frame frame of
                          Err e \<Rightarrow> go_on ''invalid frame'' (error_display strerror e)
                        | Ok _ \<Rightarrow>
                            (case send frame b of
                               (Err e, b) \<Rightarrow> (Err (Failed e), [], b)
                             | (Ok _, b) \<Rightarrow> send_json_loop libs send strerror ls (sent + 1) errors b)))))"

definition cmd_send_json ::
    "cli_libs \<Rightarrow> (frame \<Rightarrow> 'b \<Rightarrow> (can_error, unit) result \<times> 'b) \<Rightarrow> (int \<Rightarrow> string) \<Rightarrow> (string, string) result list \<Rightarrow>
     'b \<Rightarrow> (cli_error, int) result \<times> cli_output list \<times> 'b" where
  "cmd_send_json libs send strerror stdin b =
     (case send_json_loop libs send strerror stdin 0 0 b of
        (Err e, out, b) \<Rightarrow> (Err e, out, b)
      | (Ok (sent, errors), out, b) \<Rightarrow>
          (Ok 0, out @ [Noted (''rust-can: send --format json: sent='' @ show_dec sent @ '' errors='' @ show_dec errors)], b))"

text \<open>The bus of a command is dropped at its end; it is returned here, with the state of the system, to be looked at.\<close>

definition cmd_send ::
    "cli_libs \<Rightarrow> 'k libc \<Rightarrow> clock \<Rightarrow> (int \<Rightarrow> string) \<Rightarrow> (string, string) result list \<Rightarrow> send_args \<Rightarrow> 'k \<Rightarrow>
     (cli_error, int) result \<times> cli_output list \<times> 'k dyn_bus option \<times> 'k" where
  "cmd_send libs sys clk strerror stdin args k =
     (case open_bus sys (sa_iface args) k of
        (Err e, k) \<Rightarrow> (Err e, [], None, k)
      | (Ok bus, k) \<Rightarrow>
          (case sa_format args of
             Json_format \<Rightarrow>
               (let (r, out, bus) = cmd_send_json libs (dyn_send sys clk) strerror stdin bus in (r, out, Some bus, k))
           | Text_format \<Rightarrow>
               (case args_frame libs args of
                  Err e \<Rightarrow> (Err e, [], Some bus, k)
                | Ok frame \<Rightarrow>
                    (case validate_frame frame of
                       Err e \<Rightarrow> (Err (Failed e), [], Some bus, k)
                     | Ok _ \<Rightarrow>
                         (case dyn_send sys clk frame bus of
                            (Err e, bus) \<Rightarrow> (Err (Failed e), [], Some bus, k)
                          | (Ok _, bus) \<Rightarrow> (Ok 0, [Printed (sent_line libs ''sent: '' frame)], Some bus, k))))))"

subsection \<open>subscribe\<close>

text \<open>
  The loop of \<^verbatim>\<open>cmd_subscribe\<close> over the receiver's queue, up to the point where it waits for a frame;
  \<open>now\<close> gives the time of each message by its number.
\<close>

definition subscribe_print :: "cli_libs \<Rightarrow> cli_format \<Rightarrow> nat \<Rightarrow> int \<Rightarrow> frame \<Rightarrow> (cli_error, string) result" where
  "subscribe_print libs format received now frame =
     (let msg = (to_message now frame)\<lparr>m_seq := of_nat received\<rparr>
      in case format of
           Json_format \<Rightarrow> (case json_compact (cl_json libs) (message_to_json (cl_json libs) msg) of Err e \<Rightarrow> Err (Bad_json e) | Ok s \<Rightarrow> Ok s)
         | Text_format \<Rightarrow> Ok (sent_line libs (''['' @ show_dec received @ ''] '') frame))"

function subscribe_loop ::
    "cli_libs \<Rightarrow> cli_format \<Rightarrow> nat \<Rightarrow> (nat \<Rightarrow> int) \<Rightarrow> nat \<Rightarrow> sub_inner \<Rightarrow>
     (cli_error, unit) result poll \<times> cli_output list \<times> sub_inner" where
  "subscribe_loop libs format count now received s =
     (if count > 0 \<and> received \<ge> count then (Ready (Ok ()), [], s)
      else case recv_poll s of
        (Pending, s) \<Rightarrow> (Pending, [], s)
      | (Ready None, s) \<Rightarrow> (Ready (Ok ()), [], s)
      | (Ready (Some frame), s) \<Rightarrow>
          (let received = received + 1
           in case subscribe_print libs format received (now received) frame of
                Err e \<Rightarrow> (Ready (Err e), [], s)
              | Ok line \<Rightarrow>
                  (let (r, out, s) = subscribe_loop libs format count now received s in (r, Printed line # out, s))))"
  by pat_completeness auto
termination
  by (relation "measure (\<lambda>(libs, format, count, now, received, s). length (si_queue s))")
    (auto simp: recv_poll_eq split: list.splits if_splits)

declare subscribe_loop.simps [simp del]

text \<open>What comes before the loop (up to the handle of the receiver) and after it.\<close>

definition cmd_subscribe_start ::
    "'k libc \<Rightarrow> nat \<Rightarrow> string \<Rightarrow> nat \<Rightarrow> 'k \<Rightarrow> (cli_error, nat \<times> 'k dyn_bus) result \<times> cli_output list \<times> 'k" where
  "cmd_subscribe_start sys now iface count k =
     (case open_bus sys iface k of
        (Err e, k) \<Rightarrow> (Err e, [], k)
      | (Ok bus, k) \<Rightarrow>
          (case dyn_subscribe now [] default_options bus of
             (Err e, bus) \<Rightarrow> (Err (Failed e), [], k)
           | (Ok rx, bus) \<Rightarrow>
               (Ok (rx, bus),
                [Noted (''rust-can: subscribing on '' @ iface @ '' ('' @
                        (if count = 0 then ''unlimited'' else show_dec count @ '' frames'') @ '')'')], k)))"

definition cmd_subscribe_end :: "'k dyn_bus \<Rightarrow> (cli_error, int) result \<times> 'k dyn_bus" where
  "cmd_subscribe_end bus =
     (case dyn_close bus of
        (Err e, bus) \<Rightarrow> (Err (Failed e), bus)
      | (Ok _, bus) \<Rightarrow> (Ok 0, bus))"

subsection \<open>convert\<close>

definition cmd_convert :: "cli_libs \<Rightarrow> int \<Rightarrow> string \<Rightarrow> string \<Rightarrow> (cli_error, int) result \<times> cli_output list" where
  "cmd_convert libs now protocol stdin =
     (if \<not> eq_ignore_ascii_case protocol ''CAN'' then
        (Ok 2, [Noted (''rust-can: convert: unsupported protocol '' @ quoted protocol @ ''; this tool implements CAN'')])
      else case frame_of_text (cl_json libs) stdin of
        Err _ \<Rightarrow> (Ok 1, [Noted ''INVALID_ARGUMENT''])
      | Ok frame \<Rightarrow>
          (case validate_frame frame of
             Err _ \<Rightarrow> (Ok 1, [Noted ''INVALID_ARGUMENT''])
           | Ok _ \<Rightarrow>
               (let msg = (to_message now frame)\<lparr>m_timestamp := 0\<rparr>
                in case json_pretty (cl_json libs) (message_to_json (cl_json libs) msg) of
                     Err e \<Rightarrow> (Err (Bad_json e), [])
                   | Ok s \<Rightarrow> (Ok 0, [Printed s]))))"

subsection \<open>version, capabilities and status\<close>

text \<open>\<^verbatim>\<open>json!\<close> of an object: the map of a value is ordered by its keys.\<close>

definition json_doc :: "(string \<times> json) list \<Rightarrow> json" where
  "json_doc kvs = Json_object (sort_key fst kvs)"

text \<open>\<^verbatim>\<open>doc[k]\<close>, and \<^verbatim>\<open>doc[k].as_str().unwrap_or("")\<close>.\<close>

definition json_index :: "json \<Rightarrow> string \<Rightarrow> json" where
  "json_index j k =
     (case j of Json_object kvs \<Rightarrow> (case map_of kvs k of None \<Rightarrow> Json_null | Some v \<Rightarrow> v) | _ \<Rightarrow> Json_null)"

definition doc_str :: "json \<Rightarrow> string \<Rightarrow> string" where
  "doc_str j k = (case json_index j k of Json_string s \<Rightarrow> s | _ \<Rightarrow> [])"

definition CARGO_PKG_VERSION :: string where
  "CARGO_PKG_VERSION = ''0.5.0''"

definition SPEC_VERSION :: string where
  "SPEC_VERSION = ''2.0''"

definition RELAY_SPEC_VERSION :: string where
  "RELAY_SPEC_VERSION = ''2.0''"

abbreviation json_strings :: "string list \<Rightarrow> json" where
  "json_strings ss \<equiv> Json_array (map Json_string ss)"

definition print_doc :: "cli_libs \<Rightarrow> json \<Rightarrow> (cli_error, int) result \<times> cli_output list" where
  "print_doc libs doc =
     (case json_pretty (cl_json libs) doc of Err e \<Rightarrow> (Err (Bad_json e), []) | Ok s \<Rightarrow> (Ok 0, [Printed s]))"

definition version_doc :: json where
  "version_doc = json_doc
     [(''tool'', Json_string ''rust-can''), (''protocol'', Json_string ''CAN''),
      (''protocol_int'', Json_number (protocol_to_i32 Can)), (''version'', Json_string CARGO_PKG_VERSION),
      (''spec_version'', Json_string SPEC_VERSION), (''language'', Json_string ''rust''),
      (''runtime'', Json_string ''rustc 1.75+'')]"

definition cmd_version :: "cli_libs \<Rightarrow> cli_format \<Rightarrow> (cli_error, int) result \<times> cli_output list" where
  "cmd_version libs format =
     (let doc = version_doc
      in case format of
           Json_format \<Rightarrow> print_doc libs doc
         | Text_format \<Rightarrow>
             (Ok 0, [Printed (''tool:         '' @ doc_str doc ''tool''),
                     Printed (''protocol:     '' @ doc_str doc ''protocol''),
                     Printed (''version:      '' @ doc_str doc ''version''),
                     Printed (''spec_version: '' @ doc_str doc ''spec_version''),
                     Printed (''language:     '' @ doc_str doc ''language''),
                     Printed (''runtime:      '' @ doc_str doc ''runtime'')]))"

text \<open>The lists are those of a Linux build.\<close>

definition capabilities_doc :: json where
  "capabilities_doc = json_doc
     [(''kind'', Json_string ''capabilities''), (''tool'', Json_string ''rust-can''), (''protocol'', Json_string ''CAN''),
      (''protocol_int'', Json_number (protocol_to_i32 Can)), (''version'', Json_string CARGO_PKG_VERSION),
      (''spec_version'', Json_string SPEC_VERSION),
      (''commands'', json_strings [''version'', ''capabilities'', ''status'', ''send'', ''subscribe'', ''convert'']),
      (''transports'', json_strings [''virtual'', ''socketcan'']),
      (''features'', json_strings [''fd'', ''xl'', ''isotp'', ''j1939'', ''safety'', ''dbc'', ''recorder'', ''obdii'', ''uds'']),
      (''interfaces'', json_strings [''Bus'']),
      (''optional_interfaces'', json_strings [''LoaningBus'', ''HealthProvider'', ''MetricsProvider'', ''Drainer'']),
      (''adapt'', Json_bool True)]"

definition cmd_capabilities :: "cli_libs \<Rightarrow> (cli_error, int) result \<times> cli_output list" where
  "cmd_capabilities libs = print_doc libs capabilities_doc"

definition status_doc :: json where
  "status_doc = json_doc
     [(''protocol'', Json_string ''CAN''), (''tool'', Json_string ''rust-can''), (''version'', Json_string CARGO_PKG_VERSION),
      (''healthy'', Json_bool True), (''connected'', Json_bool False), (''endpoint'', Json_string []),
      (''details'', Json_object [])]"

definition cmd_status :: "cli_libs \<Rightarrow> cli_format \<Rightarrow> (cli_error, int) result \<times> cli_output list" where
  "cmd_status libs format =
     (let doc = status_doc
      in case format of
           Json_format \<Rightarrow> print_doc libs doc
         | Text_format \<Rightarrow>
             (Ok 0, [Printed (''tool:      '' @ doc_str doc ''tool''),
                     Printed (''protocol:  '' @ doc_str doc ''protocol''),
                     Printed (''version:   '' @ doc_str doc ''version''),
                     Printed (''healthy:   '' @ json_display (cl_json libs) (json_index doc ''healthy'')),
                     Printed (''connected: '' @ json_display (cl_json libs) (json_index doc ''connected''))]))"

subsection \<open>The program\<close>

datatype cli_command =
    Cmd_version cli_format
  | Cmd_capabilities
  | Cmd_status cli_format
  | Cmd_send send_args
  | Cmd_subscribe string nat cli_format
  | Cmd_convert string cli_format

text \<open>
  What surrounds the process: the libraries, the system calls, the texts of system errors, standard input (its lines
  for \<^verbatim>\<open>send\<close>, the whole for \<^verbatim>\<open>convert\<close>), the clocks, and what the reader task has done to the bus by the
  time \<^verbatim>\<open>subscribe\<close> looks at its queue.
\<close>

record 'k cli_world =
  cw_libs :: cli_libs
  cw_sys :: "'k libc"
  cw_strerror :: "int \<Rightarrow> string"
  cw_lines :: "(string, string) result list"
  cw_stdin :: string
  cw_clock :: clock
  cw_start :: nat
  cw_times :: "nat \<Rightarrow> int"
  cw_arrivals :: "'k dyn_bus \<Rightarrow> 'k dyn_bus"

fun dyn_store :: "'k dyn_bus \<Rightarrow> sub_inner list" where
  "dyn_store (Virtual_dyn b) = vb_store b"
| "dyn_store (Socketcan_dyn b) = sc_subscribers b"

definition cmd_subscribe ::
    "'k cli_world \<Rightarrow> string \<Rightarrow> nat \<Rightarrow> cli_format \<Rightarrow> 'k \<Rightarrow> (cli_error, int) result poll \<times> cli_output list \<times> 'k" where
  "cmd_subscribe w iface count format k =
     (case cmd_subscribe_start (cw_sys w) (cw_start w) iface count k of
        (Err e, out, k) \<Rightarrow> (Ready (Err e), out, k)
      | (Ok (rx, bus), out, k) \<Rightarrow>
          (let bus = cw_arrivals w bus
           in case subscribe_loop (cw_libs w) format count (cw_times w) 0 (dyn_store bus ! rx) of
                (Pending, out', _) \<Rightarrow> (Pending, out @ out', k)
              | (Ready (Err e), out', _) \<Rightarrow> (Ready (Err e), out @ out', k)
              | (Ready (Ok _), out', _) \<Rightarrow> (Ready (fst (cmd_subscribe_end bus)), out @ out', k)))"

definition run_command :: "'k cli_world \<Rightarrow> cli_command \<Rightarrow> 'k \<Rightarrow> (cli_error, int) result poll \<times> cli_output list \<times> 'k" where
  "run_command w cmd k =
     (let now = (\<lambda>(r, out). (Ready r, out, k))
      in case cmd of
           Cmd_version format \<Rightarrow> now (cmd_version (cw_libs w) format)
         | Cmd_capabilities \<Rightarrow> now (cmd_capabilities (cw_libs w))
         | Cmd_status format \<Rightarrow> now (cmd_status (cw_libs w) format)
         | Cmd_send args \<Rightarrow>
             (let (r, out, _, k) = cmd_send (cw_libs w) (cw_sys w) (cw_clock w) (cw_strerror w) (cw_lines w) args k
              in (Ready r, out, k))
         | Cmd_subscribe iface count format \<Rightarrow> cmd_subscribe w iface count format k
         | Cmd_convert protocol format \<Rightarrow> now (cmd_convert (cw_libs w) (cw_times w 0) protocol (cw_stdin w)))"

text \<open>\<^verbatim>\<open>main\<close>: an error is printed with the text \<open>show_error\<close> of its \<^verbatim>\<open>Display\<close>; the exit code.\<close>

definition cli_main ::
    "(cli_error \<Rightarrow> string) \<Rightarrow> 'k cli_world \<Rightarrow> cli_command \<Rightarrow> 'k \<Rightarrow> int poll \<times> cli_output list \<times> 'k" where
  "cli_main show_error w cmd k =
     (case run_command w cmd k of
        (Pending, out, k) \<Rightarrow> (Pending, out, k)
      | (Ready (Ok code), out, k) \<Rightarrow> (Ready code, out, k)
      | (Ready (Err e), out, k) \<Rightarrow> (Ready 1, out @ [Noted (''rust-can: error: '' @ show_error e)], k))"

section \<open>The bus behind the trait object\<close>

fun dyn_closed :: "'k dyn_bus \<Rightarrow> bool" where
  "dyn_closed (Virtual_dyn b) = vb_closed b"
| "dyn_closed (Socketcan_dyn b) = sc_closed b"

fun dyn_inv :: "'k dyn_bus \<Rightarrow> bool" where
  "dyn_inv (Virtual_dyn b) = vb_inv b"
| "dyn_inv (Socketcan_dyn b) = sc_inv b"

text \<open>Whichever transport is behind it, the trait object keeps the contract of a bus.\<close>

interpretation dynbus: bus_lifecycle "dyn_send sys" dyn_subscribe dyn_close dyn_closed dyn_store dyn_inv
  for sys :: "'k libc"
proof unfold_locales
  fix b :: "'k dyn_bus" and clk f
  show "dyn_closed (snd (dyn_send sys clk f b)) = dyn_closed b \<and>
      length (dyn_store (snd (dyn_send sys clk f b))) = length (dyn_store b)"
    by (cases b) (simp_all add: case_prod_beta Let_def vbus.send_keeps scbus.send_keeps)
next
  fix b :: "'k dyn_bus" and now fs opts
  assume "\<not> dyn_closed b"
  then show "fst (dyn_subscribe now fs opts b) = Ok (length (dyn_store b)) \<and>
      \<not> dyn_closed (snd (dyn_subscribe now fs opts b)) \<and>
      length (dyn_store (snd (dyn_subscribe now fs opts b))) = Suc (length (dyn_store b))"
    by (cases b) (simp_all add: case_prod_beta Let_def vbus.subscribe_open scbus.subscribe_open)
next
  fix b :: "'k dyn_bus"
  show "fst (dyn_close b) = Ok () \<and> dyn_closed (snd (dyn_close b)) \<and>
      length (dyn_store (snd (dyn_close b))) = length (dyn_store b)"
    by (cases b) (simp_all add: case_prod_beta Let_def vbus.close_ok scbus.close_ok)
next
  fix b :: "'k dyn_bus"
  assume "dyn_closed b"
  then show "dyn_close b = (Ok (), b)"
    by (cases b) (simp_all add: vbus.close_again scbus.close_again)
next
  fix b :: "'k dyn_bus" and now fs opts
  assume "dyn_closed b"
  then show "dyn_subscribe now fs opts b = (Err Closed, b)"
    by (cases b) (simp_all add: vbus.subscribe_closed scbus.subscribe_closed)
next
  fix b :: "'k dyn_bus" and clk f
  assume "dyn_closed b"
  then show "fst (dyn_send sys clk f b) = Err Closed"
    by (cases b) (simp_all add: case_prod_beta Let_def vbus.send_closed scbus.send_closed)
next
  fix b :: "'k dyn_bus" and h
  assume "dyn_inv b" "dyn_closed b" "h < length (dyn_store b)"
  then show "si_closed (dyn_store b ! h)"
    by (cases b) (simp_all add: vbus.closed_subs scbus.closed_subs)
next
  fix b :: "'k dyn_bus" and clk f now fs opts
  assume "dyn_inv b"
  then show "dyn_inv (snd (dyn_send sys clk f b))" "dyn_inv (snd (dyn_subscribe now fs opts b))" "dyn_inv (snd (dyn_close b))"
    by (cases b; simp add: case_prod_beta Let_def vbus.send_inv vbus.subscribe_inv vbus.close_inv scbus.send_inv scbus.subscribe_inv scbus.close_inv)+
qed
section \<open>From subscribe to send\<close>

text \<open>The text of a message is one line without white space around it that reads back as the message.\<close>

definition json_reads :: "cli_libs \<Rightarrow> message \<Rightarrow> bool" where
  "json_reads libs m \<longleftrightarrow>
     (case json_compact (cl_json libs) (message_to_json (cl_json libs) m) of
        Err _ \<Rightarrow> False
      | Ok s \<Rightarrow> message_of_text (cl_json libs) s = Ok m \<and> s \<noteq> [] \<and> tight s \<and> CHR 0x0A \<notin> set s)"

lemma wf_to_message: "wf_message ((to_message now f)\<lparr>m_seq := n\<rparr>)" "wf_message ((to_message now f)\<lparr>m_timestamp := t\<rparr>)"
  by (simp_all add: wf_message_def to_message_def default_version_def Let_def meta_insert_if_def)

lemma json_laws_reads:
  assumes "json_laws (cl_json libs)"
  shows "json_reads libs ((to_message now f)\<lparr>m_seq := n\<rparr>)"
  using message_text(1) [OF assms wf_to_message(1), of n now f] by (auto simp: json_reads_def)

text \<open>What a message keeps of a frame.\<close>

definition relayed_frame :: "frame \<Rightarrow> frame" where
  "relayed_frame f = (if f_xl f then f else f\<lparr>f_sdt := 0, f_vcid := 0, f_af := 0, f_sec := False\<rparr>)"

lemma wf_relayed_frame [simp]: "wf_frame (relayed_frame f) = wf_frame f"
  by (simp add: relayed_frame_def wf_frame_def wf_xl_def wf_fd_def wf_classic_def wf_id_def)

lemma from_message_relayed: "from_message (to_message now f) = Ok (relayed_frame f)"
  unfolding relayed_frame_def by (rule from_to_message)

lemma from_message_timestamp: "from_message (m\<lparr>m_timestamp := t\<rparr>) = from_message m"
  by (simp add: from_message_def meta_flag_def meta_number_def split: option.split)

definition good_line :: "cli_libs \<Rightarrow> string \<Rightarrow> frame \<Rightarrow> bool" where
  "good_line libs l f \<longleftrightarrow>
     l \<noteq> [] \<and> tight l \<and> CHR 0x0A \<notin> set l \<and>
     (\<exists>m. message_of_text (cl_json libs) l = Ok m \<and> from_message m = Ok (relayed_frame f))"

lemma subscribe_print_json:
  "json_reads libs ((to_message now f)\<lparr>m_seq := of_nat n\<rparr>) \<Longrightarrow>
     \<exists>l. subscribe_print libs Json_format n now f = Ok l \<and> good_line libs l f"
  by (auto simp: json_reads_def subscribe_print_def good_line_def Let_def from_message_relayed split: sum.splits)

text \<open>How many of \<open>n\<close> queued frames are taken when \<open>received\<close> have been, and \<open>count\<close> (0: all) are wanted.\<close>

definition taken :: "nat \<Rightarrow> nat \<Rightarrow> nat \<Rightarrow> nat" where
  "taken count received n = (if count = 0 then n else min (count - received) n)"

lemma subscribe_loop_json:
  assumes "\<And>i f. f \<in> set q \<Longrightarrow> json_reads libs ((to_message (now i) f)\<lparr>m_seq := of_nat i\<rparr>)" "si_queue s = q"
  shows "\<exists>ls. subscribe_loop libs Json_format count now k s =
      (if (count > 0 \<and> k + taken count k (length q) \<ge> count) \<or> si_closed s then Ready (Ok ()) else Pending,
       map Printed ls, s\<lparr>si_queue := drop (taken count k (length q)) q\<rparr>) \<and>
    list_all2 (good_line libs) ls (take (taken count k (length q)) q)"
  using assms
proof (induction q arbitrary: k s)
  case Nil
  then show ?case by (cases s) (auto simp: subscribe_loop.simps taken_def recv_poll_eq intro!: exI [of _ "[]"])
next
  case (Cons f q)
  show ?case
  proof (cases "count > 0 \<and> k \<ge> count")
    case True
    with Cons.prems(2) show ?thesis
      by (cases s) (subst subscribe_loop.simps, simp add: taken_def)
  next
    case False
    then have t: "taken count k (length (f # q)) = Suc (taken count (Suc k) (length q))"
      by (auto simp: taken_def min_def)
    obtain l where l: "subscribe_print libs Json_format (k + 1) (now (k + 1)) f = Ok l" "good_line libs l f"
      using subscribe_print_json [OF Cons.prems(1)] by force
    obtain ls where ls: "subscribe_loop libs Json_format count now (Suc k) (s\<lparr>si_queue := q\<rparr>) =
        (if (count > 0 \<and> Suc k + taken count (Suc k) (length q) \<ge> count) \<or> si_closed s then Ready (Ok ()) else Pending,
         map Printed ls, s\<lparr>si_queue := drop (taken count (Suc k) (length q)) q\<rparr>)"
      "list_all2 (good_line libs) ls (take (taken count (Suc k) (length q)) q)"
      using Cons.IH [of "s\<lparr>si_queue := q\<rparr>" "Suc k"] Cons.prems(1) by auto
    have "subscribe_loop libs Json_format count now k s =
        (let (r, out, s) = subscribe_loop libs Json_format count now (Suc k) (s\<lparr>si_queue := q\<rparr>) in (r, Printed l # out, s))"
      using False Cons.prems(2) l(1) by (subst subscribe_loop.simps) (auto simp: recv_poll_eq Let_def)
    with ls l(2) t show ?thesis by (intro exI [of _ "l # ls"]) simp
  qed
qed

lemma send_json_good_lines:
  "list_all2 (good_line libs) ls fs \<Longrightarrow> list_all wf_frame fs \<Longrightarrow>
   send_json_loop libs send strerror (map Ok ls) sent errors b =
     (let (r, fs', b') = send_each send (map relayed_frame fs) b
      in (case r of Err e \<Rightarrow> Err (Failed e) | Ok _ \<Rightarrow> Ok (sent + length fs, errors), [], b'))"
proof (induction ls fs arbitrary: sent b rule: list_all2_induct)
  case (Cons l ls f fs)
  then obtain m where m: "message_of_text (cl_json libs) l = Ok m" "from_message m = Ok (relayed_frame f)" "l \<noteq> []" "tight l"
    by (auto simp: good_line_def)
  have v: "validate_frame (relayed_frame f) = Ok ()" using Cons.prems by (simp add: validate_frame_iff)
  obtain r b' where s: "send (relayed_frame f) b = (r, b')" by fastforce
  show ?case
  proof (cases r)
    case (Inl e)
    with m v s show ?thesis by (simp add: Let_def)
  next
    case (Inr u)
    obtain r2 fs2 b2 where e: "send_each send (map relayed_frame fs) b' = (r2, fs2, b2)" by (rule prod_cases3)
    from Cons.IH [of "Suc sent" b'] Cons.prems have
      "send_json_loop libs send strerror (map Ok ls) (Suc sent) errors b' =
        (case r2 of Err e \<Rightarrow> Err (Failed e) | Ok _ \<Rightarrow> Ok (Suc sent + length fs, errors), [], b2)"
      by (simp add: e)
    with m v s Inr e show ?thesis by (cases r2) (simp_all add: Let_def)
  qed
qed simp

lemma lines_of_good_lines:
  "list_all2 (good_line libs) ls fs \<Longrightarrow> lines (concat (map (\<lambda>l. l @ [CHR 0x0A]) ls)) = ls"
proof -
  have cr: "strip_cr l = l" if "tight l" for l
    using that by (auto simp: tight_def strip_cr_def is_whitespace_def)
  assume "list_all2 (good_line libs) ls fs"
  then have "lines_from [] (concat (map (\<lambda>l. l @ [CHR 0x0A]) ls)) = ls"
    by (induction ls fs rule: list_all2_induct) (auto simp: good_line_def lines_from_line cr)
  then show ?thesis by (simp add: lines_def)
qed

text \<open>The text on standard output, one line for each that is printed.\<close>

fun stdout_text :: "cli_output list \<Rightarrow> string" where
  "stdout_text [] = []"
| "stdout_text (Printed l # out) = l @ [CHR 0x0A] @ stdout_text out"
| "stdout_text (Noted l # out) = stdout_text out"

lemma stdout_text_printed: "stdout_text (map Printed ls) = concat (map (\<lambda>l. l @ [CHR 0x0A]) ls)"
  by (induction ls) simp_all
lemma send_each_status:
  "cmd_send_json libs send strerror (map Ok ls) b =
     (let (r, fs', b') = send_each send (map relayed_frame fs) b
      in (case r of
            Err e \<Rightarrow> (Err (Failed e), [], b')
          | Ok _ \<Rightarrow> (Ok 0, [Noted (''rust-can: send --format json: sent='' @ show_dec (length fs) @ '' errors='' @ show_dec 0)], b')))"
  if "list_all2 (good_line libs) ls fs" "list_all wf_frame fs"
proof -
  obtain r fs' b' where e: "send_each send (map relayed_frame fs) b = (r, fs', b')" by (rule prod_cases3)
  show ?thesis
    using send_json_good_lines [OF that, of send strerror 0 0 b]
    by (cases r) (simp_all add: cmd_send_json_def e)
qed

section \<open>Properties\<close>

text \<open>
  C39: \<^verbatim>\<open>subscribe --format json\<close> is the exact dual of \<^verbatim>\<open>send --format json\<close>. \<^verbatim>\<open>subscribe\<close> prints one message for
  each frame it takes from its queue, in order: all of them, or as many as \<^verbatim>\<open>--count\<close> asks for; it
  ends when it has these or the bus is closed and waits otherwise. What it printed, read by \<^verbatim>\<open>send\<close>,
  makes the other bus send these very frames in order, up to the first one it refuses: the exit code
  is 0 with no error counted, or the error is that bus's. (The CAN XL fields of a frame that is not
  CAN XL do not travel.)
\<close>

theorem cli_subscribe_send:
  assumes "json_laws (cl_json libs)"
    and "list_all wf_frame (si_queue s)"
    and "subscribe_loop libs Json_format count now 0 s = (ended, out, s')"
  shows "let n = (if count = 0 then length (si_queue s) else min count (length (si_queue s)));
             (r, notes, b') = cmd_send_json libs send strerror (map Ok (lines (stdout_text out))) b;
             (r', fs, b'') = send_each send (map relayed_frame (take n (si_queue s))) b
         in si_queue s' = drop n (si_queue s) \<and>
            ended = (if (count > 0 \<and> n = count) \<or> si_closed s then Ready (Ok ()) else Pending) \<and>
            r = (case r' of Err e \<Rightarrow> Err (Failed e) | Ok _ \<Rightarrow> Ok 0) \<and> b' = b''"
proof -
  let ?n = "taken count 0 (length (si_queue s))"
  obtain ls where ls: "subscribe_loop libs Json_format count now 0 s =
      (if (count > 0 \<and> 0 + ?n \<ge> count) \<or> si_closed s then Ready (Ok ()) else Pending,
       map Printed ls, s\<lparr>si_queue := drop ?n (si_queue s)\<rparr>)"
    "list_all2 (good_line libs) ls (take ?n (si_queue s))"
    using subscribe_loop_json [OF json_laws_reads [OF assms(1)] refl] by metis
  have n: "?n = (if count = 0 then length (si_queue s) else min count (length (si_queue s)))"
    "count > 0 \<Longrightarrow> ?n \<ge> count \<longleftrightarrow> ?n = count"
    by (auto simp: taken_def)
  have wf: "list_all wf_frame (take ?n (si_queue s))"
    using assms(2) by (auto simp: list_all_iff dest: in_set_takeD)
  have lns: "lines (stdout_text out) = ls"
    using ls assms(3) lines_of_good_lines [OF ls(2)] by (simp add: stdout_text_printed)
  obtain r fs b' where e: "send_each send (map relayed_frame (take ?n (si_queue s))) b = (r, fs, b')" by (rule prod_cases3)
  have c: "cmd_send_json libs send strerror (map Ok ls) b =
      (case r of
         Err e \<Rightarrow> (Err (Failed e), [], b')
       | Ok _ \<Rightarrow> (Ok 0, [Noted (''rust-can: send --format json: sent='' @ show_dec (length (take ?n (si_queue s))) @
           '' errors='' @ show_dec 0)], b'))"
    using send_each_status [OF ls(2) wf, of send strerror b] by (simp add: e)
  have s: "si_queue s' = drop ?n (si_queue s)"
    "ended = (if (count > 0 \<and> ?n = count) \<or> si_closed s then Ready (Ok ()) else Pending)"
    using ls(1) assms(3) n(2) by auto
  show ?thesis
    unfolding n(1) [symmetric] lns c e Let_def using s by (cases r) simp_all
qed

text \<open>Libraries for which the laws hold.\<close>

definition line_libs :: cli_libs where
  "line_libs = hex_codec.extend hex_example (cli_libs.fields (encode_upper hex_example) example_json)"

lemma line_libs_laws: "json_laws (cl_json line_libs)"
  by (simp add: line_libs_def hex_codec.extend_def cli_libs.fields_def example_json_laws)

theorem cli_subscribe_send_witness:
  "let f = default_frame\<lparr>f_id := 0x123, f_data := [0xDE, 0xAD]\<rparr>;
       (ended, out, _) = subscribe_loop line_libs Json_format 2 (\<lambda>i. 0) 0 (sub_new 0 64 DropNewest 0\<lparr>si_queue := [f, f, f]\<rparr>);
       (r, notes, sent) = cmd_send_json line_libs refusing_send (\<lambda>e. ''os error'') (map Ok (lines (stdout_text out))) []
   in ended = Ready (Ok ()) \<and> r = Ok 0 \<and> sent = [f, f]"
proof -
  let ?f = "default_frame\<lparr>f_id := 0x123, f_data := [0xDE, 0xAD]\<rparr>"
  let ?s = "sub_new 0 64 DropNewest 0\<lparr>si_queue := [?f, ?f, ?f]\<rparr>"
  obtain ended out s' where t: "subscribe_loop line_libs Json_format 2 (\<lambda>i. 0) 0 ?s = (ended, out, s')"
    by (rule prod_cases3)
  obtain r noted sent where c: "cmd_send_json line_libs refusing_send (\<lambda>e. ''os error'') (map Ok (lines (stdout_text out))) [] =
    (r, noted, sent)" by (rule prod_cases3)
  have v: "validate_frame ?f = Ok ()" "relayed_frame ?f = ?f"
    by (simp_all add: validate_frame_iff wf_frame_def wf_classic_def wf_id_def relayed_frame_def default_frame_def)
  have "list_all wf_frame (si_queue ?s)" using v(1) by (simp add: validate_frame_iff)
  then show ?thesis
    using cli_subscribe_send [OF line_libs_laws _ t, of refusing_send "\<lambda>e. ''os error''" "[]"] c v
    by (simp add: t Let_def refusing_send_def)
qed

section \<open>Exit codes\<close>

lemma cmd_send_json_code: "fst (cmd_send_json libs send strerror ls b) \<in> {Ok 0} \<union> range Err"
  by (auto simp: cmd_send_json_def split: prod.splits sum.splits)

lemma cmd_send_code: "fst (cmd_send libs sys clk strerror stdin args k) \<in> {Ok 0} \<union> range Err"
  using cmd_send_json_code [of libs "dyn_send sys clk" strerror stdin]
  by (auto simp: cmd_send_def Let_def split: prod.splits sum.splits cli_format.splits) (metis fst_conv rangeE)+

lemma cmd_subscribe_code: "fst (cmd_subscribe w iface count format k) \<in> {Pending, Ready (Ok 0)} \<union> range (\<lambda>e. Ready (Err e))"
  by (auto simp: cmd_subscribe_def cmd_subscribe_end_def Let_def split: prod.splits sum.splits poll.splits)

lemma print_doc_ok:
  "json_laws (cl_json libs) \<Longrightarrow> json_within 127 doc \<Longrightarrow> \<exists>s. print_doc libs doc = (Ok 0, [Printed s])"
  unfolding json_laws_def print_doc_def by (fastforce split: sum.splits)

lemma docs_within:
  "json_within 127 version_doc" "json_within 127 capabilities_doc" "json_within 127 status_doc"
  by (simp_all add: version_doc_def capabilities_doc_def status_doc_def json_doc_def numeral_eq_Suc list_all_iff)

lemma constant_commands:
  assumes "json_laws (cl_json libs)"
  shows "\<exists>out. cmd_version libs format = (Ok 0, out)" "\<exists>out. cmd_capabilities libs = (Ok 0, out)"
    "\<exists>out. cmd_status libs format = (Ok 0, out)"
  using print_doc_ok [OF assms docs_within(1)] print_doc_ok [OF assms docs_within(2)] print_doc_ok [OF assms docs_within(3)]
  by (cases format; auto simp: cmd_version_def cmd_capabilities_def cmd_status_def Let_def)+

text \<open>What \<^verbatim>\<open>convert\<close> does, case by case.\<close>

lemma cmd_convert_cases:
  assumes "json_laws (cl_json libs)"
  shows "\<not> eq_ignore_ascii_case protocol ''CAN'' \<Longrightarrow> fst (cmd_convert libs now protocol stdin) = Ok 2"
    "eq_ignore_ascii_case protocol ''CAN'' \<Longrightarrow> frame_of_text (cl_json libs) stdin = Err e \<Longrightarrow>
       cmd_convert libs now protocol stdin = (Ok 1, [Noted ''INVALID_ARGUMENT''])"
    "eq_ignore_ascii_case protocol ''CAN'' \<Longrightarrow> frame_of_text (cl_json libs) stdin = Ok f \<Longrightarrow> \<not> wf_frame f \<Longrightarrow>
       cmd_convert libs now protocol stdin = (Ok 1, [Noted ''INVALID_ARGUMENT''])"
    "eq_ignore_ascii_case protocol ''CAN'' \<Longrightarrow> frame_of_text (cl_json libs) stdin = Ok f \<Longrightarrow> wf_frame f \<Longrightarrow>
       \<exists>s. cmd_convert libs now protocol stdin = (Ok 0, [Printed s]) \<and>
           message_of_text (cl_json libs) s = Ok ((to_message now f)\<lparr>m_timestamp := 0\<rparr>)"
proof -
  show "\<exists>s. cmd_convert libs now protocol stdin = (Ok 0, [Printed s]) \<and>
           message_of_text (cl_json libs) s = Ok ((to_message now f)\<lparr>m_timestamp := 0\<rparr>)"
    if "eq_ignore_ascii_case protocol ''CAN''" "frame_of_text (cl_json libs) stdin = Ok f" "wf_frame f"
    using that message_text(2) [OF assms wf_to_message(2), of 0 now f] validate_frame_iff [of f]
    by (auto simp: cmd_convert_def Let_def)
qed (auto simp: cmd_convert_def validate_frame_iff split: sum.splits)

text \<open>
  C40: The exit code of every command is 0, 1 or 2. It is 2 exactly when \<^verbatim>\<open>convert\<close> is asked for another
  protocol than CAN, in whatever case; for CAN it is 0 exactly when standard input is the JSON of a valid
  frame, and then the one thing printed is a message with time 0 that converts back to this frame;
  otherwise it is 1 and only the sentinel \<^verbatim>\<open>INVALID_ARGUMENT\<close> is noted. \<^verbatim>\<open>version\<close>, \<^verbatim>\<open>capabilities\<close> and \<^verbatim>\<open>status\<close> never fail.
\<close>

theorem cli_exit_codes:
  assumes "json_laws (cl_json (cw_libs w))" and "cli_main show_error w cmd k = (Ready code, out, k')"
  shows "code \<in> {0, 1, 2} \<and>
    (code = 2 \<longleftrightarrow> (\<exists>protocol format. cmd = Cmd_convert protocol format \<and> \<not> eq_ignore_ascii_case protocol ''CAN'')) \<and>
    (case cmd of
       Cmd_convert protocol format \<Rightarrow>
         eq_ignore_ascii_case protocol ''CAN'' \<longrightarrow>
         (case frame_of_text (cl_json (cw_libs w)) (cw_stdin w) of
            Ok f \<Rightarrow>
              (if wf_frame f
               then code = 0 \<and> (\<exists>s m. out = [Printed s] \<and> message_of_text (cl_json (cw_libs w)) s = Ok m \<and>
                                       m_timestamp m = 0 \<and> from_message m = Ok (relayed_frame f))
               else code = 1 \<and> out = [Noted ''INVALID_ARGUMENT''])
          | Err _ \<Rightarrow> code = 1 \<and> out = [Noted ''INVALID_ARGUMENT''])
     | Cmd_send args \<Rightarrow> True
     | Cmd_subscribe iface count format \<Rightarrow> True
     | _ \<Rightarrow> code = 0)"
proof (cases cmd)
  case (Cmd_send args)
  with assms(2) cmd_send_code [of "cw_libs w" "cw_sys w" "cw_clock w" "cw_strerror w" "cw_lines w" args k] show ?thesis
    by (auto simp: cli_main_def run_command_def split: prod.splits sum.splits)
next
  case (Cmd_subscribe iface count format)
  with assms(2) cmd_subscribe_code [of w iface count format k] show ?thesis
    by (auto simp: cli_main_def run_command_def split: prod.splits sum.splits poll.splits)
next
  case (Cmd_convert protocol format)
  note cases = cmd_convert_cases [OF assms(1), of protocol]
  show ?thesis
  proof (cases "eq_ignore_ascii_case protocol ''CAN''")
    case False
    with Cmd_convert assms(2) cases(1) [of "cw_times w 0" "cw_stdin w"] show ?thesis
      by (auto simp: cli_main_def run_command_def split: prod.splits sum.splits)
  next
    case True
    show ?thesis
    proof (cases "frame_of_text (cl_json (cw_libs w)) (cw_stdin w)")
      case (Inr f)
      with True Cmd_convert assms(2) cases(3,4) [of "cw_stdin w" f "cw_times w 0"] from_message_relayed [of "cw_times w 0" f] show ?thesis
        by (cases "wf_frame f") (auto simp: cli_main_def run_command_def from_message_timestamp)
    qed (use True Cmd_convert assms(2) cases(2) in \<open>auto simp: cli_main_def run_command_def\<close>)
  qed
next
  case (Cmd_version format)
  with assms(2) constant_commands(1) [OF assms(1), of format] show ?thesis by (auto simp: cli_main_def run_command_def)
next
  case Cmd_capabilities
  with assms(2) constant_commands(2) [OF assms(1)] show ?thesis by (auto simp: cli_main_def run_command_def)
next
  case (Cmd_status format)
  with assms(2) constant_commands(3) [OF assms(1), of format] show ?thesis by (auto simp: cli_main_def run_command_def)
qed

definition example_world :: "string \<Rightarrow> bytes list cli_world" where
  "example_world stdin =
     \<lparr>cw_libs = line_libs, cw_sys = pipe_libc, cw_strerror = (\<lambda>e. ''os error''), cw_lines = [], cw_stdin = stdin,
      cw_clock = (\<lambda>_. 0), cw_start = 0, cw_times = (\<lambda>_. 7), cw_arrivals = (\<lambda>b. b)\<rparr>"

theorem cli_exit_codes_witness:
  "let f = default_frame\<lparr>f_id := 0x123, f_data := [0xDE, 0xAD]\<rparr>;
       w = example_world (enc (frame_to_json example_json f));
       (code, out, _) = cli_main (\<lambda>_. ''error'') w (Cmd_convert ''can'' Json_format) []
   in code = Ready 0 \<and> (\<exists>s m. out = [Printed s] \<and> message_of_text example_json s = Ok m \<and> from_message m = Ok f)"
proof -
  let ?f = "default_frame\<lparr>f_id := 0x123, f_data := [0xDE, 0xAD]\<rparr>"
  let ?w = "example_world (enc (frame_to_json example_json ?f))" and ?c = "Cmd_convert ''can'' Json_format"
  have f: "frame_of_text example_json (enc (frame_to_json example_json ?f)) = Ok ?f"
    using frame_text [OF example_json_laws, of ?f] by (simp add: example_json_def)
  have w: "cl_json (cw_libs ?w) = example_json" "cw_stdin ?w = enc (frame_to_json example_json ?f)"
    by (simp_all add: example_world_def line_libs_def hex_codec.extend_def cli_libs.fields_def)
  have v: "wf_frame ?f" "relayed_frame ?f = ?f" "eq_ignore_ascii_case ''can'' ''CAN''"
    subgoal by (simp add: wf_frame_def wf_classic_def wf_id_def default_frame_def)
    subgoal by (simp add: relayed_frame_def default_frame_def)
    subgoal by code_simp
    done
  obtain r out k where r: "cli_main (\<lambda>_. ''error'') ?w ?c [] = (r, out, k)" by (rule prod_cases3)
  then obtain code where code: "r = Ready code"
    by (auto simp: cli_main_def run_command_def split: prod.splits sum.splits poll.splits)
  have "json_laws (cl_json (cw_libs ?w))" using example_json_laws w(1) by simp
  from cli_exit_codes [OF this r [unfolded code]] v have
    "code = 0 \<and> (\<exists>s m. out = [Printed s] \<and> message_of_text example_json s = Ok m \<and> from_message m = Ok ?f)"
    unfolding w f by auto
  then show ?thesis by (simp only: r code Let_def prod.case)
qed

text \<open>
  \<^verbatim>\<open>subscribe\<close> on the default interface never receives anything. \<^verbatim>\<open>--iface virtual\<close> opens an in-process bus that
  belongs to this process alone, so no one else can send on it (the bus is as \<^verbatim>\<open>subscribe\<close> left it): the
  command notes that it is subscribing and waits for ever, whatever \<^verbatim>\<open>--count\<close> is. Likewise a frame that
  \<^verbatim>\<open>send\<close> sends there is reported as sent and reaches nobody.
\<close>

theorem cli_virtual_private:
  assumes "eq_ignore_ascii_case iface ''virtual''" and "\<And>b. cw_arrivals w (Virtual_dyn b) = Virtual_dyn b"
  shows "(\<exists>note. cli_main show_error w (Cmd_subscribe iface count format) k = (Pending, [Noted note], k)) \<and>
    (case cmd_send libs sys clk strerror stdin (args\<lparr>sa_iface := iface, sa_format := Text_format\<rparr>) k of
       (Ok code, out, Some (Virtual_dyn b), k') \<Rightarrow>
         code = 0 \<and> k' = k \<and> write_count (vb_counts b) = 1 \<and> deliver_count (vb_counts b) = 0
     | (Err e, out, bus, k') \<Rightarrow> out = [] \<and> k' = k
     | _ \<Rightarrow> False)"
proof
  have virtual: "open_bus sys iface k = (Ok (Virtual_dyn vb_new), k)" for sys and k :: 'b
    using assms(1) by (simp add: open_bus_def VIRTUAL_IFACE_def)
  have empty: "subscribe_loop L fmt count now 0 (sub_new t 64 DropNewest 0) = (Pending, [], sub_new t 64 DropNewest 0)" for L fmt now t
    by (subst subscribe_loop.simps) (auto simp: recv_poll_eq sub_new_def)
  show "\<exists>note. cli_main show_error w (Cmd_subscribe iface count format) k = (Pending, [Noted note], k)"
    by (simp add: cli_main_def run_command_def cmd_subscribe_def cmd_subscribe_start_def virtual vb_subscribe_def vb_new_def
      assms(2) empty default_options_def chan_depth_def)
  have "r = Ok () \<and> write_count (vb_counts b) = 1 \<and> deliver_count (vb_counts b) = 0"
    if "vb_send clk f vb_new = (r, b)" "wf_frame f" for f r b
    using that by (auto simp: vb_send_def vb_new_def validate_frame_iff [THEN iffD2] broadcast_def gc_def zero_metrics_def)
  then show "case cmd_send libs sys clk strerror stdin (args\<lparr>sa_iface := iface, sa_format := Text_format\<rparr>) k of
       (Ok code, out, Some (Virtual_dyn b), k') \<Rightarrow>
         code = 0 \<and> k' = k \<and> write_count (vb_counts b) = 1 \<and> deliver_count (vb_counts b) = 0
     | (Err e, out, bus, k') \<Rightarrow> out = [] \<and> k' = k
     | _ \<Rightarrow> False"
    by (fastforce simp: cmd_send_def virtual validate_frame_iff split: sum.splits prod.splits)
qed

definition example_args :: send_args where
  "example_args = \<lparr>sa_iface = ''virtual'', sa_id = Some ''0x100'', sa_data = Some ''DE AD'', sa_fd = False, sa_ext = False,
     sa_xl = False, sa_sdt = 0, sa_vcid = 0, sa_af = 0, sa_sec = False, sa_format = Text_format\<rparr>"

theorem cli_virtual_private_witness:
  "\<exists>note. cli_main (\<lambda>_. ''error'') (example_world []) (Cmd_subscribe ''Virtual'' 10 Text_format) [] = (Pending, [Noted note], [])"
proof -
  have "eq_ignore_ascii_case ''Virtual'' ''virtual''" by code_simp
  then show ?thesis
    using cli_virtual_private [of "''Virtual''" "example_world []" "\<lambda>_. ''error''" 10 Text_format "[]" line_libs pipe_libc
      "\<lambda>_. 0" "\<lambda>e. ''os error''" "[]" example_args]
    by (simp add: example_world_def)
qed

end
