(* ===== verification/Can_Peer.thy ===== *)
theory Can_Peer
  imports Can_Socketcan Can_Text
begin

text \<open>
  The interoperability test peer (\<^verbatim>\<open>src/bin/can_interop_peer.rs\<close>): a sender or receiver process on a
  SocketCAN interface that ends with a report. Arguments come parsed; the JSON and hexadecimal texts
  are parameters. The frames the receiver's queue yields are a list of arrivals with their delays.
\<close>

section \<open>The code\<close>

datatype peer_role = Sender | Receiver

record peer_args =
  pa_role :: peer_role
  pa_iface :: string
  pa_id :: u32
  pa_ext :: bool
  pa_fd :: bool
  pa_count :: nat
  pa_seed :: u8
  pa_interval_ms :: nat
  pa_settle_ms :: nat
  pa_recv_timeout_secs :: nat

record frame_record =
  fr_id :: u32
  fr_ext :: bool
  fr_rtr :: bool
  fr_fd :: bool
  fr_brs :: bool
  fr_esi :: bool
  fr_dlc :: nat
  fr_data_hex :: string

record peer_report =
  rp_role :: string
  rp_ok :: bool
  rp_iface :: string
  rp_count :: nat
  rp_sent :: "frame_record list option"
  rp_received :: "frame_record list option"
  rp_error :: "string option"

record peer_libs =
  pl_hex :: "bytes \<Rightarrow> string"
  pl_json :: "peer_report \<Rightarrow> (string, string) result"
  pl_strerror :: "int \<Rightarrow> string"

text \<open>What a run does besides its report: progress notes on standard error, and sleeping (nanoseconds).\<close>

datatype peer_event = Logged string | Waited nat

definition from_frame :: "peer_libs \<Rightarrow> frame \<Rightarrow> frame_record" where
  "from_frame libs f =
     \<lparr>fr_id = f_id f, fr_ext = f_ext f, fr_rtr = f_rtr f, fr_fd = f_fd f, fr_brs = f_brs f, fr_esi = f_esi f,
      fr_dlc = length (f_data f), fr_data_hex = pl_hex libs (f_data f)\<rparr>"

fun role_str :: "peer_role \<Rightarrow> string" where
  "role_str Sender = ''sender''"
| "role_str Receiver = ''receiver''"

text \<open>The exit code with the line that is printed.\<close>

definition print_report_and_exit_code :: "peer_libs \<Rightarrow> peer_report \<Rightarrow> int \<times> string" where
  "print_report_and_exit_code libs report =
     (let code = (if rp_ok report then 0 else 1);
          json = (case pl_json libs report of
                    Ok s \<Rightarrow> s
                  | Err e \<Rightarrow> ''{'' @ [CHR 0x22] @ ''ok'' @ [CHR 0x22] @ '':false,'' @ [CHR 0x22] @ ''error'' @ [CHR 0x22] @
                      '':'' @ [CHR 0x22] @ ''failed to serialise report: '' @ e @ [CHR 0x22] @ ''}'')
      in (code, json))"

definition fail_report :: "peer_libs \<Rightarrow> peer_role \<Rightarrow> string \<Rightarrow> nat \<Rightarrow> string \<Rightarrow> (int \<times> string) \<times> peer_event list" where
  "fail_report libs role iface count error =
     (print_report_and_exit_code libs
        \<lparr>rp_role = role_str role, rp_ok = False, rp_iface = iface, rp_count = count, rp_sent = None,
         rp_received = None, rp_error = Some error\<rparr>,
      [Logged (''can-interop-peer: FAIL: '' @ error)])"

definition build_frame :: "peer_args \<Rightarrow> nat \<Rightarrow> frame" where
  "build_frame cli i =
     (let max_len = (if pa_fd cli then 64 else 8);
          len = 1 + i mod max_len;
          data = map (\<lambda>j. pa_seed cli + of_nat i * 31 + of_nat j * 7 + 13) [0..<len]
      in default_frame\<lparr>f_id := pa_id cli, f_ext := pa_ext cli, f_fd := pa_fd cli,
           f_brs := (pa_fd cli \<and> i mod 2 = 0), f_esi := (pa_fd cli \<and> i mod 3 = 0), f_data := data\<rparr>)"

subsection \<open>The sender\<close>

text \<open>The loop over the frames: on success the records of all frames sent, else those with the failed one and the error.\<close>

fun sender_loop ::
    "peer_libs \<Rightarrow> (frame \<Rightarrow> 'b \<Rightarrow> (can_error, unit) result \<times> 'b) \<Rightarrow> peer_args \<Rightarrow> nat list \<Rightarrow> frame_record list \<Rightarrow> 'b \<Rightarrow>
     (frame_record list \<times> string, frame_record list) result \<times> peer_event list \<times> 'b" where
  "sender_loop libs send cli [] sent b = (Ok sent, [], b)"
| "sender_loop libs send cli (i # is) sent b =
     (let frame = build_frame cli i
      in case send frame b of
           (Err e, b) \<Rightarrow>
             (let msg = ''send '' @ show_dec i @ '' failed: '' @ error_display (pl_strerror libs) e
              in (Err (sent @ [from_frame libs frame], msg), [Logged (''can-interop-peer: FAIL: '' @ msg)], b))
         | (Ok _, b) \<Rightarrow>
             (let waits = (if pa_interval_ms cli > 0 then [Waited (pa_interval_ms cli * 1000000)] else []);
                  (r, es, b) = sender_loop libs send cli is (sent @ [from_frame libs frame]) b
              in (r, waits @ es, b)))"

definition run_sender ::
    "peer_libs \<Rightarrow> 'k libc \<Rightarrow> peer_args \<Rightarrow> 'k \<Rightarrow>
     (int \<times> string) \<times> peer_event list \<times> 'k socketcan_bus option" where
  "run_sender libs sys cli k =
     (case sc_new sys (map (\<lambda>c. of_nat (of_char c)) (pa_iface cli)) k of
        (Err e, k) \<Rightarrow>
          (let (r, es) = fail_report libs (pa_role cli) (pa_iface cli) (pa_count cli)
                 (''open SocketCAN iface '' @ debug_string (pa_iface cli) @ '': '' @ error_display (pl_strerror libs) e)
           in (r, es, None))
      | (Ok bus, k) \<Rightarrow>
          (let settle = (if pa_settle_ms cli > 0 then [Waited (pa_settle_ms cli * 1000000)] else []);
               note = Logged (''can-interop-peer: sender on '' @ debug_string (pa_iface cli) @ '' sending '' @
                        show_dec (pa_count cli) @ '' frame(s), id=0x'' @ show_hex (unat (pa_id cli)) @ '' ext='' @
                        show_bool (pa_ext cli) @ '' fd='' @ show_bool (pa_fd cli));
               report = \<lparr>rp_role = ''sender'', rp_ok = False, rp_iface = pa_iface cli, rp_count = pa_count cli,
                         rp_sent = None, rp_received = None, rp_error = None\<rparr>
           in case sender_loop libs (sc_send sys) cli [0..<pa_count cli] [] bus of
                (Err (sent, msg), es, bus) \<Rightarrow>
                  (print_report_and_exit_code libs (report\<lparr>rp_sent := Some sent, rp_error := Some msg\<rparr>),
                   settle @ note # es, Some bus)
              | (Ok sent, es, bus) \<Rightarrow>
                  (let (_, bus) = sc_close bus
                   in (print_report_and_exit_code libs (report\<lparr>rp_ok := True, rp_sent := Some sent\<rparr>),
                       settle @ note # es, Some bus))))"

subsection \<open>The receiver\<close>

text \<open>
  Collecting frames under a timeout of \<open>budget\<close> nanoseconds: what arrives comes after its delay, and \<open>None\<close> is
  the end of the queue. The result says whether the timeout struck.
\<close>

fun collect ::
    "peer_libs \<Rightarrow> nat \<Rightarrow> nat \<Rightarrow> (nat \<times> frame option) list \<Rightarrow> frame_record list \<Rightarrow> bool \<times> frame_record list" where
  "collect libs count budget [] received = (length received < count, received)"
| "collect libs count budget ((d, x) # arrivals) received =
     (if length received \<ge> count then (False, received)
      else if d > budget then (True, received)
      else case x of
             None \<Rightarrow> (False, received)
           | Some f \<Rightarrow> collect libs count (budget - d) arrivals (received @ [from_frame libs f]))"

definition run_receiver ::
    "peer_libs \<Rightarrow> 'k libc \<Rightarrow> peer_args \<Rightarrow> nat \<Rightarrow> (nat \<times> frame option) list \<Rightarrow> 'k \<Rightarrow>
     (int \<times> string) \<times> peer_event list \<times> 'k socketcan_bus option" where
  "run_receiver libs sys cli now arrivals k =
     (case sc_new sys (map (\<lambda>c. of_nat (of_char c)) (pa_iface cli)) k of
        (Err e, k) \<Rightarrow>
          (let (r, es) = fail_report libs (pa_role cli) (pa_iface cli) (pa_count cli)
                 (''open SocketCAN iface '' @ debug_string (pa_iface cli) @ '': '' @ error_display (pl_strerror libs) e)
           in (r, es, None))
      | (Ok bus, k) \<Rightarrow>
     (case sc_subscribe now [] default_options bus of
        (Err e, bus) \<Rightarrow>
          (let (r, es) = fail_report libs (pa_role cli) (pa_iface cli) (pa_count cli)
                 (''subscribe: '' @ error_display (pl_strerror libs) e)
           in (r, es, Some bus))
      | (Ok rx, bus) \<Rightarrow>
          (let note = Logged (''can-interop-peer: receiver on '' @ debug_string (pa_iface cli) @ '' waiting for '' @
                        show_dec (pa_count cli) @ '' frame(s)'');
               (late, received) = collect libs (pa_count cli) (pa_recv_timeout_secs cli * 1000000000) arrivals [];
               late_note = (if late then
                   [Logged (''can-interop-peer: recv timeout after '' @ show_dec (length received) @
                      '' frame(s) (wanted '' @ show_dec (pa_count cli) @ '')'')] else []);
               ok = (length received = pa_count cli);
               error = (if ok then None
                        else Some (''received '' @ show_dec (length received) @ '' of '' @ show_dec (pa_count cli) @
                          '' expected frame(s) within '' @ show_dec (pa_recv_timeout_secs cli) @ ''s''))
           in (print_report_and_exit_code libs
                 \<lparr>rp_role = ''receiver'', rp_ok = ok, rp_iface = pa_iface cli, rp_count = pa_count cli, rp_sent = None,
                  rp_received = Some received, rp_error = error\<rparr>,
               note # late_note, Some bus))))"

definition main_impl ::
    "peer_libs \<Rightarrow> 'k libc \<Rightarrow> peer_args \<Rightarrow> nat \<Rightarrow> (nat \<times> frame option) list \<Rightarrow> 'k \<Rightarrow>
     (int \<times> string) \<times> peer_event list \<times> 'k socketcan_bus option" where
  "main_impl libs sys cli now arrivals k =
     (case pa_role cli of Sender \<Rightarrow> run_sender libs sys cli k | Receiver \<Rightarrow> run_receiver libs sys cli now arrivals k)"

section \<open>The frames of a run\<close>

definition valid_id :: "peer_args \<Rightarrow> bool" where
  "valid_id cli \<longleftrightarrow> unat (pa_id cli) < (if pa_ext cli then 2 ^ 29 else 2 ^ 11)"

lemma build_frame_simps [simp]:
  "f_id (build_frame cli i) = pa_id cli" "f_ext (build_frame cli i) = pa_ext cli" "f_fd (build_frame cli i) = pa_fd cli"
  "f_xl (build_frame cli i) = False" "f_rtr (build_frame cli i) = False"
  "f_brs (build_frame cli i) = (pa_fd cli \<and> i mod 2 = 0)" "f_esi (build_frame cli i) = (pa_fd cli \<and> i mod 3 = 0)"
  "length (f_data (build_frame cli i)) = 1 + i mod (if pa_fd cli then 64 else 8)"
  by (simp_all add: build_frame_def Let_def default_frame_def)

lemma build_frame_wf:
  "wf_frame (build_frame cli i) \<longleftrightarrow> valid_id cli \<and>
     (pa_fd cli \<longrightarrow> i mod 64 < 8 \<or> 1 + i mod 64 \<in> {12, 16, 20, 24, 32, 48, 64})"
proof (cases "pa_fd cli")
  case True
  then show ?thesis by (auto simp: wf_frame_def wf_xl_def wf_fd_def wf_classic_def wf_id_def valid_id_def)
next
  case False
  have "i mod 8 < 8" by simp
  with False show ?thesis by (auto simp: wf_frame_def wf_xl_def wf_fd_def wf_classic_def wf_id_def valid_id_def)
qed

text \<open>A bus on which every write succeeds.\<close>

definition writes_ok :: "'k libc \<Rightarrow> bool" where
  "writes_ok sys \<longleftrightarrow> (\<forall>fd w k. is_ok (fst (sys_write sys fd w k)))"

definition bus_ready :: "'k socketcan_bus \<Rightarrow> bool" where
  "bus_ready b \<longleftrightarrow> \<not> sc_closed b \<and> \<not> sc_bus_off b"

lemma sc_new_ready: "fst (sc_new sys iface k) = Ok b \<Longrightarrow> bus_ready b"
  by (auto simp: sc_new_def bus_ready_def Let_def split: prod.splits sum.splits if_splits)

lemma sc_send_ready:
  assumes "writes_ok sys" "bus_ready b" "\<not> f_xl f"
  shows "wf_frame f \<Longrightarrow> \<exists>b'. sc_send sys f b = (Ok (), b') \<and> bus_ready b'"
    "\<not> wf_frame f \<Longrightarrow> \<exists>s. sc_send sys f b = (Err (InvalidFrame s), b)"
proof -
  obtain w k where w: "sys_write sys (sc_fd b) (raw_bytes f) (sc_kernel b) = (w, k)" by fastforce
  then have "is_ok w" using assms(1) by (metis fst_conv writes_ok_def)
  with w sc_send_open [of b f sys] assms show "wf_frame f \<Longrightarrow> \<exists>b'. sc_send sys f b = (Ok (), b') \<and> bus_ready b'"
    by (auto simp: bus_ready_def is_ok_iff)
  show "\<not> wf_frame f \<Longrightarrow> \<exists>s. sc_send sys f b = (Err (InvalidFrame s), b)"
    using assms(2) sc_send_refused(3) by (auto simp: bus_ready_def)
qed

text \<open>The loop sends the valid frames in front and stops at the first invalid one.\<close>

lemma sender_loop_ready:
  assumes "writes_ok sys" "bus_ready b"
  shows "list_all (\<lambda>i. wf_frame (build_frame cli i)) is \<Longrightarrow>
    \<exists>es b'. sender_loop libs (sc_send sys) cli is sent b =
      (Ok (sent @ map (\<lambda>i. from_frame libs (build_frame cli i)) is), es, b') \<and> bus_ready b'"
    "list_all (\<lambda>i. wf_frame (build_frame cli i)) is \<Longrightarrow> \<not> wf_frame (build_frame cli j) \<Longrightarrow>
    \<exists>msg es b'. sender_loop libs (sc_send sys) cli (is @ j # js) sent b =
      (Err (sent @ map (\<lambda>i. from_frame libs (build_frame cli i)) (is @ [j]), msg), es, b')"
proof -
  show "\<exists>es b'. sender_loop libs (sc_send sys) cli is sent b =
      (Ok (sent @ map (\<lambda>i. from_frame libs (build_frame cli i)) is), es, b') \<and> bus_ready b'"
    if "list_all (\<lambda>i. wf_frame (build_frame cli i)) is"
    using assms(2) that
  proof (induction "is" arbitrary: sent b)
    case (Cons i "is")
    then obtain b1 where "sc_send sys (build_frame cli i) b = (Ok (), b1)" "bus_ready b1"
      using sc_send_ready(1) [OF assms(1) Cons.prems(1), of "build_frame cli i"] by auto
    with Cons.IH [of b1 "sent @ [from_frame libs (build_frame cli i)]"] Cons.prems show ?case
      by (auto simp: Let_def)
  qed auto
  show "\<exists>msg es b'. sender_loop libs (sc_send sys) cli (is @ j # js) sent b =
      (Err (sent @ map (\<lambda>i. from_frame libs (build_frame cli i)) (is @ [j]), msg), es, b')"
    if "list_all (\<lambda>i. wf_frame (build_frame cli i)) is" "\<not> wf_frame (build_frame cli j)"
    using assms(2) that
  proof (induction "is" arbitrary: sent b)
    case Nil
    then obtain s where "sc_send sys (build_frame cli j) b = (Err (InvalidFrame s), b)"
      using sc_send_ready(2) [OF assms(1) Nil.prems(1), of "build_frame cli j"] by auto
    then show ?case by (simp add: Let_def)
  next
    case (Cons i "is")
    then obtain b1 where "sc_send sys (build_frame cli i) b = (Ok (), b1)" "bus_ready b1"
      using sc_send_ready(1) [OF assms(1) Cons.prems(1), of "build_frame cli i"] by auto
    with Cons.IH [of b1 "sent @ [from_frame libs (build_frame cli i)]"] Cons.prems show ?case
      by (auto simp: Let_def)
  qed
qed
lemma fst_report: "fst (print_report_and_exit_code libs r) = (if rp_ok r then 0 else 1)"
  by (simp add: print_report_and_exit_code_def Let_def)

section \<open>Properties\<close>

text \<open>
  The exit code of the sender, on an interface where every write succeeds and with an identifier that
  fits its format. A classic run succeeds for any number of frames. A CAN FD run of more than 8 frames
  always fails: the ninth frame has 9 bytes of data, which is no CAN FD length, and the bus
  refuses it.
\<close>

theorem peer_sender_exit:
  assumes "writes_ok sys" "valid_id cli" "is_ok (fst (sc_new sys (map (\<lambda>c. of_nat (of_char c)) (pa_iface cli)) k))"
  shows "fst (fst (run_sender libs sys cli k)) = (if pa_fd cli \<and> pa_count cli > 8 then 1 else 0)"
proof -
  obtain b k' where b: "sc_new sys (map (\<lambda>c. of_nat (of_char c)) (pa_iface cli)) k = (Ok b, k')" "bus_ready b"
    using assms(3) sc_new_ready by (metis is_ok_iff prod.collapse)
  show ?thesis
  proof (cases "pa_fd cli \<and> pa_count cli > 8")
    case True
    then have "[0..<pa_count cli] = [0..<8] @ 8 # [9..<pa_count cli]"
      using upt_add_eq_append [of 0 8 "pa_count cli - 8"] upt_conv_Cons [of 8 "pa_count cli"] by simp
    moreover have "list_all (\<lambda>i. wf_frame (build_frame cli i)) [0..<8]" "\<not> wf_frame (build_frame cli 8)"
      using True assms(2) by (auto simp: build_frame_wf list_all_iff)
    with sender_loop_ready(2) [OF assms(1) b(2)] obtain msg es b' where
      "sender_loop libs (sc_send sys) cli ([0..<8] @ 8 # [9..<pa_count cli]) [] b =
        (Err (map (\<lambda>i. from_frame libs (build_frame cli i)) ([0..<8] @ [8]), msg), es, b')"
      by (metis append_Nil)
    ultimately show ?thesis using True b(1) by (simp add: run_sender_def fst_report)
  next
    case False
    then have "list_all (\<lambda>i. wf_frame (build_frame cli i)) [0..<pa_count cli]"
      using assms(2) by (auto simp: build_frame_wf list_all_iff)
    with sender_loop_ready(1) [OF assms(1) b(2)] obtain es b' where
      "sender_loop libs (sc_send sys) cli [0..<pa_count cli] [] b =
        (Ok (map (\<lambda>i. from_frame libs (build_frame cli i)) [0..<pa_count cli]), es, b')"
      by (metis append_Nil)
    with False b(1) show ?thesis by (auto simp: run_sender_def fst_report Let_def case_prod_beta)
  qed
qed

definition peer_example :: peer_args where
  "peer_example = \<lparr>pa_role = Sender, pa_iface = ''vcan0'', pa_id = 0x123, pa_ext = False, pa_fd = True, pa_count = 9,
     pa_seed = 0, pa_interval_ms = 20, pa_settle_ms = 150, pa_recv_timeout_secs = 15\<rparr>"

theorem peer_sender_exit_witness:
  "fst (fst (run_sender \<lparr>pl_hex = (\<lambda>bs. ''''), pl_json = (\<lambda>r. Ok ''''), pl_strerror = (\<lambda>e. '''')\<rparr>
     (fd_libc\<lparr>sys_ifindex := (\<lambda>fd r k. (Ok 3, k))\<rparr>) peer_example {})) = 1"
proof -
  let ?sys = "fd_libc\<lparr>sys_ifindex := (\<lambda>fd r k. (Ok 3, k))\<rparr>"
  have "is_ok (fst (sc_new ?sys (map (\<lambda>c. of_nat (of_char c)) (pa_iface peer_example)) {}))"
    by (simp add: sc_new_def fd_libc_def get_iface_index_def peer_example_def)
  moreover have "writes_ok ?sys" by (simp add: writes_ok_def fd_libc_def)
  moreover have "valid_id peer_example" by (simp add: valid_id_def peer_example_def)
  ultimately show ?thesis using peer_sender_exit [of ?sys peer_example "{}"] by (simp add: peer_example_def)
qed

text \<open>The receiver's exit code says whether it collected as many frames as it was to wait for.\<close>

lemma peer_receiver_exit:
  assumes "is_ok (fst (sc_new sys (map (\<lambda>c. of_nat (of_char c)) (pa_iface cli)) k))"
  shows "fst (fst (run_receiver libs sys cli now arrivals k)) =
    (if length (snd (collect libs (pa_count cli) (pa_recv_timeout_secs cli * 1000000000) arrivals [])) = pa_count cli
     then 0 else 1)"
proof -
  obtain b k' where b: "sc_new sys (map (\<lambda>c. of_nat (of_char c)) (pa_iface cli)) k = (Ok b, k')" "bus_ready b"
    using assms sc_new_ready by (metis is_ok_iff prod.collapse)
  then have "\<not> sc_closed b" by (simp add: bus_ready_def)
  with b(1) show ?thesis
    by (simp add: run_receiver_def sc_subscribe_def fst_report Let_def case_prod_beta)
qed

end
