(* ===== verification/Can_Clients.thy ===== *)
theory Can_Clients
  imports Can_Virtual_Port Can_Mock Can_Socketcan Can_J1939 Can_Recorder Can_Adapt
begin

text \<open>
  The protocols that read from a subscription, on the buses that hand them out: J1939 (\<^verbatim>\<open>src/j1939/mod.rs\<close>), the
  recorder (\<^verbatim>\<open>src/recorder/mod.rs\<close>) and the RELAY adapter (\<^verbatim>\<open>src/adapt.rs\<close>). What they need of a bus is the contract
  \<open>bus_subscription\<close>; the in-process bus, the mock bus and SocketCAN provide it.
\<close>

section \<open>The contract\<close>

text \<open>
  A new subscription on a usable bus starts empty and open, with the options given, and takes the frames \<open>takes filters\<close>. Together
  with \<open>bus_endpoints\<close> this says what its queue holds after any arrivals.
\<close>

locale bus_subscription = bus_endpoints +
  fixes subscribe :: "nat \<Rightarrow> can_filter list \<Rightarrow> subscriber_options \<Rightarrow> 'a \<Rightarrow> (can_error, nat) result \<times> 'a"
    and usable :: "'a \<Rightarrow> bool"
    and takes :: "can_filter list \<Rightarrow> frame \<Rightarrow> bool"
  assumes subscribe_handle: "inv b \<Longrightarrow> usable b \<Longrightarrow> fst (subscribe now filters opts b) = Ok (length (store b))"
    and subscribe_keeps: "inv b \<Longrightarrow> usable b \<Longrightarrow> inv (snd (subscribe now filters opts b))"
    and subscribe_adds: "inv b \<Longrightarrow> usable b \<Longrightarrow> length (store b) < length (store (snd (subscribe now filters opts b)))"
    and subscribe_queue: "inv b \<Longrightarrow> usable b \<Longrightarrow> store (snd (subscribe now filters opts b)) ! length (store b) =
      sub_new now (chan_depth opts 64) (back_pressure opts) (rate_limit_per_sec opts)"
    and subscribe_takes: "inv b \<Longrightarrow> usable b \<Longrightarrow> accepts (snd (subscribe now filters opts b)) (length (store b)) = takes filters"
begin

text \<open>What a subscriber has received when some frames have arrived after its subscription.\<close>

definition arrivals :: "(clock \<times> frame) list \<Rightarrow> 'a \<Rightarrow> 'a" where
  "arrivals ps b = fold step (map (\<lambda>(clk, f). Arrive clk f) ps) b"

lemma fold_arrivals:
  "unlimited s \<Longrightarrow> \<not> si_closed s \<Longrightarrow>
   fold (queue_step acc h) (map (\<lambda>(clk, f). Arrive clk f) ps) s =
     fold (\<lambda>f s. snd (sub_push 0 f s)) (filter acc (map snd ps)) s"
proof (induction ps arbitrary: s)
  case (Cons p ps)
  obtain clk f where p: "p = (clk, f)" by (cases p)
  have "snd (sub_push (clk h) f s) = snd (sub_push 0 f s)" using sub_push_time [OF Cons.prems(1)] by metis
  with Cons.IH [of "snd (sub_push 0 f s)"] Cons.IH [OF Cons.prems] Cons.prems sub_push_unlimited(2) [OF Cons.prems(1), of 0 f]
  show ?case by (simp add: p)
qed simp

lemma subscriber_gets:
  assumes "inv b" "usable b" "rate_limit_per_sec opts = 0" "back_pressure opts = DropNewest"
    and s_def: "s = store (arrivals ps (snd (subscribe now filters opts b))) ! length (store b)"
  shows "si_queue s = take (chan_depth opts 64) (filter (takes filters) (map snd ps))" "\<not> si_closed s"
proof -
  let ?b = "snd (subscribe now filters opts b)" and ?h = "length (store b)"
  let ?n = "sub_new now (chan_depth opts 64) (back_pressure opts) (rate_limit_per_sec opts)"
  let ?fs = "filter (takes filters) (map snd ps)"
  have n: "unlimited ?n" "\<not> si_closed ?n" "si_queue ?n = []" "si_policy ?n = DropNewest" "si_capacity ?n = chan_depth opts 64"
    using assms(3,4) chan_depth_pos [of 64 opts] by (simp_all add: sub_new_def unlimited_def)
  have s: "s = fold (\<lambda>f s. snd (sub_push 0 f s)) ?fs ?n"
    unfolding s_def arrivals_def private_queue [OF subscribe_keeps subscribe_adds, OF assms(1,2) assms(1,2)]
      subscribe_queue [OF assms(1,2)] subscribe_takes [OF assms(1,2)]
    using n(1,2) by (rule fold_arrivals)
  show "si_queue s = take (chan_depth opts 64) ?fs"
    unfolding s using subq.burst_drop_newest [OF n(1), where t = 0 and ms = ?fs] n by simp
  have "\<not> si_closed q \<Longrightarrow> \<not> si_closed (fold (\<lambda>f s. snd (sub_push 0 f s)) fs q)" for fs q
    by (induction fs arbitrary: q) simp_all
  then show "\<not> si_closed s" unfolding s using n(2) by blast
qed

text \<open>A J1939 receiver reads the wanted ones of the extended frames.\<close>

lemma j1939_reads:
  assumes "inv b" "usable b" "rate_limit_per_sec opts = 0" "back_pressure opts = DropNewest"
    and s_def: "s = store (arrivals ps (snd (subscribe now [] opts b))) ! length (store b)"
    and js_def: "js = List.map_filter (j1939_decode pgns) (take (chan_depth opts 64) (filter (takes []) (map snd ps)))"
  shows "fst (j1939_subscribe (subscribe now) pgns opts b) = Ok (length (store b), pgns)"
    and "j1939_run pgns (length js + n) s = map (\<lambda>j. Ready (Some j)) js @ replicate n Pending"
proof -
  show "fst (j1939_subscribe (subscribe now) pgns opts b) = Ok (length (store b), pgns)"
    using subscribe_handle [OF assms(1,2), of now "[]" opts]
    by (cases "subscribe now [] opts b") (simp add: j1939_subscribe_def)
  show "j1939_run pgns (length js + n) s = map (\<lambda>j. Ready (Some j)) js @ replicate n Pending"
    using subscriber_gets [OF assms(1-4) s_def] j1939_recv_drains [of pgns s n]
    by (simp add: s_def js_def Let_def)
qed

text \<open>The recorder writes a log of what it gets, and the log replays to any bus.\<close>

lemma recorded_replays:
  assumes "inv b" "usable b" "hex_laws hx" "is_word iface" "\<And>i. as_secs (clk i) < 2 ^ 64"
    and "record_loop hx append_writer iface clk 0
      (store (arrivals ps (snd (subscribe now [] default_options b))) ! length (store b)) [] = (ended, s', text)"
  shows "(let (r, es, c) = replay hx send nonpositive one scaled elapsed (map Ok (lines text)) speed c
     in (r, replayed es, c)) =
    (let (r, fs, c) = send_each send (map candump_frame (take 64 (filter (takes []) (map snd ps)))) c in (Returns r, fs, c))"
proof -
  have opts: "rate_limit_per_sec default_options = 0" "back_pressure default_options = DropNewest"
    "chan_depth default_options 64 = 64" by (simp_all add: default_options_def chan_depth_def)
  have q: "si_queue (store (arrivals ps (snd (subscribe now [] default_options b))) ! length (store b)) =
      take 64 (filter (takes []) (map snd ps))"
    using subscriber_gets(1) [OF assms(1,2) opts(1,2) refl, where ps = ps and now = now and filters = "[]"] opts(3) by simp
  show ?thesis by (rule rec_record_replay [OF assms(3-6), THEN conjunct2, THEN conjunct2, unfolded q])
qed

end

section \<open>The buses that provide it\<close>

interpretation vclient: bus_subscription "\<lambda>clk f b. snd (vb_send clk f b)" vb_update vb_store vb_accepts vb_inv
  vb_subscribe "\<lambda>b. \<not> vb_closed b" "\<lambda>filters f. wf_frame f \<and> wants filters f"
proof unfold_locales
  fix b :: virtual_bus and now filters opts
  assume b: "vb_inv b" "\<not> vb_closed b"
  note q = subscribed_queue [OF b(2,1) refl refl, of now filters opts]
  show "fst (vb_subscribe now filters opts b) = Ok (length (vb_store b))" using vbus.subscribe_open [OF b(2)] by blast
  show "vb_inv (snd (vb_subscribe now filters opts b))"
    "length (vb_store b) < length (vb_store (snd (vb_subscribe now filters opts b)))"
    "vb_store (snd (vb_subscribe now filters opts b)) ! length (vb_store b) =
      sub_new now (chan_depth opts 64) (back_pressure opts) (rate_limit_per_sec opts)"
    "vb_accepts (snd (vb_subscribe now filters opts b)) (length (vb_store b)) = (\<lambda>f. wf_frame f \<and> wants filters f)"
    using q by (simp_all add: wants_def)
qed

interpretation mclient: bus_subscription mock_inject mock_update mb_subscribers "\<lambda>b h f. True" mock_inv
  mock_subscribe "\<lambda>b. \<not> mb_closed b" "\<lambda>filters f. True"
  by unfold_locales (simp_all add: mock_defs)

interpretation scclient: bus_subscription "\<lambda>clk f. reader_handle clk f 0" sc_update sc_subscribers "\<lambda>b h f. True" sc_inv
  sc_subscribe "\<lambda>b. \<not> sc_closed b" "\<lambda>filters f. True"
  by unfold_locales (simp_all add: sc_defs)

end
