(* ===== verification/Can_Adapt_Bus.thy ===== *)
theory Can_Adapt_Bus
  imports Can_Virtual_Port Can_Adapt
begin

text \<open>
  The two tasks of an adapter subscription (\<^verbatim>\<open>src/adapt.rs\<close>) beside the in-process bus that feeds them
  (\<^verbatim>\<open>src/virtual_bus/mod.rs\<close>): sends of other adapters, the close of the bus and the atomic steps of the tasks in any order. A send
  touches the queue of the subscription in one moment, its push, and a close in two, so these are its steps.
  The queue of the subscription is both in the bus and in the receiver; every event changes the two copies by the code's
  own operation on each side, and they are proved to agree.
\<close>

section \<open>The bus and the tasks together\<close>

datatype link_label =
    Sends message "(relay_error, unit) result"
  | Bus_closes
  | Bus_notifies
  | Task adapt_label

text \<open>The subscriptions that a send reaches are pushed to, each by its own \<open>push_step\<close>.\<close>

definition link_push :: "'n notify \<Rightarrow> nat \<Rightarrow> clock \<Rightarrow> message \<Rightarrow> virtual_bus \<Rightarrow> 'n pipeline \<Rightarrow> 'n pipeline" where
  "link_push nt h clk m b p =
     (case from_message m of
        Err _ \<Rightarrow> p
      | Ok f \<Rightarrow> if vb_accepts b h f then p\<lparr>pl_rx := push_step nt (clk h) f (pl_rx p)\<rparr> else p)"

inductive link_step :: "'n notify \<Rightarrow> nat \<Rightarrow> virtual_bus \<times> 'n pipeline \<Rightarrow> link_label \<Rightarrow> virtual_bus \<times> 'n pipeline \<Rightarrow> bool" for nt h where
  sends: "adapter_send (vb_send clk) m b = (r, b') \<Longrightarrow> link_step nt h (b, p) (Sends m r) (b', link_push nt h clk m b p)"
| closes: "\<not> vb_closed b \<Longrightarrow> adapter_close vb_close b = (r, b') \<Longrightarrow>
    link_step nt h (b, p) Bus_closes (b', p\<lparr>pl_rx := close_store (pl_rx p)\<rparr>)"
| notifies: "rx_closers (pl_rx p) > 0 \<Longrightarrow> link_step nt h (b, p) Bus_notifies (b, p\<lparr>pl_rx := close_notify nt (pl_rx p)\<rparr>)"
| produces: "producer_step nt now p = Some p' \<Longrightarrow>
    link_step nt h (b, p) (Task (produced now p)) (vb_update h (\<lambda>_. rx_sub (pl_rx p')) b, p')"
| forwards: "forwarder_step nt sent p = Some p' \<Longrightarrow> link_step nt h (b, p) (Task (forwarded sent p)) (b, p')"

inductive link_run :: "'n notify \<Rightarrow> nat \<Rightarrow> virtual_bus \<times> 'n pipeline \<Rightarrow> link_label list \<Rightarrow> virtual_bus \<times> 'n pipeline \<Rightarrow> bool" for nt h where
  nothing: "link_run nt h s [] s"
| more: "link_run nt h s ls s' \<Longrightarrow> link_step nt h s' l s'' \<Longrightarrow> link_run nt h s (ls @ [l]) s''"

text \<open>The messages whose send was answered \<open>Ok\<close>, and the steps of the tasks.\<close>

definition answered_ok :: "link_label list \<Rightarrow> message list" where
  "answered_ok ls = List.map_filter (\<lambda>l. case l of Sends m (Ok _) \<Rightarrow> Some m | _ \<Rightarrow> None) ls"

definition tasks :: "link_label list \<Rightarrow> adapt_label list" where
  "tasks ls = List.map_filter (\<lambda>l. case l of Task a \<Rightarrow> Some a | _ \<Rightarrow> None) ls"

definition frame_of :: "message \<Rightarrow> frame" where
  "frame_of m = projr (from_message m)"

lemma link_traces [simp]:
  "answered_ok [] = []" "tasks [] = []"
  "answered_ok (ls @ [l]) = answered_ok ls @ (case l of Sends m (Ok _) \<Rightarrow> [m] | _ \<Rightarrow> [])"
  "tasks (ls @ [l]) = tasks ls @ (case l of Task a \<Rightarrow> [a] | _ \<Rightarrow> [])"
  by (simp_all add: answered_ok_def tasks_def List.map_filter_def split: link_label.split sum.split)

lemma handed_tasks: "handed (filter task_label ls) = handed ls"
  by (induction ls rule: rev_induct) (auto split: adapt_label.split)

section \<open>What every run keeps\<close>

text \<open>
  \<open>als\<close> is the run of the pipeline alone that goes with it. On the open bus the subscription is a port, with the queue that the receiver
  has; as long as no more messages have been accepted than it holds, it has taken every one of them.
\<close>

definition linked ::
    "'n notify \<Rightarrow> nat \<Rightarrow> nat \<Rightarrow> 'n pipeline \<Rightarrow> link_label list \<Rightarrow> adapt_label list \<Rightarrow> virtual_bus \<times> 'n pipeline \<Rightarrow> bool" where
  "linked nt h cap p0 ls als s \<longleftrightarrow>
     (case s of (b, p) \<Rightarrow>
        adapt_run nt p0 als p \<and> vb_inv b \<and> h < length (vb_store b) \<and> vb_store b ! h = rx_sub (pl_rx p) \<and>
        (vb_closed b \<or> vb_port b h (wants []) DropNewest cap (si_queue (rx_sub (pl_rx p)))) \<and>
        filter task_label als = tasks ls \<and>
        length (si_queue (rx_sub (pl_rx p))) \<le> length (answered_ok ls) \<and>
        subseq (arrivals_of als) (map frame_of (answered_ok ls)) \<and>
        (length (answered_ok ls) \<le> cap \<longrightarrow> arrivals_of als = map frame_of (answered_ok ls)) \<and>
        (\<Sum>l\<leftarrow>als. bus_work l) + 4 * rx_closers (pl_rx p) \<le> 21 * length (answered_ok ls) + (if vb_closed b then 4 else 0))"

lemma vb_accepts_wants: "vb_port b h (wants []) pol cap q \<Longrightarrow> vb_accepts b h = wf_frame"
  by (simp add: vb_port_def wants_def)

lemma producer_step_rx:
  assumes "producer_step nt now p = Some p'"
  shows "rx_closers (pl_rx p') = rx_closers (pl_rx p)" "si_closed (rx_sub (pl_rx p')) = si_closed (rx_sub (pl_rx p))"
    "length (si_queue (rx_sub (pl_rx p'))) \<le> length (si_queue (rx_sub (pl_rx p)))"
    "\<exists>q. rx_sub (pl_rx p') = (rx_sub (pl_rx p))\<lparr>si_queue := q\<rparr>"
proof -
  have "\<exists>q. rx_sub s' = (rx_sub s)\<lparr>si_queue := q\<rparr> \<and> length q \<le> length (si_queue (rx_sub s)) \<and> rx_closers s' = rx_closers s"
    if "rx_step nt s = Some s'" for s s'
    using that by (cases "rx_pc s"; cases "si_queue (rx_sub s)")
      (auto simp: rx_step_def sub_pop_def split: if_splits intro: exI [of _ "si_queue (rx_sub s)"])
  moreover have "pl_rx p' = pl_rx p \<or> (\<exists>s'. rx_step nt (pl_rx p) = Some s' \<and> pl_rx p' = s') \<or> (\<exists>pc. pl_rx p' = (pl_rx p)\<lparr>rx_pc := pc\<rparr>)"
    using assms
    by (auto simp: producer_step_def recv_again_def
        split: producer_pc.splits recv_pc.splits option.splits prod.splits aq_outcome.splits if_splits)
  ultimately have "\<exists>q. rx_sub (pl_rx p') = (rx_sub (pl_rx p))\<lparr>si_queue := q\<rparr> \<and>
      length q \<le> length (si_queue (rx_sub (pl_rx p))) \<and> rx_closers (pl_rx p') = rx_closers (pl_rx p)"
    by (auto intro: exI [of _ "si_queue (rx_sub (pl_rx p))"])
  then show "rx_closers (pl_rx p') = rx_closers (pl_rx p)" "si_closed (rx_sub (pl_rx p')) = si_closed (rx_sub (pl_rx p))"
    "length (si_queue (rx_sub (pl_rx p'))) \<le> length (si_queue (rx_sub (pl_rx p)))"
    "\<exists>q. rx_sub (pl_rx p') = (rx_sub (pl_rx p))\<lparr>si_queue := q\<rparr>" by auto
qed

text \<open>A send on the closed bus, or of a message that is no valid frame, is answered with an error and reaches nobody.\<close>

lemma send_refused:
  assumes "vb_inv b" "h < length (vb_store b)" "adapter_send (vb_send clk) m b = (r, b')"
    and "vb_closed b \<or> (\<forall>f. from_message m = Ok f \<longrightarrow> \<not> wf_frame f)"
  shows "\<exists>e. r = Err e" "link_push nt h clk m b p = p" "b' = b \<or> b' = count_error b"
proof -
  have bad: "\<not> send_ok b f" if "from_message m = Ok f" for f using assms(4) that by (auto simp: send_ok_def)
  show "link_push nt h clk m b p = p" using bad by (simp add: link_push_def vb_accepts_def split: sum.split)
  show "\<exists>e. r = Err e" "b' = b \<or> b' = count_error b"
    using assms(3) bad vb_send_refused [of b "projr (from_message m)" clk]
    by (auto simp: adapter_send_def split: sum.splits prod.splits)
qed

lemma send_taken:
  assumes "vb_port b h (wants []) DropNewest cap q" "adapter_send (vb_send clk) m b = (r, b')" "from_message m = Ok f" "wf_frame f"
  shows "r = Ok ()" "b' = snd (vb_send clk f b)"
    "link_push nt h clk m b p = p\<lparr>pl_rx := push_step nt (clk h) f (pl_rx p)\<rparr>"
proof -
  have "fst (vb_send clk f b) = Ok ()" using port_send_ok [OF assms(1,4)] .
  then show "r = Ok ()" "b' = snd (vb_send clk f b)" using assms(2,3) by (auto simp: adapter_send_def split: prod.splits)
  show "link_push nt h clk m b p = p\<lparr>pl_rx := push_step nt (clk h) f (pl_rx p)\<rparr>"
    using assms(3,4) vb_accepts_wants [OF assms(1)] by (simp add: link_push_def)
qed

lemma linked_sends:
  assumes "linked nt h cap p0 ls als (b, p)" "adapter_send (vb_send clk) m b = (r, b')"
  shows "\<exists>als'. linked nt h cap p0 (ls @ [Sends m r]) als' (b', link_push nt h clk m b p)"
proof (cases "vb_closed b \<or> (\<forall>f. from_message m = Ok f \<longrightarrow> \<not> wf_frame f)")
  case True
  have b: "vb_inv b" "h < length (vb_store b)" using assms(1) by (simp_all add: linked_def)
  from send_refused [OF b assms(2) True] obtain e where e: "r = Err e" "link_push nt h clk m b p = p" "b' = b \<or> b' = count_error b"
    by blast
  have "vb_port (count_error b) h acc pol cap q = vb_port b h acc pol cap q" for acc pol cap q
    by (simp add: vb_port_def) (simp add: fun_eq_iff vb_accepts_def send_ok_def)
  with e assms(1) have "linked nt h cap p0 (ls @ [Sends m r]) als (b', p)" by (auto simp: linked_def)
  then show ?thesis using e(2) by auto
next
  case False
  then obtain f where f: "from_message m = Ok f" "wf_frame f" by blast
  let ?s = "rx_sub (pl_rx p)" and ?p = "p\<lparr>pl_rx := push_step nt (clk h) f (pl_rx p)\<rparr>"
  let ?als = "als @ [BusPush (clk h) f (fst (sub_push (clk h) f ?s))]"
  have s: "vb_store b ! h = ?s" "h < length (vb_store b)" "vb_inv b" using assms(1) by (simp_all add: linked_def)
  have port: "vb_port b h (wants []) DropNewest cap (si_queue ?s)" using assms(1) False by (simp add: linked_def)
  note send = send_taken [OF port assms(2) f]
  have sub: "\<not> si_closed ?s" "unlimited ?s" "si_policy ?s = DropNewest" "si_capacity ?s = cap"
    using port s(1) by (simp_all add: vb_port_def)
  note acc = vb_accepts_wants [OF port]
  have st: "vb_store b' ! h = snd (sub_push (clk h) f ?s)" "length (vb_store b') = length (vb_store b)" "vb_inv b'" "vb_closed b' = vb_closed b"
    using vports.deliver_store [OF s(3,2), of clk f] acc f(2) sub(1) s vb_send_length [of b] vb_send_inv [of b]
    by (auto simp: send(2))
  have rx: "rx_sub (push_step nt (clk h) f (pl_rx p)) = snd (sub_push (clk h) f ?s)"
    "rx_closers (push_step nt (clk h) f (pl_rx p)) = rx_closers (pl_rx p)"
    by (simp_all add: push_step_def case_prod_unfold Let_def)
  have port': "vb_port b' h (wants []) DropNewest cap (si_queue (rx_sub (pl_rx ?p)))"
    using port_send [OF port, of clk f] f(2) sub sub_push_unlimited(1) [OF sub(2), of "clk h" f]
    by (simp add: send(2) rx arrived_def wants_def)
  have room: "fst (sub_push (clk h) f ?s)" if "length (answered_ok ls) < cap"
  proof -
    have "length (si_queue ?s) < si_capacity ?s" using that assms(1) sub(4) by (simp add: linked_def)
    then show ?thesis using sub(2) by (simp add: sub_push_alt unlimited_def)
  qed
  have ok: "answered_ok (ls @ [Sends m r]) = answered_ok ls @ [m]" "frame_of m = f" by (simp_all add: send(1) frame_of_def f(1))
  have "adapt_run nt p0 ?als ?p"
    using adapt_run.more [OF _ adapt_step.bus_push [OF sub(1)]] assms(1) by (simp add: linked_def)
  moreover have "length (si_queue (rx_sub (pl_rx ?p))) \<le> length (answered_ok ls @ [m])"
    using sub_push_length [of "clk h" f ?s] assms(1) by (simp add: rx linked_def)
  moreover have "subseq (arrivals_of ?als) (map frame_of (answered_ok ls @ [m]))"
    using assms(1) ok(2) list_emb_append_mono [of "(=)" "arrivals_of als" _ "[f]" "[f]"]
    by (auto simp: linked_def intro: subseq_order.order_trans prefix_imp_subseq)
  moreover have "length (answered_ok ls @ [m]) \<le> cap \<longrightarrow> arrivals_of ?als = map frame_of (answered_ok ls @ [m])"
    using room assms(1) ok(2) by (simp add: linked_def)
  ultimately have "linked nt h cap p0 (ls @ [Sends m r]) ?als (b', ?p)"
    using assms(1) st s(2) rx port' unfolding linked_def ok(1) by simp
  then show ?thesis unfolding send(3) by blast
qed

lemma linked_closes:
  assumes "linked nt h cap p0 ls als (b, p)" "\<not> vb_closed b" "adapter_close vb_close b = (r, b')"
  shows "linked nt h cap p0 (ls @ [Bus_closes]) (als @ [BusClose]) (b', p\<lparr>pl_rx := close_store (pl_rx p)\<rparr>)"
proof -
  have b: "vb_inv b" "h < length (vb_store b)" "\<not> si_closed (vb_store b ! h)" using assms(1,2) by (auto simp: linked_def vb_port_def)
  have b': "b' = snd (vb_close b)" using assms(3) by (auto simp: adapter_close_def split: prod.splits sum.splits)
  have "h \<in> set (map vs_inner (vb_subs b))" using b by (auto simp: vb_inv_def)
  then have "vb_store b' ! h = sub_close (vb_store b ! h)" using b(2) assms(2) by (simp add: b' vb_close_def close_all_spec)
  with assms(1,2) vb_close_inv [OF b(1)] adapt_run.more [OF _ adapt_step.bus_close, of nt p0 als p] show ?thesis
    by (simp add: linked_def b' close_store_def)
qed

lemma linked_notifies:
  assumes "linked nt h cap p0 ls als (b, p)" "rx_closers (pl_rx p) > 0"
  shows "linked nt h cap p0 (ls @ [Bus_notifies]) (als @ [BusNotify]) (b, p\<lparr>pl_rx := close_notify nt (pl_rx p)\<rparr>)"
  using assms adapt_run.more [OF _ adapt_step.bus_notify [OF assms(2)], of nt p0 als]
  by (auto simp: linked_def close_notify_def)

lemma linked_produces:
  assumes "linked nt h cap p0 ls als (b, p)" "producer_step nt now p = Some p'"
  shows "linked nt h cap p0 (ls @ [Task (produced now p)]) (als @ [produced now p]) (vb_update h (\<lambda>_. rx_sub (pl_rx p')) b, p')"
proof -
  let ?b = "vb_update h (\<lambda>_. rx_sub (pl_rx p')) b"
  note rx = producer_step_rx [OF assms(2)]
  have b: "vb_inv b" "h < length (vb_store b)" "vb_store b ! h = rx_sub (pl_rx p)" using assms(1) by (simp_all add: linked_def)
  have b': "vb_inv ?b" "vb_closed ?b = vb_closed b" "length (vb_store ?b) = length (vb_store b)" "vb_store ?b ! h = rx_sub (pl_rx p')"
    using vb_update_inv [OF b(1), of h "\<lambda>_. rx_sub (pl_rx p')"] b rx(2) by (simp_all add: vb_update_def)
  have "vb_port ?b h (wants []) DropNewest cap (si_queue (rx_sub (pl_rx p')))"
    if "vb_port b h (wants []) DropNewest cap (si_queue (rx_sub (pl_rx p)))"
    using that b' rx(4) b(3) vports.update_accepts [of h "\<lambda>_. rx_sub (pl_rx p')" b] by (auto simp: vb_port_def unlimited_def)
  moreover have "adapt_run nt p0 (als @ [produced now p]) p'"
    using adapt_run.more [OF _ adapt_step.produce [OF assms(2)]] assms(1) by (simp add: linked_def)
  moreover have "arrivals_of (als @ [produced now p]) = arrivals_of als" "bus_work (produced now p) = 0"
    by (simp_all add: produced_def split: producer_pc.split recv_pc.split option.split)
  ultimately show ?thesis using assms(1) b' rx(1,3) by (auto simp: linked_def)
qed

lemma linked_forwards:
  assumes "linked nt h cap p0 ls als (b, p)" "forwarder_step nt sent p = Some p'"
  shows "linked nt h cap p0 (ls @ [Task (forwarded sent p)]) (als @ [forwarded sent p]) (b, p')"
proof -
  have "pl_rx p' = pl_rx p"
    using assms(2) by (auto simp: forwarder_step_def split: forwarder_pc.splits prod.splits option.splits if_splits)
  moreover have "adapt_run nt p0 (als @ [forwarded sent p]) p'"
    using adapt_run.more [OF _ adapt_step.forward [OF assms(2)]] assms(1) by (simp add: linked_def)
  moreover have "arrivals_of (als @ [forwarded sent p]) = arrivals_of als" "bus_work (forwarded sent p) = 0"
    by (simp_all add: forwarded_def split: forwarder_pc.split)
  ultimately show ?thesis using assms(1) by (auto simp: linked_def)
qed

lemma linked_run:
  "link_run nt h s0 ls s \<Longrightarrow> linked nt h cap p0 [] [] s0 \<Longrightarrow> \<exists>als. linked nt h cap p0 ls als s"
proof (induction rule: link_run.induct)
  case (more s ls s' l s'')
  then obtain als where als: "linked nt h cap p0 ls als s'" by blast
  from more.hyps(2) show ?case
  proof cases
    case (sends clk m b r b' p)
    then show ?thesis using linked_sends [of nt h cap p0 ls als b p clk m r b'] als by simp
  next
    case (closes b r b' p)
    then show ?thesis using linked_closes [of nt h cap p0 ls als b p r b'] als by blast
  next
    case (notifies p b)
    then show ?thesis using linked_notifies [of nt h cap p0 ls als b p] als by blast
  next
    case (produces now p p' b)
    then show ?thesis using linked_produces [of nt h cap p0 ls als b p now p'] als by blast
  next
    case (forwards sent p p' b)
    then show ?thesis using linked_forwards [of nt h cap p0 ls als b p sent p'] als by blast
  qed
qed blast

text \<open>A new adapter subscription on a bus in use.\<close>

lemma linked_subscribed:
  assumes "OpClose \<notin> set ops" "adapter_subscribe nt (vb_subscribe now) (\<lambda>b h. vb_store b ! h) opts (used_bus ops) = (Ok p0, b1)"
  shows "linked nt (length (vb_store (used_bus ops))) (2 * chan_depth opts 64) p0 [] [] (b1, p0)"
    and "\<exists>s. p0 = pipeline_new nt s (chan_depth opts 64) (back_pressure opts) \<and> si_queue s = [] \<and> si_policy s = DropNewest"
proof -
  let ?h = "length (vb_store (used_bus ops))" and ?d = "chan_depth opts 64"
  let ?o = "\<lparr>channel_depth = ?d * 2, back_pressure = DropNewest, rate_limit_per_sec = 0\<rparr>"
  have b: "\<not> vb_closed (used_bus ops)" "vb_inv (used_bus ops)" using used_bus_open [OF assms(1)] by simp_all
  have "chan_depth ?o 64 = 2 * ?d" using chan_depth_pos [of 64 opts] by (simp add: chan_depth_def)
  with port_subscribed [OF b, of ?o now "[]"] have sub: "fst (vb_subscribe now [] ?o (used_bus ops)) = Ok ?h"
    "vb_port (snd (vb_subscribe now [] ?o (used_bus ops))) ?h (wants []) DropNewest (2 * ?d) []" by simp_all
  then have b1: "b1 = snd (vb_subscribe now [] ?o (used_bus ops))" "p0 = pipeline_new nt (vb_store b1 ! ?h) ?d (back_pressure opts)"
    using assms(2) by (auto simp: adapter_subscribe_def Let_def split: prod.splits)
  with sub(2) have port: "vb_port b1 ?h (wants []) DropNewest (2 * ?d) []" by simp
  then show "\<exists>s. p0 = pipeline_new nt s (chan_depth opts 64) (back_pressure opts) \<and> si_queue s = [] \<and> si_policy s = DropNewest"
    using b1(2) by (auto simp: vb_port_def)
  show "linked nt ?h (2 * ?d) p0 [] [] (b1, p0)"
    using port b1(2) by (auto simp: linked_def pipeline_new_def rx_init_def vb_port_def intro: adapt_run.nothing)
qed

text \<open>A given interleaving, to run it.\<close>

datatype link_turn = Send_turn clock message | Close_turn | Notify_turn | Produce_turn | Forward_turn bool

fun link_taken :: "'n notify \<Rightarrow> nat \<Rightarrow> link_turn \<Rightarrow> virtual_bus \<times> 'n pipeline \<Rightarrow> (link_label \<times> virtual_bus \<times> 'n pipeline) option" where
  "link_taken nt h (Send_turn clk m) (b, p) =
     (case adapter_send (vb_send clk) m b of (r, b') \<Rightarrow> Some (Sends m r, b', link_push nt h clk m b p))"
| "link_taken nt h Close_turn (b, p) =
     (if vb_closed b then None
      else case adapter_close vb_close b of (r, b') \<Rightarrow> Some (Bus_closes, b', p\<lparr>pl_rx := close_store (pl_rx p)\<rparr>))"
| "link_taken nt h Notify_turn (b, p) =
     (if rx_closers (pl_rx p) > 0 then Some (Bus_notifies, b, p\<lparr>pl_rx := close_notify nt (pl_rx p)\<rparr>) else None)"
| "link_taken nt h Produce_turn (b, p) =
     map_option (\<lambda>p'. (Task (produced 0 p), vb_update h (\<lambda>_. rx_sub (pl_rx p')) b, p')) (producer_step nt 0 p)"
| "link_taken nt h (Forward_turn sent) (b, p) = map_option (\<lambda>p'. (Task (forwarded sent p), b, p')) (forwarder_step nt sent p)"

fun link_exec :: "'n notify \<Rightarrow> nat \<Rightarrow> link_turn list \<Rightarrow> link_label list \<Rightarrow> virtual_bus \<times> 'n pipeline \<Rightarrow>
    (link_label list \<times> virtual_bus \<times> 'n pipeline) option" where
  "link_exec nt h [] ls s = Some (ls, s)"
| "link_exec nt h (x # xs) ls s = (case link_taken nt h x s of None \<Rightarrow> None | Some (l, s') \<Rightarrow> link_exec nt h xs (ls @ [l]) s')"

lemma link_taken_step: "link_taken nt h x s = Some (l, s') \<Longrightarrow> link_step nt h s l s'"
  by (induction nt h x s rule: link_taken.induct) (auto intro: link_step.intros split: if_splits prod.splits)

lemma link_exec_run: "link_exec nt h xs ls s = Some (ls', s') \<Longrightarrow> link_run nt h s0 ls s \<Longrightarrow> link_run nt h s0 ls' s'"
proof (induction xs arbitrary: ls s)
  case (Cons x xs)
  then obtain l q where "link_taken nt h x s = Some (l, q)" "link_exec nt h xs (ls @ [l]) q = Some (ls', s')"
    by (auto split: option.splits)
  with Cons.IH link_run.more [OF Cons.prems(2) link_taken_step] show ?case by blast
qed simp

end
