(* ===== verification/Can_System.thy ===== *)
theory Can_System
  imports Can_Clients Can_Adapt_Bus
begin

text \<open>
  Properties that span components: what one end of the in-process bus (\<^verbatim>\<open>src/virtual_bus/mod.rs\<close>) sees of what the
  other end sent, when both use J1939 (\<^verbatim>\<open>src/j1939/mod.rs\<close>), when one records and the other replays
  (\<^verbatim>\<open>src/recorder/mod.rs\<close>), and when both are RELAY adapters (\<^verbatim>\<open>src/adapt.rs\<close>). The proofs rest on
  the contract \<open>bus_subscription\<close>.
\<close>

section \<open>J1939 on the in-process bus\<close>

text \<open>What a subscriber sees of a frame that the node with address \<open>addr\<close> has sent.\<close>

definition j1939_seen :: "u8 \<Rightarrow> j1939_frame \<Rightarrow> j1939_frame" where
  "j1939_seen addr f = f\<lparr>j_src := addr, j_dst := if is_peer_to_peer (j_pgn f) then j_dst f else BROADCAST_ADDR\<rparr>"

lemma j1939_sends:
  "fold (\<lambda>(clk, addr, f) b. snd (j1939_send (vb_send clk) addr f b)) msgs b =
     vclient.arrivals (map (\<lambda>(clk, addr, f). (clk, j1939_to_frame addr f)) msgs) b"
  unfolding vclient.arrivals_def by (induction msgs arbitrary: b) (auto simp: j1939_send_def)

lemma j1939_decoded:
  assumes "list_all (\<lambda>(clk, addr, f). wf_pgn (j_pgn f) \<and> j_priority f < Priority 8 \<and> length (j_data f) \<le> 8) msgs"
  shows "filter (\<lambda>f. wf_frame f \<and> wants [] f) (map snd (map (\<lambda>(clk, addr, f). (clk, j1939_to_frame addr f)) msgs)) =
      map (\<lambda>(clk, addr, f). j1939_to_frame addr f) msgs"
    and "List.map_filter (j1939_decode pgns) (map (\<lambda>(clk, addr, f). j1939_to_frame addr f) msgs) =
      map (\<lambda>(clk, addr, f). j1939_seen addr f) (filter (\<lambda>(clk, addr, f). pgns = [] \<or> j_pgn f \<in> set pgns) msgs)"
  using assms
  by (induction msgs) (auto simp: j1939_transfer wants_def j1939_seen_def map_filter_simps split: if_splits)

text \<open>
  C26: J1939 over the in-process bus, end to end. A node that subscribes to some parameter groups on a bus in use,
  with the default policy, and any nodes that send afterwards, each frame with a valid group and priority and at
  most 8 bytes: reading the subscription returns, in order, exactly the frames of the wanted groups among those that
  fitted the queue, with priority, group and data unchanged, the sender's address, and the destination
  of a peer-to-peer frame; then it waits.
\<close>

theorem j1939_over_virtual:
  assumes "OpClose \<notin> set ops" "rate_limit_per_sec opts = 0" "back_pressure opts = DropNewest"
    and "list_all (\<lambda>(clk, addr, f). wf_pgn (j_pgn f) \<and> j_priority f < Priority 8 \<and> length (j_data f) \<le> 8) msgs"
  shows "let b = used_bus ops; h = length (vb_store b);
             (r, b1) = j1939_subscribe (vb_subscribe now) pgns opts b;
             b2 = fold (\<lambda>(clk, addr, f) b. snd (j1939_send (vb_send clk) addr f b)) msgs b1;
             js = map (\<lambda>(clk, addr, f). j1939_seen addr f)
               (filter (\<lambda>(clk, addr, f). pgns = [] \<or> j_pgn f \<in> set pgns) (take (chan_depth opts 64) msgs))
         in r = Ok (h, pgns) \<and>
            j1939_run pgns (length js + n) (vb_store b2 ! h) = map (\<lambda>j. Ready (Some j)) js @ replicate n Pending"
proof -
  let ?b = "used_bus ops" and ?ps = "map (\<lambda>(clk, addr, f). (clk, j1939_to_frame addr f)) msgs"
  let ?kept = "take (chan_depth opts 64) msgs"
  have b: "vb_inv ?b" "\<not> vb_closed ?b" using used_bus_open [OF assms(1)] by simp_all
  have kept: "list_all (\<lambda>(clk, addr, f). wf_pgn (j_pgn f) \<and> j_priority f < Priority 8 \<and> length (j_data f) \<le> 8) ?kept"
    using assms(4) by (auto simp: list_all_iff dest: in_set_takeD)
  have sub: "j1939_subscribe (vb_subscribe now) pgns opts ?b =
      (Ok (length (vb_store ?b), pgns), snd (vb_subscribe now [] opts ?b))"
    using vclient.subscribe_handle [OF b, of now "[]" opts]
    by (cases "vb_subscribe now [] opts ?b") (simp add: j1939_subscribe_def)
  note reads = vclient.j1939_reads(2) [OF b assms(2,3) refl refl, where now = now and ps = ?ps and pgns = pgns and n = n,
      unfolded j1939_decoded(1) [OF assms(4)] take_map j1939_decoded(2) [OF kept]]
  with sub show ?thesis unfolding j1939_sends by (simp add: Let_def)
qed

theorem j1939_over_virtual_witness:
  "let f = \<lparr>j_priority = Priority 6, j_pgn = Pgn 0xEA00, j_src = 0, j_dst = 0x55, j_data = [1, 2]\<rparr>;
       g = \<lparr>j_priority = Priority 3, j_pgn = Pgn 0xF004, j_src = 0, j_dst = 0x55, j_data = [3]\<rparr>;
       (r, b1) = j1939_subscribe (vb_subscribe 0) [Pgn 0xEA00] default_options vb_new;
       b2 = fold (\<lambda>(clk, addr, f) b. snd (j1939_send (vb_send clk) addr f b))
         [(\<lambda>_. 1, 0x21, f), (\<lambda>_. 2, 0x22, g), (\<lambda>_. 3, 0x23, f)] b1
   in r = Ok (0, [Pgn 0xEA00]) \<and>
      j1939_run [Pgn 0xEA00] 3 (vb_store b2 ! 0) =
        [Ready (Some (f\<lparr>j_src := 0x21\<rparr>)), Ready (Some (f\<lparr>j_src := 0x23\<rparr>)), Pending]"
proof -
  let ?f = "\<lparr>j_priority = Priority 6, j_pgn = Pgn 0xEA00, j_src = 0, j_dst = 0x55, j_data = [1, 2]\<rparr>"
    and ?g = "\<lparr>j_priority = Priority 3, j_pgn = Pgn 0xF004, j_src = 0, j_dst = 0x55, j_data = [3]\<rparr>"
  have bus: "used_bus [] = vb_new" by (simp add: used_bus_def)
  have opts: "rate_limit_per_sec default_options = 0" "back_pressure default_options = DropNewest"
    "chan_depth default_options 64 = 64" by (simp_all add: default_options_def chan_depth_def)
  let ?msgs = "[(\<lambda>_ :: nat. 1 :: nat, 0x21 :: u8, ?f), (\<lambda>_. 2, 0x22, ?g), (\<lambda>_. 3, 0x23, ?f)]"
  have ok: "list_all (\<lambda>(clk, addr, f). wf_pgn (j_pgn f) \<and> j_priority f < Priority 8 \<and> length (j_data f) \<le> 8) ?msgs"
    by (simp add: wf_pgn_def less_priority_def)
  have js: "map (\<lambda>(clk, addr, f). j1939_seen addr f)
      (filter (\<lambda>(clk, addr, f). [Pgn 0xEA00] = [] \<or> j_pgn f \<in> set [Pgn 0xEA00]) (take 64 ?msgs)) =
      [?f\<lparr>j_src := 0x21\<rparr>, ?f\<lparr>j_src := 0x23\<rparr>]" by (simp add: j1939_seen_def)
  have n: "length [?f\<lparr>j_src := 0x21\<rparr>, ?f\<lparr>j_src := 0x23\<rparr>] + 1 = 3" "length (vb_store vb_new) = 0"
    "map (\<lambda>j. Ready (Some j)) [?f\<lparr>j_src := 0x21\<rparr>, ?f\<lparr>j_src := 0x23\<rparr>] @ replicate 1 Pending =
      [Ready (Some (?f\<lparr>j_src := 0x21\<rparr>)), Ready (Some (?f\<lparr>j_src := 0x23\<rparr>)), Pending]" by (simp_all add: vb_new_def)
  from j1939_over_virtual [OF _ opts(1,2) ok, of "[]" 0 "[Pgn 0xEA00]" 1, unfolded bus opts(3) js Let_def n]
  show ?thesis unfolding Let_def by simp
qed

section \<open>Recording one bus and replaying to another\<close>

lemma send_all_arrivals: "send_all ps b = vclient.arrivals ps b"
  unfolding vclient.arrivals_def by (induction ps arbitrary: b) auto

lemma replayed_sends:
  "vb_port b h acc DropNewest cap q \<Longrightarrow> list_all wf_frame fs \<Longrightarrow>
   send_each (vb_send clk) fs b = (Ok (), fs, send_all (map (Pair clk) fs) b)"
proof (induction fs arbitrary: b q)
  case (Cons f fs)
  have "fst (vb_send clk f b) = Ok ()" using port_send_ok [OF Cons.prems(1)] Cons.prems(2) by simp
  then obtain b' where s: "vb_send clk f b = (Ok (), b')" by (metis prod.collapse)
  from Cons.IH [OF port_send [OF Cons.prems(1), of clk f]] Cons.prems(2) s show ?case by simp
qed simp

text \<open>
  C37: A recording of one in-process bus, replayed to another, brings a subscriber of the second bus the frames of the
  first. The recorder subscribes on a bus in use, frames are sent, and it writes what its subscription
  holds, the first 64 of them; \<^verbatim>\<open>replay\<close> of that text, at any speed and with any delays, returns \<open>Ok\<close> and leaves
  exactly these frames, in order, with a subscriber of all frames on the other bus. The frames are
  valid and of a kind that the candump format keeps.
\<close>

theorem record_virtual_replay:
  assumes "OpClose \<notin> set ops" "OpClose \<notin> set ops'" "hex_laws hx" "is_word iface" "\<And>i. as_secs (clk i) < 2 ^ 64"
    and "list_all (\<lambda>f. wf_frame f \<and> candump_frame f = f) (map snd sent)"
    and "record_loop hx append_writer iface clk 0
      (vb_store (send_all sent (snd (record_open (vb_subscribe t1) (used_bus ops)))) ! length (vb_store (used_bus ops)))
      [] = (ended, s', text)"
  shows "let b = snd (vb_subscribe t2 [] default_options (used_bus ops'));
             (r, es, b') = replay hx (vb_send clk2) nonpositive one scaled elapsed (map Ok (lines text)) speed b
         in r = Returns (Ok ()) \<and> replayed es = take 64 (map snd sent) \<and>
            si_queue (vb_store b' ! length (vb_store (used_bus ops'))) = take 64 (map snd sent)"
proof -
  let ?b = "snd (vb_subscribe t2 [] default_options (used_bus ops'))" and ?fs = "take 64 (map snd sent)"
  let ?h = "length (vb_store (used_bus ops'))"
  have b1: "vb_inv (used_bus ops)" "\<not> vb_closed (used_bus ops)" and b2: "\<not> vb_closed (used_bus ops')" "vb_inv (used_bus ops')"
    using used_bus_open [OF assms(1)] used_bus_open [OF assms(2)] by simp_all
  have opts: "rate_limit_per_sec default_options = 0" "back_pressure default_options = DropNewest"
    "chan_depth default_options 64 = 64" by (simp_all add: default_options_def chan_depth_def)
  have fs: "list_all wf_frame ?fs" "map candump_frame ?fs = ?fs"
    using assms(6) by (auto simp: list_all_iff dest!: in_set_takeD intro!: map_idI)
  have kept: "filter (\<lambda>f. wf_frame f \<and> wants [] f) (map snd sent) = map snd sent"
    using assms(6) by (simp add: filter_id_conv list_all_iff wants_def)
  have port: "vb_port ?b ?h (wants []) DropNewest 64 []"
    using port_subscribed(2) [OF b2 opts(1), of t2 "[]"] opts(2,3) by simp
  note log = vclient.recorded_replays [OF b1 assms(3-5) assms(7) [unfolded send_all_arrivals record_open_def], where c = ?b and send = "vb_send clk2",
      unfolded kept fs(2) replayed_sends [OF port fs(1)]]
  have "vb_port (send_all (map (Pair clk2) ?fs) ?b) ?h (wants []) DropNewest 64 ?fs"
    using port_send_all [OF port, of "map (Pair clk2) ?fs"] fs(1)
    by (simp add: comp_def list_all_iff wants_def filter_id_conv [THEN iffD2])
  then have "si_queue (vb_store (send_all (map (Pair clk2) ?fs) ?b) ! ?h) = ?fs" by (simp add: vb_port_def)
  with log [of nonpositive one scaled elapsed speed] show ?thesis
    by (simp add: case_prod_unfold Let_def prod_eq_iff)
qed

theorem record_virtual_replay_witness:
  "let f = default_frame\<lparr>f_id := 0x123, f_data := [0xDE, 0xAD]\<rparr>; g = default_frame\<lparr>f_id := 0x124\<rparr>;
       b1 = send_all [(\<lambda>_. 5, f), (\<lambda>_. 6, g)] (snd (record_open (vb_subscribe 0) vb_new));
       (_, _, text) = record_loop hex_example append_writer ''vcan0'' (\<lambda>i. 1000000000) 0 (vb_store b1 ! 0) [];
       b = snd (vb_subscribe 0 [] default_options vb_new);
       (r, es, b') = replay hex_example (vb_send (\<lambda>_. 9)) (\<lambda>s. s \<le> (0 :: int)) 1 (\<lambda>s d. d div nat s) (\<lambda>i. i)
         (map Ok (lines text)) 2 b
   in (r, replayed es, si_queue (vb_store b' ! 0)) = (Returns (Ok ()), [f, g], [f, g])"
proof -
  let ?f = "default_frame\<lparr>f_id := 0x123, f_data := [0xDE, 0xAD]\<rparr>" and ?g = "default_frame\<lparr>f_id := 0x124\<rparr>"
  let ?sent = "[(\<lambda>_ :: nat. 5 :: nat, ?f), (\<lambda>_. 6, ?g)]"
  have bus: "used_bus [] = vb_new" "length (vb_store vb_new) = 0" by (simp_all add: used_bus_def vb_new_def)
  obtain ended s' out where t: "record_loop hex_example append_writer ''vcan0'' (\<lambda>i. 1000000000) 0
      (vb_store (send_all ?sent (snd (record_open (vb_subscribe 0) vb_new))) ! 0) [] = (ended, s', out)"
    by (rule prod_cases3)
  have ok: "list_all (\<lambda>f. wf_frame f \<and> candump_frame f = f) (map snd ?sent)"
    by (simp add: wf_frame_def wf_classic_def wf_id_def candump_frame_def default_frame_def)
  have word: "is_word ''vcan0''" by (simp add: is_word_def is_whitespace_def)
  have time: "as_secs ((\<lambda>_. 1000000000) i) < 2 ^ 64" for i :: nat by (simp add: as_secs_def)
  from record_virtual_replay [OF _ _ hex_example_laws word time ok, where ops = "[]" and ops' = "[]" and ended = ended and s' = s',
      unfolded bus, OF _ _ t, where speed = 2 and nonpositive = "\<lambda>s. s \<le> (0 :: int)" and one = 1 and elapsed = "\<lambda>i. i"
        and scaled = "\<lambda>s d. d div nat s" and ?clk2.0 = "\<lambda>_. 9" and ?t2.0 = 0]
  show ?thesis unfolding Let_def t prod.case by (simp add: case_prod_unfold)
qed

section \<open>Two adapters on the in-process bus\<close>

definition xl_fields_kept :: "frame \<Rightarrow> frame" where
  "xl_fields_kept f = (if f_xl f then f else f\<lparr>f_sdt := 0, f_vcid := 0, f_af := 0, f_sec := False\<rparr>)"

lemma numbered_contents:
  "map from_message (numbered_messages k tfs) = map (\<lambda>(t, f). Ok (xl_fields_kept f)) tfs"
  by (induction k tfs rule: numbered_messages.induct) (simp_all add: from_to_message xl_fields_kept_def)

lemma numbered_seqs:
  "map m_seq (numbered_messages k tfs) = map of_nat [k..<k + length tfs]"
proof (induction k tfs rule: numbered_messages.induct)
  case (2 k now f tfs)
  then show ?case by (simp add: upt_conv_Cons del: upt_Suc)
qed simp

text \<open>
  C32: Two RELAY adapters on one in-process bus. One subscribes; then messages are sent through others, in any number, the bus may be closed, and the
  atomic steps of the two tasks of the subscription come between these calls, and between the two halves of the close, in any order. (The sends and
  the close are whole calls that do not overlap one another.) A message whose send was answered \<open>Ok\<close> is one that converts to a valid frame,
  on the open bus. The caller is handed only the frames of such messages (apart from the CAN XL fields of a frame that is not XL),
  in order and without repetition, and the tasks take a bounded number of steps. When no task can take a step any more, the caller has kept
  its receiver, and no more messages were sent than the bus holds for the subscription (twice its depth), then under \<open>Block\<close>, and under every
  policy if no more were sent than the depth, all of them have been handed over, numbered from 0. Whether the stream then also
  ends after a close is another matter: its end can be lost (\<open>adapt_end_lost\<close>, \<open>recv_close_lost\<close>).
\<close>

theorem adapters_over_virtual:
  assumes "notify_laws nt" "OpClose \<notin> set ops"
    and "adapter_subscribe nt (vb_subscribe now) (\<lambda>b h. vb_store b ! h) opts (used_bus ops) = (Ok p0, b1)"
    and "link_run nt (length (vb_store (used_bus ops))) (b1, p0) ls (b, p)"
  shows "let sent = answered_ok ls; got = handed (tasks ls); seen = (\<lambda>m. Ok (xl_fields_kept (frame_of m)))
         in length (tasks ls) \<le> 21 * length sent + 17 \<and>
            subseq (map from_message got) (map seen sent) \<and>
            (length sent \<le> 2 * chan_depth opts 64 \<and> (back_pressure opts = Block \<or> length sent \<le> chan_depth opts 64) \<and>
               \<not> refused (tasks ls) \<and> at_rest nt p \<longrightarrow>
             map m_seq got = map of_nat [0..<length sent] \<and> map from_message got = map seen sent)"
proof -
  let ?n = "length (answered_ok ls)"
  note sub = linked_subscribed [OF assms(2,3)]
  from sub(2) obtain s where s: "p0 = pipeline_new nt s (chan_depth opts 64) (back_pressure opts)" "si_queue s = []" "si_policy s = DropNewest" by blast
  from linked_run [OF assms(4) sub(1)] obtain als where als: "adapt_run nt p0 als p" "filter task_label als = tasks ls"
    "subseq (arrivals_of als) (map frame_of (answered_ok ls))"
    "?n \<le> 2 * chan_depth opts 64 \<longrightarrow> arrivals_of als = map frame_of (answered_ok ls)"
    "(\<Sum>l\<leftarrow>als. bus_work l) \<le> 21 * ?n + 4" by (auto simp: linked_def split: if_splits)
  note run = als(1) [unfolded s(1)]
  note delivers = adapt_delivers [OF assms(1) run s(3)] and inv = adapt_run_inv [OF run refl, unfolded adapt_inv_def]
  have got: "handed als = handed (tasks ls)" "refused als = refused (tasks ls)"
    using handed_tasks [of als] by (auto simp: als(2) [symmetric] refused_def)
  have work: "length (tasks ls) \<le> 21 * ?n + 17" using delivers(1) als(2,5) s(2) by simp
  have contents: "map from_message (numbered_messages 0 tfs) = map (\<lambda>f. Ok (xl_fields_kept f)) (map snd tfs)" for tfs
    by (simp add: numbered_contents case_prod_unfold)
  have "map snd (took als) @ rx_holds p = arrivals_of als" using adapt_run_received [OF run refl s(3)] s(2) by simp
  then have "subseq (map snd (took als)) (map frame_of (answered_ok ls))"
    using als(3) by (metis prefix_imp_subseq prefixI subseq_order.order_trans)
  moreover have "subseq (handed als) (numbered_messages 0 (took als))"
    using inv by (metis prefix_imp_subseq prefixI subseq_order.order_trans)
  ultimately have "subseq (map from_message (handed als)) (map (\<lambda>f. Ok (xl_fields_kept f)) (map frame_of (answered_ok ls)))"
    using contents [of "took als"] by (metis subseq_map subseq_order.order_trans)
  moreover have "map m_seq (handed als) = map of_nat [0..<?n] \<and>
      map from_message (handed als) = map (\<lambda>f. Ok (xl_fields_kept f)) (map frame_of (answered_ok ls))"
    if "?n \<le> 2 * chan_depth opts 64" "back_pressure opts = Block \<or> ?n \<le> chan_depth opts 64" "\<not> refused als" "at_rest nt p"
  proof -
    have took: "map snd (took als) = map frame_of (answered_ok ls)" "in_flight p = []"
      using delivers(2) [OF that(4,3)] als(4) that(1) s(2) by auto
    then have n: "length (took als) = ?n" by (metis length_map)
    have "handed als = numbered_messages 0 (took als)" using inv took(2) that(2) n by auto
    then show ?thesis using contents [of "took als"] numbered_seqs [of 0 "took als"] took(1) n by simp
  qed
  ultimately show ?thesis using work unfolding got by (simp add: comp_def Let_def)
qed

text \<open>
  Two messages, depth 1. The producer has looked at the empty queue when the first is sent, the forwarder at the empty buffer when the second is
  sent; then the bus is closed, and both tasks come to their ends.
\<close>

lemma two_messages_run:
  assumes "wf_frame f" "wf_frame g" "from_message m = Ok f" "from_message n = Ok g"
  shows "\<exists>ls b p. link_exec notify_example 0
       ([Produce_turn, Produce_turn, Send_turn (\<lambda>_. 1) m, Produce_turn, Forward_turn True, Send_turn (\<lambda>_. 2) n, Close_turn, Notify_turn] @
        replicate 5 Produce_turn @ replicate 6 (Forward_turn True) @ replicate 10 Produce_turn @ replicate 6 (Forward_turn True)) []
       (snd (vb_subscribe 0 [] \<lparr>channel_depth = 2, back_pressure = DropNewest, rate_limit_per_sec = 0\<rparr> vb_new),
        pipeline_new notify_example (sub_new 0 2 DropNewest 0) 1 Block) = Some (ls, b, p) \<and>
     answered_ok ls = [m, n] \<and> length (handed (tasks ls)) = 2 \<and> \<not> refused (tasks ls) \<and>
     pl_producer p = Producer_done \<and> pl_forwarder p = Forwarder_done"
proof -
  have ok: "validate_frame f = Ok ()" "validate_frame g = Ok ()" using assms(1,2) by (simp_all add: validate_frame_iff)
  note eval = exec_eval vb_subscribe_def vb_new_def adapter_send_def adapter_close_def vb_send_def vb_close_def gc_def broadcast_def
    vsub_matches_def link_push_def vb_accepts_def send_ok_def targets_def vb_update_def chan_depth_def zero_metrics_def
  show ?thesis
    using assms ok by (simp add: eval numeral_eq_Suc answered_ok_def tasks_def handed_def refused_def List.map_filter_def) auto
qed

theorem adapters_over_virtual_witness:
  "let f = default_frame\<lparr>f_id := 0x10, f_data := [1]\<rparr>; g = default_frame\<lparr>f_id := 0x11\<rparr>;
       opts = \<lparr>channel_depth = 1, back_pressure = Block, rate_limit_per_sec = 0\<rparr>;
       (r, b1) = adapter_subscribe notify_example (vb_subscribe 0) (\<lambda>b h. vb_store b ! h) opts vb_new
   in \<exists>ls b p. link_run notify_example 0 (b1, projr r) ls (b, p) \<and> answered_ok ls = [to_message 7 f, to_message 8 g] \<and>
        map m_seq (handed (tasks ls)) = [0, 1] \<and> map from_message (handed (tasks ls)) = [Ok f, Ok g]"
proof -
  let ?f = "default_frame\<lparr>f_id := 0x10, f_data := [1]\<rparr>" and ?g = "default_frame\<lparr>f_id := 0x11\<rparr>"
  let ?opts = "\<lparr>channel_depth = 1, back_pressure = Block, rate_limit_per_sec = 0\<rparr>"
  let ?b1 = "snd (vb_subscribe 0 [] \<lparr>channel_depth = 2, back_pressure = DropNewest, rate_limit_per_sec = 0\<rparr> vb_new)"
  let ?p0 = "pipeline_new notify_example (sub_new 0 2 DropNewest 0) 1 Block"
  have bus: "used_bus [] = vb_new" "length (vb_store vb_new) = 0" by (simp_all add: used_bus_def vb_new_def)
  have sub: "adapter_subscribe notify_example (vb_subscribe 0) (\<lambda>b h. vb_store b ! h) ?opts vb_new = (Ok ?p0, ?b1)"
    by (simp add: adapter_subscribe_def chan_depth_def vb_subscribe_def vb_new_def)
  have fm: "from_message (to_message 7 ?f) = Ok ?f" "from_message (to_message 8 ?g) = Ok ?g"
    by (simp_all add: from_to_message default_frame_def)
  have kept: "xl_fields_kept ?f = ?f" "xl_fields_kept ?g = ?g" by (simp_all add: xl_fields_kept_def default_frame_def)
  have wf: "wf_frame ?f" "wf_frame ?g" by (simp_all add: wf_frame_def wf_classic_def wf_id_def default_frame_def)
  from two_messages_run [OF wf fm] obtain xs ls b p where e: "link_exec notify_example 0 xs [] (?b1, ?p0) = Some (ls, b, p)"
    "answered_ok ls = [to_message 7 ?f, to_message 8 ?g]" "\<not> refused (tasks ls)" "pl_producer p = Producer_done" "pl_forwarder p = Forwarder_done"
    by blast
  note run = link_exec_run [OF e(1) link_run.nothing]
  have "at_rest notify_example p" using e(4,5) by (simp add: at_rest_def producer_step_def forwarder_step_def)
  with adapters_over_virtual [OF notify_example_laws, of "[]" 0 ?opts ?p0 ?b1 ls b p, unfolded bus, OF _ sub run] e(2,3)
  have "map m_seq (handed (tasks ls)) = [0, 1] \<and> map from_message (handed (tasks ls)) = [Ok ?f, Ok ?g]"
    by (simp add: Let_def chan_depth_def frame_of_def fm kept)
  with run e(2) show ?thesis unfolding Let_def sub prod.case sum.sel
    by - (rule exI [of _ ls], rule exI [of _ b], rule exI [of _ p], simp only: simp_thms)
qed

end
